(* ===== verification/Motr_Prelude.thy ===== *)
theory Motr_Prelude
  imports Main "HOL-Library.Word" "HOL-Library.Monad_Syntax"
begin

unbundle bit_operations_syntax

text \<open>
  Shared vocabulary of the development: the fixed-width integer types of the C code, the
  model of the assertion macros of \<^verbatim>\<open>src/lib/assert.h\<close>, and the lemmas on words and lists
  that several components use.

  A failed \<^verbatim>\<open>M0_ASSERT\<close>, \<^verbatim>\<open>M0_PRE\<close> or \<^verbatim>\<open>M0_POST\<close> calls \<^verbatim>\<open>m0_panic()\<close> and the process
  does not continue, so a function that asserts has an option type: \<^term>\<open>None\<close> is the panic and
  \<^term>\<open>Some r\<close> is a return with result \<^term>\<open>r\<close>.
\<close>

section \<open>Machine types\<close>

type_synonym u8 = "8 word"
type_synonym u32 = "32 word"
type_synonym u64 = "64 word"

text \<open>The largest value of the C type \<^verbatim>\<open>int\<close>. Signed arithmetic that leaves the type is a failure.\<close>

abbreviation INT_MAX :: int where
  "INT_MAX \<equiv> 2147483647"

section \<open>Assertions\<close>

definition M0_ASSERT :: "bool \<Rightarrow> unit option" where
  "M0_ASSERT cond = (if cond then Some () else None)"

lemma M0_ASSERT_simps [simp]:
  "M0_ASSERT True = Some ()" "M0_ASSERT False = None"
  by (simp_all add: M0_ASSERT_def)

lemma M0_ASSERT_eq_Some [simp]: "M0_ASSERT b = Some u \<longleftrightarrow> b"
  by (simp add: M0_ASSERT_def)

lemma bind_M0_ASSERT_eq_Some [simp]:
  "Option.bind (M0_ASSERT b) f = Some r \<longleftrightarrow> b \<and> f () = Some r"
  by (simp add: M0_ASSERT_def)

lemma bind_M0_ASSERT_eq_None [simp]:
  "Option.bind (M0_ASSERT b) f = None \<longleftrightarrow> (b \<longrightarrow> f () = None)"
  by (simp add: M0_ASSERT_def)

lemma bind_M0_ASSERT_True: "b \<Longrightarrow> Option.bind (M0_ASSERT b) f = f ()"
  by (simp add: M0_ASSERT_def)

section \<open>Automation\<close>

named_theorems unat_arith_simps \<open>unat of the word operations, as operations on nat\<close>

named_theorems invariant_intros \<open>preservation of a component's invariant by its operations\<close>

lemmas [unat_arith_simps] =
  unat_word_ariths unat_div_distrib unat_mod_distrib

lemma unat_add_noof:
  fixes a b :: "'a::len word"
  assumes "unat a + unat b < 2 ^ LENGTH('a)"
  shows "unat (a + b) = unat a + unat b"
  using assms by (simp add: unat_word_ariths)

lemma unat_mult_noof:
  fixes a b :: "'a::len word"
  assumes "unat a * unat b < 2 ^ LENGTH('a)"
  shows "unat (a * b) = unat a * unat b"
  using assms by (simp add: unat_word_ariths)

lemma unat_sub_noof:
  fixes a b :: "'a::len word"
  assumes "b \<le> a"
  shows "unat (a - b) = unat a - unat b"
  using assms by (rule unat_sub)

lemma unat_lt_u64: "unat (x :: u64) < 18446744073709551616"
  using unsigned_less [of x, where ?'a = nat] by simp

lemma unat_lt_u32: "unat (x :: u32) < 4294967296"
  using unsigned_less [of x, where ?'a = nat] by simp

lemma unat_ucast_32_64 [simp]: "unat (ucast (x :: u32) :: u64) = unat x"
proof -
  have "unat (ucast x :: u64) = unat x mod 18446744073709551616"
    by (simp add: unsigned_ucast_eq take_bit_eq_mod)
  also have "\<dots> = unat x"
    using unat_lt_u32 [of x] by simp
  finally show ?thesis .
qed

lemma unat_ucast_64_32: "unat (ucast (x :: u64) :: u32) = unat x mod 4294967296"
  by (simp add: unsigned_ucast_eq take_bit_eq_mod)

lemma unat_exp_u64:
  assumes "n < 64"
  shows "unat (2 ^ n :: u64) = 2 ^ n"
proof -
  have "unat (of_nat (2 ^ n) :: u64) = 2 ^ n mod 2 ^ 64"
    by (simp only: unat_of_nat) simp
  also have "\<dots> = 2 ^ n"
    using assms by (intro mod_less power_strict_increasing) simp_all
  finally show ?thesis by simp
qed

lemma bit_top:
  fixes x :: u64
  assumes "n < 64" "2 ^ n \<le> unat x" "unat x < 2 ^ Suc n"
  shows "bit x n"
proof -
  have "unat x div 2 ^ n = 1" using assms by (intro div_nat_eqI) auto
  then have "bit (unat x) n" by (simp add: bit_iff_odd)
  then show ?thesis by (simp add: bit_unsigned_iff)
qed

lemma word_and_not_mask:
  fixes x :: u64
  assumes "n < 64"
  shows "unat (x AND NOT (2 ^ n - 1)) = unat x div 2 ^ n * 2 ^ n"
proof -
  have m: "(2 ^ n - 1 :: u64) = mask n" by (simp add: mask_eq_exp_minus_1)
  have "x AND NOT (mask n) = push_bit n (drop_bit n x)"
    by (rule bit_word_eqI) (auto simp: bit_simps)
  also have "unat \<dots> = unat (drop_bit n x) * 2 ^ n"
  proof -
    have u: "unat (drop_bit n x) = unat x div 2 ^ n"
      using assms by (simp add: drop_bit_eq_div unat_div_distrib unat_exp_u64)
    have "unat x div 2 ^ n * 2 ^ n < 2 ^ LENGTH(64)"
      using le_less_trans [OF div_times_less_eq_dividend unat_lt_u64 [of x]] by simp
    with assms show ?thesis
      by (simp add: push_bit_eq_mult u unat_mult_noof unat_exp_u64)
  qed
  finally show ?thesis
    using assms by (simp add: m drop_bit_eq_div unat_div_distrib unat_exp_u64)
qed

lemma finite_bit_set [simp]: "finite {n. bit (w :: 'a::len word) n}"
  by (rule finite_subset [of _ "{..<LENGTH('a)}"]) (auto dest: bit_imp_le_length)

section \<open>Lists\<close>

lemma distinct_bounded_perm:
  assumes "distinct s" and "length s = n" and "\<forall>x \<in> set s. x < n"
  shows "set s = {..<n}"
proof (rule card_subset_eq)
  show "set s \<subseteq> {..<n}" using assms(3) by auto
  show "card (set s) = card {..<n}"
    using assms(1,2) by (simp add: distinct_card)
qed simp

lemma takeWhile_prefix:
  assumes "k = length (takeWhile P xs)"
  shows "m < k \<Longrightarrow> P (xs ! m)" "takeWhile P xs = take k xs" "dropWhile P xs = drop k xs"
proof -
  show "takeWhile P xs = take k xs" using assms takeWhile_eq_take by metis
  then show "m < k \<Longrightarrow> P (xs ! m)" using assms by (metis nth_mem set_takeWhileD takeWhile_nth)
  show "dropWhile P xs = drop k xs" using assms dropWhile_eq_drop by metis
qed

section \<open>Error codes\<close>

abbreviation EPERM :: int where "EPERM \<equiv> 1"
abbreviation ENOENT :: int where "ENOENT \<equiv> 2"
abbreviation EAGAIN :: int where "EAGAIN \<equiv> 11"
abbreviation ENOMEM :: int where "ENOMEM \<equiv> 12"
abbreviation EFAULT :: int where "EFAULT \<equiv> 14"
abbreviation EEXIST :: int where "EEXIST \<equiv> 17"
abbreviation EINVAL :: int where "EINVAL \<equiv> 22"
abbreviation ENOSPC :: int where "ENOSPC \<equiv> 28"
abbreviation ERANGE :: int where "ERANGE \<equiv> 34"
abbreviation EPROTO :: int where "EPROTO \<equiv> 71"
abbreviation EMSGSIZE :: int where "EMSGSIZE \<equiv> 90"

section \<open>Wrapping of counts\<close>

text \<open>Where a count or an index is a natural number, its assignment to an unsigned C variable cuts it.\<close>

definition wrap_u32 :: "nat \<Rightarrow> nat" where
  "wrap_u32 x = unat (of_nat x :: u32)"

definition wrap_u64 :: "nat \<Rightarrow> nat" where
  "wrap_u64 x = unat (of_nat x :: u64)"

lemma wrap_u32_id: "x < 2 ^ 32 \<Longrightarrow> wrap_u32 x = x"
  by (simp add: wrap_u32_def unat_of_nat)

lemma wrap_u64_id: "x < 2 ^ 64 \<Longrightarrow> wrap_u64 x = x"
  by (simp add: wrap_u64_def unat_of_nat)

end
