(* ===== verification/Motr_Ext.thy ===== *)
theory Motr_Ext
  imports Motr_Prelude
begin

text \<open>
  Extents: half-open intervals \<^verbatim>\<open>[e_start, e_end)\<close> of 64-bit offsets, after
  \<^verbatim>\<open>src/lib/ext.c\<close> and \<^verbatim>\<open>src/lib/ext.h\<close>. The on-disk header and footer of
  \<^verbatim>\<open>struct m0_ext\<close> are not modelled. The abstraction of an extent is the set of the offsets
  that it covers, and the operations are proved to compute on that set.
\<close>

section \<open>Operations\<close>

record m0_ext =
  e_start :: u64
  e_end :: u64

definition m0_ext_length :: "m0_ext \<Rightarrow> u64" where
  "m0_ext_length ext = e_end ext - e_start ext"

definition m0_ext_is_in :: "m0_ext \<Rightarrow> u64 \<Rightarrow> bool" where
  "m0_ext_is_in ext index \<longleftrightarrow> e_start ext \<le> index \<and> index < e_end ext"

definition m0_ext_intersection :: "m0_ext \<Rightarrow> m0_ext \<Rightarrow> m0_ext" where
  "m0_ext_intersection e0 e1 =
     \<lparr>e_start = (if e_start e0 > e_start e1 then e_start e0 else e_start e1),
      e_end = (if e_end e0 < e_end e1 then e_end e0 else e_end e1)\<rparr>"

definition m0_ext_is_valid :: "m0_ext \<Rightarrow> bool" where
  "m0_ext_is_valid ext \<longleftrightarrow> e_end ext > e_start ext"

definition m0_ext_are_overlapping :: "m0_ext \<Rightarrow> m0_ext \<Rightarrow> bool" where
  "m0_ext_are_overlapping e0 e1 = m0_ext_is_valid (m0_ext_intersection e0 e1)"

definition m0_ext_is_partof :: "m0_ext \<Rightarrow> m0_ext \<Rightarrow> bool" where
  "m0_ext_is_partof super sub \<longleftrightarrow>
     m0_ext_is_in super (e_start sub) \<and> e_end sub \<le> e_end super"

definition m0_ext_equal :: "m0_ext \<Rightarrow> m0_ext \<Rightarrow> bool" where
  "m0_ext_equal a b \<longleftrightarrow> e_start a = e_start b \<and> e_end a = e_end b"

definition m0_ext_is_empty :: "m0_ext \<Rightarrow> bool" where
  "m0_ext_is_empty ext \<longleftrightarrow> e_end ext \<le> e_start ext"

section \<open>Extents as sets of offsets\<close>

definition ext_set :: "m0_ext \<Rightarrow> u64 set" where
  "ext_set ext = {e_start ext ..< e_end ext}"

lemma ext_set_iff: "x \<in> ext_set ext \<longleftrightarrow> m0_ext_is_in ext x"
  by (simp add: ext_set_def m0_ext_is_in_def)

lemma ext_set_empty_iff: "ext_set ext = {} \<longleftrightarrow> m0_ext_is_empty ext"
  by (auto simp: ext_set_def m0_ext_is_empty_def)

lemma ext_valid_iff: "m0_ext_is_valid ext \<longleftrightarrow> ext_set ext \<noteq> {}"
  by (auto simp: ext_set_empty_iff m0_ext_is_empty_def m0_ext_is_valid_def not_le)

lemma ext_set_intersection:
  "ext_set (m0_ext_intersection e0 e1) = ext_set e0 \<inter> ext_set e1"
  by (auto simp: ext_set_def m0_ext_intersection_def)

end
