(* ===== verification/Motr_Bitmap.thy ===== *)
theory Motr_Bitmap
  imports Motr_Prelude
begin

text \<open>
  Bitmaps of \<^verbatim>\<open>src/lib/bitmap.c\<close>: an array of 64-bit words holding \<^verbatim>\<open>b_nr\<close> bits, with the
  allocation result as an argument of the initialisers and \<^term>\<open>None\<close> for a \<^verbatim>\<open>NULL\<close> word
  array. The interface that the rest of the system relies on is the locale \<open>bit_array\<close>; the
  implementation is shown to satisfy it under the invariant that the bits past \<^verbatim>\<open>b_nr\<close> in the
  last word are clear, which \<^verbatim>\<open>m0_bitmap_ffs()\<close> needs because it scans whole words.
\<close>

section \<open>Model\<close>

definition M0_BITMAP_BITS :: nat where
  "M0_BITMAP_BITS = 64"

definition M0_BITMAP_WORDS :: "nat \<Rightarrow> nat" where
  "M0_BITMAP_WORDS nr = drop_bit 6 (nr + (M0_BITMAP_BITS - 1))"

definition M0_BITMAP_SHIFT :: "nat \<Rightarrow> nat" where
  "M0_BITMAP_SHIFT idx = drop_bit 6 idx"

definition M0_BITMAP_MASK :: "nat \<Rightarrow> u64" where
  "M0_BITMAP_MASK idx = push_bit (idx AND (M0_BITMAP_BITS - 1)) 1"

record m0_bitmap =
  b_nr :: nat
  b_words :: "u64 list option"

definition m0_bitmap_init :: "bool \<Rightarrow> m0_bitmap \<Rightarrow> nat \<Rightarrow> int \<times> m0_bitmap" where
  "m0_bitmap_init alloc_ok bm nr =
     (let bm = bm\<lparr>b_words :=
            (if alloc_ok then Some (replicate (M0_BITMAP_WORDS nr) 0) else None)\<rparr>
      in if b_words bm = None then (- ENOMEM, bm)
         else (0, bm\<lparr>b_nr := nr\<rparr>))"

definition m0_bitmap_fini :: "m0_bitmap \<Rightarrow> m0_bitmap option" where
  "m0_bitmap_fini bm = do {
     M0_ASSERT (b_words bm \<noteq> None);
     Some \<lparr>b_nr = 0, b_words = None\<rparr>
   }"

definition m0_bitmap_get :: "m0_bitmap \<Rightarrow> nat \<Rightarrow> bool option" where
  "m0_bitmap_get bm idx = do {
     M0_ASSERT (idx < b_nr bm);
     ws \<leftarrow> b_words bm;
     Some (ws ! M0_BITMAP_SHIFT idx AND M0_BITMAP_MASK idx \<noteq> 0)
   }"

text \<open>\<^verbatim>\<open>__builtin_ffsll()\<close>: one plus the number of the lowest set bit, 0 for the word 0.\<close>

definition ffsll :: "u64 \<Rightarrow> nat" where
  "ffsll w = (case List.find (bit w) [0..<64] of None \<Rightarrow> 0 | Some n \<Rightarrow> n + 1)"

text \<open>
  The scans count in an \<^verbatim>\<open>int\<close> and return one: counting past the type and a position that does not
  fit in it are signed overflows.
\<close>

fun m0_bitmap_ffs_loop :: "nat \<Rightarrow> u64 list \<Rightarrow> int option" where
  "m0_bitmap_ffs_loop i [] = Some (-1)"
| "m0_bitmap_ffs_loop i (w # ws) =
     (let idx = ffsll w
      in if idx > 0 then do {
           M0_ASSERT (int (i * M0_BITMAP_BITS + (idx - 1)) \<le> INT_MAX);
           Some (int (i * M0_BITMAP_BITS + (idx - 1)))
         }
         else do {
           M0_ASSERT (int (i + 1) \<le> INT_MAX);
           m0_bitmap_ffs_loop (i + 1) ws
         })"

definition m0_bitmap_ffs :: "m0_bitmap \<Rightarrow> int option" where
  "m0_bitmap_ffs bm = do {
     ws \<leftarrow> b_words bm;
     m0_bitmap_ffs_loop 0 (take (M0_BITMAP_WORDS (b_nr bm)) ws)
   }"

fun m0_bitmap_ffz_loop :: "m0_bitmap \<Rightarrow> nat list \<Rightarrow> int option" where
  "m0_bitmap_ffz_loop bm [] = Some (-1)"
| "m0_bitmap_ffz_loop bm (idx # is) = do {
     v \<leftarrow> m0_bitmap_get bm idx;
     (if \<not> v then Some (int idx)
      else do {
        M0_ASSERT (int (idx + 1) \<le> INT_MAX);
        m0_bitmap_ffz_loop bm is
      })
   }"

definition m0_bitmap_ffz :: "m0_bitmap \<Rightarrow> int option" where
  "m0_bitmap_ffz bm = m0_bitmap_ffz_loop bm [0..<b_nr bm]"

definition m0_bitmap_set :: "m0_bitmap \<Rightarrow> nat \<Rightarrow> bool \<Rightarrow> m0_bitmap option" where
  "m0_bitmap_set bm idx val = do {
     M0_ASSERT (idx < b_nr bm);
     ws \<leftarrow> b_words bm;
     (let i = M0_BITMAP_SHIFT idx
      in Some (bm\<lparr>b_words := Some
           (if val then ws[i := ws ! i OR M0_BITMAP_MASK idx]
            else ws[i := ws ! i AND NOT (M0_BITMAP_MASK idx)])\<rparr>))
   }"

definition m0_bitmap_reset :: "m0_bitmap \<Rightarrow> m0_bitmap option" where
  "m0_bitmap_reset bm = do {
     ws \<leftarrow> b_words bm;
     (let n = M0_BITMAP_WORDS (b_nr bm)
      in Some (bm\<lparr>b_words := Some (replicate n 0 @ drop n ws)\<rparr>))
   }"

definition m0_bitmap_copy :: "m0_bitmap \<Rightarrow> m0_bitmap \<Rightarrow> m0_bitmap option" where
  "m0_bitmap_copy dst src =
     (let s = M0_BITMAP_WORDS (b_nr src);
          d = M0_BITMAP_WORDS (b_nr dst)
      in do {
        M0_ASSERT (b_nr dst \<ge> b_nr src);
        sw \<leftarrow> b_words src;
        dw \<leftarrow> b_words dst;
        (let dw = take s sw @ drop s dw
         in Some (dst\<lparr>b_words := Some
              (if d > s then take s dw @ replicate (d - s) 0 @ drop d dw else dw)\<rparr>))
      })"

fun m0_bitmap_set_nr_loop :: "m0_bitmap \<Rightarrow> nat list \<Rightarrow> nat \<Rightarrow> nat option" where
  "m0_bitmap_set_nr_loop bm [] nr = Some nr"
| "m0_bitmap_set_nr_loop bm (i # is) nr = do {
     v \<leftarrow> m0_bitmap_get bm i;
     m0_bitmap_set_nr_loop bm is (nr + of_bool v)
   }"

definition m0_bitmap_set_nr :: "m0_bitmap \<Rightarrow> nat option" where
  "m0_bitmap_set_nr bm = m0_bitmap_set_nr_loop bm [0..<b_nr bm] 0"

record m0_bitmap_onwire =
  bo_size :: nat
  bo_words :: "u64 list option"

definition m0_bitmap_onwire_init ::
  "bool \<Rightarrow> m0_bitmap_onwire \<Rightarrow> nat \<Rightarrow> int \<times> m0_bitmap_onwire"
where
  "m0_bitmap_onwire_init alloc_ok ow_map nr =
     (let ow_map = ow_map\<lparr>bo_size := M0_BITMAP_WORDS nr,
            bo_words := (if alloc_ok then Some (replicate (M0_BITMAP_WORDS nr) 0) else None)\<rparr>
      in if bo_words ow_map = None then (- ENOMEM, ow_map) else (0, ow_map))"

definition m0_bitmap_onwire_fini :: "m0_bitmap_onwire \<Rightarrow> m0_bitmap_onwire" where
  "m0_bitmap_onwire_fini ow_map = \<lparr>bo_size = 0, bo_words = None\<rparr>"

definition m0_bitmap_store :: "m0_bitmap \<Rightarrow> m0_bitmap_onwire \<Rightarrow> m0_bitmap_onwire option" where
  "m0_bitmap_store im_map ow_map = do {
     iw \<leftarrow> b_words im_map;
     (let s = M0_BITMAP_WORDS (b_nr im_map) in do {
        M0_ASSERT (s = bo_size ow_map);
        ow \<leftarrow> bo_words ow_map;
        Some (ow_map\<lparr>bo_words := Some (take s iw @ drop s ow)\<rparr>)
      })
   }"

definition m0_bitmap_load :: "m0_bitmap_onwire \<Rightarrow> m0_bitmap \<Rightarrow> m0_bitmap option" where
  "m0_bitmap_load ow_map im_map = do {
     M0_ASSERT (M0_BITMAP_WORDS (b_nr im_map) = bo_size ow_map);
     ow \<leftarrow> bo_words ow_map;
     iw \<leftarrow> b_words im_map;
     Some (im_map\<lparr>b_words := Some (take (bo_size ow_map) ow @ drop (bo_size ow_map) iw)\<rparr>)
   }"

section \<open>The interface of an array of bits\<close>

text \<open>
  What users of a bitmap rely on: reading within bounds succeeds, writing one bit changes that
  bit only, and writing keeps the invariant. The lemmas below hold of every implementation.
\<close>

locale bit_array =
  fixes get :: "'m \<Rightarrow> nat \<Rightarrow> bool option"
    and put :: "'m \<Rightarrow> nat \<Rightarrow> bool \<Rightarrow> 'm option"
    and bits_nr :: "'m \<Rightarrow> nat"
    and invar :: "'m \<Rightarrow> bool"
  assumes get_defined: "invar m \<Longrightarrow> i < bits_nr m \<Longrightarrow> \<exists>v. get m i = Some v"
    and get_out: "\<not> i < bits_nr m \<Longrightarrow> get m i = None"
    and put_defined: "invar m \<Longrightarrow> i < bits_nr m \<Longrightarrow> \<exists>m'. put m i v = Some m'"
    and put_out: "\<not> i < bits_nr m \<Longrightarrow> put m i v = None"
    and put_invar: "invar m \<Longrightarrow> put m i v = Some m' \<Longrightarrow> invar m' \<and> bits_nr m' = bits_nr m"
    and get_put: "invar m \<Longrightarrow> put m i v = Some m' \<Longrightarrow>
                    get m' j = (if j = i then Some v else get m j)"
begin

definition bits :: "'m \<Rightarrow> nat set" where
  "bits m = {i. get m i = Some True}"

fun put_all :: "'m \<Rightarrow> (nat \<times> bool) list \<Rightarrow> 'm option" where
  "put_all m [] = Some m"
| "put_all m ((i, v) # ivs) = do { m \<leftarrow> put m i v; put_all m ivs }"

lemma bits_bounded: "bits m \<subseteq> {..<bits_nr m}"
  using get_out by (fastforce simp: bits_def)

lemma finite_bits: "finite (bits m)"
  using bits_bounded by (rule finite_subset) simp

lemma bits_put:
  assumes "invar m" and "put m i v = Some m'"
  shows "bits m' = (if v then insert i (bits m) else bits m - {i})"
  using get_put [OF assms] by (auto simp: bits_def)

lemma put_all_invar:
  assumes "invar m" and "put_all m ivs = Some m'"
  shows "invar m' \<and> bits_nr m' = bits_nr m"
  using assms
  by (induction m ivs rule: put_all.induct) (auto simp: bind_eq_Some_conv dest: put_invar)

lemma put_all_defined:
  assumes "invar m" and "\<forall>(i, v) \<in> set ivs. i < bits_nr m"
  shows "\<exists>m'. put_all m ivs = Some m'"
  using assms
proof (induction m ivs rule: put_all.induct)
  case (2 m i v ivs)
  have "i < bits_nr m" using 2(3) by simp
  then obtain m1 where m1: "put m i v = Some m1" using put_defined [OF 2(2)] by blast
  then have "invar m1 \<and> bits_nr m1 = bits_nr m" by (rule put_invar [OF 2(2)])
  then have "\<exists>m'. put_all m1 ivs = Some m'" using 2(1) [OF m1] 2(3) by simp
  then show ?case by (simp add: m1)
qed simp

text \<open>A sequence of writes is the same sequence of updates of a map from indices to values.\<close>

lemma get_put_all:
  assumes "invar m" and "put_all m ivs = Some m'"
  shows "get m' j = (case map_of (rev ivs) j of None \<Rightarrow> get m j | Some v \<Rightarrow> Some v)"
  using assms
proof (induction m ivs rule: put_all.induct)
  case (2 m i v ivs)
  then obtain m1 where m1: "put m i v = Some m1" "put_all m1 ivs = Some m'"
    by (auto simp: bind_eq_Some_conv)
  then have inv: "invar m1" using put_invar [OF 2(2)] by blast
  show ?case
    using 2(1) [OF m1(1) inv m1(2)] get_put [OF 2(2) m1(1), of j]
    by (auto simp: map_add_def split: option.splits)
qed simp

end

section \<open>Words and bits\<close>

lemma BITMAP_SHIFT_eq: "M0_BITMAP_SHIFT idx = idx div 64"
  by (simp add: M0_BITMAP_SHIFT_def drop_bit_eq_div)

lemma BITMAP_WORDS_eq: "M0_BITMAP_WORDS nr = (nr + 63) div 64"
  by (simp add: M0_BITMAP_WORDS_def M0_BITMAP_BITS_def drop_bit_eq_div)

lemma BITMAP_SHIFT_less: "idx < nr \<Longrightarrow> M0_BITMAP_SHIFT idx < M0_BITMAP_WORDS nr"
  unfolding BITMAP_SHIFT_eq BITMAP_WORDS_eq by linarith

lemma BITMAP_WORDS_mono: "m \<le> n \<Longrightarrow> M0_BITMAP_WORDS m \<le> M0_BITMAP_WORDS n"
  unfolding BITMAP_WORDS_eq by (simp add: div_le_mono)

lemma and_63: "idx AND 63 = idx mod (64 :: nat)"
proof -
  have "idx AND mask 6 = take_bit 6 idx" by (simp only: take_bit_eq_mask)
  then show ?thesis by (simp add: mask_eq_exp_minus_1 take_bit_eq_mod)
qed

lemma BITMAP_MASK_eq: "M0_BITMAP_MASK idx = push_bit (idx mod 64) 1"
  by (simp add: M0_BITMAP_MASK_def M0_BITMAP_BITS_def and_63)

lemma bit_BITMAP_MASK: "bit (M0_BITMAP_MASK idx) n \<longleftrightarrow> n = idx mod 64"
  by (auto simp: BITMAP_MASK_eq bit_simps)

lemma and_BITMAP_MASK: "w AND M0_BITMAP_MASK idx \<noteq> 0 \<longleftrightarrow> bit w (idx mod 64)"
proof
  assume "w AND M0_BITMAP_MASK idx \<noteq> 0"
  then obtain n where "bit (w AND M0_BITMAP_MASK idx) n"
    using bit_word_eqI [of "w AND M0_BITMAP_MASK idx" 0] by auto
  then show "bit w (idx mod 64)" by (auto simp: bit_and_iff bit_BITMAP_MASK)
next
  assume "bit w (idx mod 64)"
  then have "bit (w AND M0_BITMAP_MASK idx) (idx mod 64)"
    by (simp add: bit_and_iff bit_BITMAP_MASK)
  then show "w AND M0_BITMAP_MASK idx \<noteq> 0" by auto
qed

text \<open>The bits of an array of words, numbered from the lowest bit of the first word.\<close>

definition words_bit :: "u64 list \<Rightarrow> nat \<Rightarrow> bool" where
  "words_bit ws i \<longleftrightarrow> i < 64 * length ws \<and> bit (ws ! (i div 64)) (i mod 64)"

definition bitmap_wf :: "m0_bitmap \<Rightarrow> bool" where
  "bitmap_wf bm \<longleftrightarrow>
     (\<exists>ws. b_words bm = Some ws \<and> length ws = M0_BITMAP_WORDS (b_nr bm) \<and>
           (\<forall>i \<ge> b_nr bm. \<not> words_bit ws i))"

lemma bitmap_wfE:
  assumes "bitmap_wf bm"
  obtains ws where "b_words bm = Some ws" "length ws = M0_BITMAP_WORDS (b_nr bm)"
    "\<And>i. b_nr bm \<le> i \<Longrightarrow> \<not> words_bit ws i"
  using assms unfolding bitmap_wf_def by blast

lemma index_in_words: "i < nr \<Longrightarrow> i < 64 * M0_BITMAP_WORDS nr"
  unfolding BITMAP_WORDS_eq by linarith

lemma bitmap_get_words:
  assumes "b_words bm = Some ws" "length ws = M0_BITMAP_WORDS (b_nr bm)"
  shows "m0_bitmap_get bm i = (if i < b_nr bm then Some (words_bit ws i) else None)"
  using assms index_in_words [of i "b_nr bm"]
  by (simp add: m0_bitmap_get_def words_bit_def and_BITMAP_MASK BITMAP_SHIFT_eq)

lemma words_bit_update:
  assumes "i < 64 * length ws"
  shows "words_bit (ws[i div 64 := w]) j \<longleftrightarrow>
           (if j div 64 = i div 64 then bit w (j mod 64) else words_bit ws j)"
proof -
  have "i div 64 < length ws" using assms by (simp add: less_mult_imp_div_less mult.commute)
  moreover have "j div 64 = i div 64 \<Longrightarrow> j < 64 * length ws"
    using calculation by (metis div_less_iff_less_mult mult.commute zero_less_numeral)
  ultimately show ?thesis by (auto simp: words_bit_def)
qed

lemma words_bit_set:
  assumes "i < 64 * length ws"
  shows "words_bit (ws[i div 64 := (if v then ws ! (i div 64) OR M0_BITMAP_MASK i
                                    else ws ! (i div 64) AND NOT (M0_BITMAP_MASK i))]) j \<longleftrightarrow>
           (if j = i then v else words_bit ws j)"
proof (cases "j div 64 = i div 64")
  case True
  then have eq: "j = i \<longleftrightarrow> j mod 64 = i mod 64" by (metis div_mult_mod_eq)
  have "i div 64 < length ws" using assms by (simp add: less_mult_imp_div_less mult.commute)
  then have j: "j < 64 * length ws"
    using True by (metis div_less_iff_less_mult mult.commute zero_less_numeral)
  have "j mod 64 < 64" by simp
  then show ?thesis
    unfolding words_bit_update [OF assms]
    using True eq j by (auto simp: words_bit_def bit_or_iff bit_and_iff bit_not_iff bit_BITMAP_MASK)
next
  case False
  then show ?thesis unfolding words_bit_update [OF assms] by auto
qed

lemma bitmap_set_words:
  assumes "b_words bm = Some ws" "length ws = M0_BITMAP_WORDS (b_nr bm)" "i < b_nr bm"
  obtains ws' where "m0_bitmap_set bm i v = Some (bm\<lparr>b_words := Some ws'\<rparr>)"
    "length ws' = length ws" "\<And>j. words_bit ws' j \<longleftrightarrow> (if j = i then v else words_bit ws j)"
proof
  let ?ws = "ws[i div 64 := (if v then ws ! (i div 64) OR M0_BITMAP_MASK i
                             else ws ! (i div 64) AND NOT (M0_BITMAP_MASK i))]"
  show "m0_bitmap_set bm i v = Some (bm\<lparr>b_words := Some ?ws\<rparr>)"
    using assms by (simp add: m0_bitmap_set_def BITMAP_SHIFT_eq Let_def)
  show "length ?ws = length ws" by simp
  show "words_bit ?ws j \<longleftrightarrow> (if j = i then v else words_bit ws j)" for j
    by (rule words_bit_set) (simp add: assms(2) index_in_words assms(3))
qed

lemma bitmap_set_wf:
  assumes "bitmap_wf bm" "m0_bitmap_set bm i v = Some bm'"
  shows "bitmap_wf bm' \<and> b_nr bm' = b_nr bm"
proof -
  obtain ws where ws: "b_words bm = Some ws" "length ws = M0_BITMAP_WORDS (b_nr bm)"
    "\<And>i. b_nr bm \<le> i \<Longrightarrow> \<not> words_bit ws i"
    using assms(1) unfolding bitmap_wf_def by metis
  have i: "i < b_nr bm" using assms(2) by (simp add: m0_bitmap_set_def)
  obtain ws' where "m0_bitmap_set bm i v = Some (bm\<lparr>b_words := Some ws'\<rparr>)"
    "length ws' = length ws" "\<And>j. words_bit ws' j \<longleftrightarrow> (if j = i then v else words_bit ws j)"
    using bitmap_set_words [OF ws(1,2) i] by metis
  then show ?thesis using assms(2) ws i by (auto simp: bitmap_wf_def)
qed

interpretation bm: bit_array m0_bitmap_get m0_bitmap_set b_nr bitmap_wf
proof (unfold_locales, goal_cases)
  case (1 m i)
  then show ?case by (auto elim!: bitmap_wfE simp: bitmap_get_words)
next
  case (2 i m)
  then show ?case by (simp add: m0_bitmap_get_def)
next
  case (3 m i v)
  then show ?case by (auto simp: bitmap_wf_def m0_bitmap_set_def Let_def)
next
  case (4 i m v)
  then show ?case by (simp add: m0_bitmap_set_def)
next
  case (5 m i v m')
  then show ?case by (rule bitmap_set_wf)
next
  case (6 m i v m' j)
  obtain ws where ws: "b_words m = Some ws" "length ws = M0_BITMAP_WORDS (b_nr m)"
    using 6(1) by (rule bitmap_wfE)
  have i: "i < b_nr m" using 6(2) by (simp add: m0_bitmap_set_def)
  obtain ws' where "m0_bitmap_set m i v = Some (m\<lparr>b_words := Some ws'\<rparr>)"
    "length ws' = length ws" "\<And>j. words_bit ws' j \<longleftrightarrow> (if j = i then v else words_bit ws j)"
    using bitmap_set_words [OF ws i] by metis
  then show ?case using 6(2) ws i by (auto simp: bitmap_get_words)
qed

section \<open>Searching and counting\<close>

lemma bits_bitmap: "bm.bits m = {i. m0_bitmap_get m i = Some True}"
  by (rule bm.bits_def)

lemma bits_words:
  assumes "b_words m = Some ws" "length ws = M0_BITMAP_WORDS (b_nr m)"
    "\<And>i. b_nr m \<le> i \<Longrightarrow> \<not> words_bit ws i"
  shows "bm.bits m = {i. words_bit ws i}"
proof -
  have "words_bit ws i \<Longrightarrow> i < b_nr m" for i using assms(3) [of i] by (meson not_le)
  then show ?thesis by (auto simp: bits_bitmap bitmap_get_words [OF assms(1,2)])
qed

lemma ffsll_0: "ffsll w = 0 \<longleftrightarrow> w = 0"
proof
  assume "ffsll w = 0"
  then have "\<forall>n < 64. \<not> bit w n" by (auto simp: ffsll_def find_None_iff split: option.splits)
  then show "w = 0" by (intro bit_word_eqI) simp
next
  assume "w = 0"
  then have "List.find (bit w) [0..<64] = None" by (subst find_None_iff) simp
  then show "ffsll w = 0" by (simp add: ffsll_def)
qed

lemma ffsll_Suc:
  assumes "ffsll w = Suc n"
  shows "n < 64 \<and> bit w n \<and> (\<forall>m < n. \<not> bit w m)"
  using assms by (auto simp: ffsll_def find_Some_iff split: option.splits)

lemma words_bit_Cons:
  "words_bit (w # ws) i \<longleftrightarrow> (if i < 64 then bit w i else words_bit ws (i - 64))"
proof (cases "i < 64")
  case False
  then have "i div 64 = Suc ((i - 64) div 64)" "i mod 64 = (i - 64) mod 64"
    by (simp_all add: le_div_geq le_mod_geq)
  then show ?thesis using False by (auto simp: words_bit_def)
qed (simp add: words_bit_def)

text \<open>The scan finds the least set bit of the words, offset by the words already passed.\<close>

lemma ffs_loop_correct:
  "64 * (k + length ws) \<le> 2 ^ 31 \<Longrightarrow> m0_bitmap_ffs_loop k ws =
     Some (if \<exists>i. words_bit ws i then int (64 * k + (LEAST i. words_bit ws i)) else - 1)"
proof (induction k ws rule: m0_bitmap_ffs_loop.induct)
  case (1 k)
  then show ?case by (simp add: words_bit_def)
next
  case (2 k w ws)
  show ?case
  proof (cases "ffsll w")
    case 0
    then have w: "w = 0" by (simp add: ffsll_0)
    then have eq: "words_bit (w # ws) i \<longleftrightarrow> 64 \<le> i \<and> words_bit ws (i - 64)" for i
      by (simp add: words_bit_Cons)
    have ex: "(\<exists>i. words_bit (w # ws) i) \<longleftrightarrow> (\<exists>i. words_bit ws i)"
      unfolding eq by (metis add_diff_cancel_right' le_add2)
    have "(LEAST i. words_bit (w # ws) i) = 64 + (LEAST i. words_bit ws i)" if "\<exists>i. words_bit ws i"
    proof (rule Least_equality)
      show "words_bit (w # ws) (64 + (LEAST i. words_bit ws i))"
        using LeastI_ex [OF that] by (simp add: eq)
      show "64 + (LEAST i. words_bit ws i) \<le> y" if "words_bit (w # ws) y" for y
        using that Least_le [of "words_bit ws" "y - 64"] unfolding eq by auto
    qed
    then show ?thesis
      using 2(1) [OF refl, of "()"] 2(2) 0 ex by (simp add: M0_BITMAP_BITS_def Let_def bind_M0_ASSERT_True)
  next
    case (Suc n)
    then have n: "n < 64" "bit w n" "\<forall>m < n. \<not> bit w m" using ffsll_Suc by blast+
    have "(LEAST i. words_bit (w # ws) i) = n"
    proof (rule Least_equality)
      show "words_bit (w # ws) n" using n by (simp add: words_bit_Cons)
      show "n \<le> y" if "words_bit (w # ws) y" for y
        using that n by (auto simp: words_bit_Cons split: if_splits) (meson not_le)
    qed
    moreover have "words_bit (w # ws) n" using n by (simp add: words_bit_Cons)
    moreover have "int (k * 64 + n) \<le> INT_MAX" using n(1) 2(2) by simp
    ultimately show ?thesis
      using Suc by (auto simp: M0_BITMAP_BITS_def Let_def bind_M0_ASSERT_True)
  qed
qed

lemma bitmap_ffs_bits:
  assumes "bitmap_wf m" "int (b_nr m) \<le> INT_MAX"
  shows "m0_bitmap_ffs m =
           Some (if bm.bits m = {} then - 1 else int (LEAST i. i \<in> bm.bits m))"
proof -
  obtain ws where ws: "b_words m = Some ws" "length ws = M0_BITMAP_WORDS (b_nr m)"
    "\<And>i. b_nr m \<le> i \<Longrightarrow> \<not> words_bit ws i"
    using assms(1) unfolding bitmap_wf_def by metis
  have "bm.bits m = {i. words_bit ws i}" using ws by (rule bits_words)
  moreover have "64 * (0 + length ws) \<le> 2 ^ 31"
    using assms(2) ws(2) by (simp add: BITMAP_WORDS_eq)
  ultimately show ?thesis using ws by (simp add: m0_bitmap_ffs_def ffs_loop_correct)
qed

lemma ffz_loop_correct:
  assumes "bitmap_wf m" "k \<le> b_nr m" "int (b_nr m) \<le> INT_MAX"
  shows "m0_bitmap_ffz_loop m [k..<b_nr m] =
           Some (if {k..<b_nr m} \<subseteq> bm.bits m then - 1
                 else int (LEAST i. k \<le> i \<and> i < b_nr m \<and> i \<notin> bm.bits m))"
  using assms(2)
proof (induction k rule: inc_induct)
  case base
  then show ?case by simp
next
  case (step k)
  obtain v where v: "m0_bitmap_get m k = Some v"
    using bm.get_defined [OF assms(1), of k] step.hyps by auto
  have upt: "[k..<b_nr m] = k # [Suc k..<b_nr m]" using step.hyps by (simp add: upt_conv_Cons)
  show ?case
  proof (cases v)
    case True
    then have k: "k \<in> bm.bits m" using v by (simp add: bits_bitmap)
    have "{k..<b_nr m} = insert k {Suc k..<b_nr m}" using step.hyps by auto
    moreover have "(k \<le> i \<and> i < b_nr m \<and> i \<notin> bm.bits m) \<longleftrightarrow>
        (Suc k \<le> i \<and> i < b_nr m \<and> i \<notin> bm.bits m)" for i
      using k by (auto simp: Suc_le_eq order_less_le)
    ultimately show ?thesis using step.IH True v k step.hyps assms(3) by (simp add: upt bind_M0_ASSERT_True)
  next
    case False
    then have k: "k \<notin> bm.bits m" using v by (simp add: bits_bitmap)
    have "(LEAST i. k \<le> i \<and> i < b_nr m \<and> i \<notin> bm.bits m) = k"
      using k step.hyps by (intro Least_equality) auto
    moreover have "\<not> {k..<b_nr m} \<subseteq> bm.bits m" using k step.hyps by auto
    ultimately show ?thesis using False v by (simp add: upt)
  qed
qed

lemma set_nr_loop_correct:
  assumes "bitmap_wf m" "set is \<subseteq> {..<b_nr m}" "distinct is"
  shows "m0_bitmap_set_nr_loop m is n = Some (n + card (set is \<inter> bm.bits m))"
  using assms(2,3)
proof (induction "is" arbitrary: n)
  case (Cons i "is")
  then obtain v where v: "m0_bitmap_get m i = Some v"
    using bm.get_defined [OF assms(1), of i] by auto
  have "set (i # is) \<inter> bm.bits m = (if v then insert i (set is \<inter> bm.bits m) else set is \<inter> bm.bits m)"
    using v by (auto simp: bits_bitmap)
  then show ?case using Cons v by simp
qed simp

section \<open>Whole-map operations\<close>

lemma bitmap_init_wf:
  assumes "m0_bitmap_init alloc_ok m nr = (0, m')"
  shows "bitmap_wf m' \<and> b_nr m' = nr \<and> bm.bits m' = {}"
proof -
  have m': "m' = \<lparr>b_nr = nr, b_words = Some (replicate (M0_BITMAP_WORDS nr) 0)\<rparr>"
    using assms by (cases m) (auto simp: m0_bitmap_init_def Let_def split: if_splits)
  have "\<not> words_bit (replicate n 0) i" for n i
    by (simp add: words_bit_def less_mult_imp_div_less mult.commute)
  then show ?thesis
    by (auto simp: m' bitmap_wf_def bits_bitmap bitmap_get_words)
qed

lemma bitmap_reset_wf:
  assumes "bitmap_wf m"
  shows "\<exists>m'. m0_bitmap_reset m = Some m' \<and> bitmap_wf m' \<and> b_nr m' = b_nr m \<and> bm.bits m' = {}"
proof -
  have nz: "\<not> words_bit (replicate n 0) i" for n i
    by (simp add: words_bit_def less_mult_imp_div_less mult.commute)
  obtain ws where "b_words m = Some ws" "length ws = M0_BITMAP_WORDS (b_nr m)"
    using assms by (rule bitmap_wfE)
  then show ?thesis
    using nz by (auto simp: m0_bitmap_reset_def bitmap_wf_def bits_bitmap bitmap_get_words)
qed

lemma bitmap_copy_correct:
  assumes "bitmap_wf dst" "bitmap_wf src" "b_nr src \<le> b_nr dst"
  shows "\<exists>m'. m0_bitmap_copy dst src = Some m' \<and> bitmap_wf m' \<and> b_nr m' = b_nr dst \<and>
              bm.bits m' = bm.bits src"
proof -
  obtain dw where dw: "b_words dst = Some dw" "length dw = M0_BITMAP_WORDS (b_nr dst)"
    using assms(1) by (rule bitmap_wfE)
  obtain sw where sw: "b_words src = Some sw" "length sw = M0_BITMAP_WORDS (b_nr src)"
    "\<And>i. b_nr src \<le> i \<Longrightarrow> \<not> words_bit sw i"
    using assms(2) unfolding bitmap_wf_def by metis
  let ?s = "M0_BITMAP_WORDS (b_nr src)" and ?d = "M0_BITMAP_WORDS (b_nr dst)"
  define ws where "ws = sw @ replicate (?d - ?s) 0"
  have le: "?s \<le> ?d" using assms(3) by (rule BITMAP_WORDS_mono)
  have copy: "m0_bitmap_copy dst src = Some (dst\<lparr>b_words := Some ws\<rparr>)"
    using le dw sw assms(3) by (auto simp: m0_bitmap_copy_def Let_def ws_def)
  have len: "length ws = ?d" using sw(2) le by (simp add: ws_def)
  have bits: "words_bit ws i \<longleftrightarrow> words_bit sw i" for i
  proof (cases "i < 64 * ?s")
    case True
    then show ?thesis
      using le sw(2) by (auto simp: words_bit_def ws_def nth_append less_mult_imp_div_less mult.commute)
  next
    case False
    then have "\<not> i div 64 < ?s" by (simp add: div_less_iff_less_mult mult.commute)
    then show ?thesis
      using False sw(2)
      by (auto simp: words_bit_def ws_def nth_append less_mult_imp_div_less mult.commute
            nth_replicate div_less_iff_less_mult diff_less_mono)
  qed
  have m': "bitmap_wf (dst\<lparr>b_words := Some ws\<rparr>)"
    using len bits sw(3) assms(3) by (simp add: bitmap_wf_def)
  have "bm.bits (dst\<lparr>b_words := Some ws\<rparr>) = {i. words_bit ws i}"
    using len bits sw(3) assms(3) by (intro bits_words) simp_all
  moreover have "bm.bits src = {i. words_bit sw i}" using sw by (rule bits_words)
  ultimately show ?thesis using copy m' bits by auto
qed

lemma bitmap_store_load:
  assumes "bitmap_wf im" "bo_words ow = Some ow_ws" "length ow_ws = bo_size ow"
    and "M0_BITMAP_WORDS (b_nr im) = bo_size ow"
    and "bitmap_wf im2" "b_nr im2 = b_nr im"
  shows "\<exists>ow'. m0_bitmap_store im ow = Some ow' \<and> m0_bitmap_load ow' im2 = Some im"
proof -
  obtain iw where iw: "b_words im = Some iw" "length iw = M0_BITMAP_WORDS (b_nr im)"
    using assms(1) by (rule bitmap_wfE)
  obtain iw2 where iw2: "b_words im2 = Some iw2" "length iw2 = M0_BITMAP_WORDS (b_nr im2)"
    using assms(5) by (rule bitmap_wfE)
  show ?thesis
    using iw iw2 assms by (cases im; cases im2) (auto simp: m0_bitmap_store_def m0_bitmap_load_def Let_def)
qed

section \<open>Properties\<close>

text \<open>
  C30. Writing a bit of a well-formed bitmap changes that bit and no other, and keeps the bitmap
  well-formed, so its unused high bits stay clear.
\<close>

theorem bitmap_get_set:
  assumes "bitmap_wf m" and "m0_bitmap_set m i v = Some m'"
  shows "bitmap_wf m' \<and> b_nr m' = b_nr m \<and>
         (\<forall>j. m0_bitmap_get m' j = (if j = i then Some v else m0_bitmap_get m j))"
  using bm.put_invar [OF assms] bm.get_put [OF assms] by simp

theorem bitmap_get_set_witness:
  "m0_bitmap_set \<lparr>b_nr = 3, b_words = Some [0]\<rparr> 2 True = Some \<lparr>b_nr = 3, b_words = Some [4]\<rparr> \<and>
   bitmap_wf \<lparr>b_nr = 3, b_words = Some [4]\<rparr>"
proof -
  have h: "m0_bitmap_set \<lparr>b_nr = 3, b_words = Some [0]\<rparr> 2 True = Some \<lparr>b_nr = 3, b_words = Some [4]\<rparr>"
    by (simp add: m0_bitmap_set_def BITMAP_SHIFT_eq BITMAP_MASK_eq)
  have "bitmap_wf \<lparr>b_nr = 3, b_words = Some [0]\<rparr>"
    by (simp add: bitmap_wf_def BITMAP_WORDS_eq words_bit_def)
  from bitmap_get_set [OF this h] h show ?thesis by simp
qed

text \<open>
  C31. On a well-formed bitmap whose number of bits fits in an \<^verbatim>\<open>int\<close>, the scan by words \<^verbatim>\<open>m0_bitmap_ffs()\<close>
  finds the least set bit below \<^verbatim>\<open>b_nr\<close>, the scan by bits \<^verbatim>\<open>m0_bitmap_ffz()\<close> the least clear one, each
  returning -1 when there is none, and the loop over the bits \<^verbatim>\<open>m0_bitmap_set_nr()\<close> counts the set
  ones. Neither the counter nor the result of a scan overflows.
\<close>

theorem bitmap_scans:
  assumes "bitmap_wf m" and "int (b_nr m) \<le> INT_MAX"
  defines "on \<equiv> {i. m0_bitmap_get m i = Some True}"
  shows "m0_bitmap_ffs m = Some (if on = {} then - 1 else int (LEAST i. i \<in> on)) \<and>
         m0_bitmap_ffz m = Some (if {..<b_nr m} \<subseteq> on then - 1
                                 else int (LEAST i. i < b_nr m \<and> i \<notin> on)) \<and>
         m0_bitmap_set_nr m = Some (card on)"
proof -
  have on: "on = bm.bits m" by (simp add: on_def bits_bitmap)
  have "set [0..<b_nr m] \<inter> bm.bits m = bm.bits m" using bm.bits_bounded [of m] by auto
  then have "m0_bitmap_set_nr m = Some (card on)"
    using set_nr_loop_correct [OF assms(1), of "[0..<b_nr m]" 0]
    by (simp add: m0_bitmap_set_nr_def on atLeast0LessThan lessThan_def)
  moreover have "m0_bitmap_ffz m = Some (if {..<b_nr m} \<subseteq> on then - 1
      else int (LEAST i. i < b_nr m \<and> i \<notin> on))"
    using ffz_loop_correct [OF assms(1) _ assms(2), of 0]
    by (simp add: m0_bitmap_ffz_def on atLeast0LessThan)
  ultimately show ?thesis using bitmap_ffs_bits [OF assms(1,2)] by (simp add: on)
qed

theorem bitmap_scans_witness:
  "bitmap_wf \<lparr>b_nr = 70, b_words = Some [0, 2]\<rparr> \<and>
   m0_bitmap_set_nr \<lparr>b_nr = 70, b_words = Some [0, 2]\<rparr> =
     Some (card {i. m0_bitmap_get \<lparr>b_nr = 70, b_words = Some [0, 2]\<rparr> i = Some True}) \<and>
   m0_bitmap_ffs \<lparr>b_nr = 70, b_words = Some [0, 2]\<rparr> = Some 65"
proof -
  have wf: "bitmap_wf \<lparr>b_nr = 70, b_words = Some [0, 2]\<rparr>"
  proof -
    have "\<not> words_bit [0, 2] i" if "70 \<le> i" for i
      using that by (auto simp: words_bit_Cons bit_simps) (simp add: words_bit_def)
    then show ?thesis by (simp add: bitmap_wf_def BITMAP_WORDS_eq)
  qed
  moreover have "m0_bitmap_ffs \<lparr>b_nr = 70, b_words = Some [0, 2]\<rparr> = Some 65"
    by code_simp
  ultimately show ?thesis using bitmap_scans [OF wf] by simp
qed

text \<open>
  C32. Storing a bitmap in its on-wire form and loading that into any bitmap of the same size
  gives the original bitmap back.
\<close>

theorem bitmap_onwire_roundtrip:
  assumes "bitmap_wf im" and "m0_bitmap_onwire_init True ow0 (b_nr im) = (0, ow)"
    and "m0_bitmap_init True im0 (b_nr im) = (0, im2)"
  shows "\<exists>ow'. m0_bitmap_store im ow = Some ow' \<and> m0_bitmap_load ow' im2 = Some im"
proof -
  have "ow = ow0\<lparr>bo_size := M0_BITMAP_WORDS (b_nr im),
      bo_words := Some (replicate (M0_BITMAP_WORDS (b_nr im)) 0)\<rparr>"
    using assms(2) by (simp add: m0_bitmap_onwire_init_def)
  then have ow: "bo_words ow = Some (replicate (M0_BITMAP_WORDS (b_nr im)) 0)"
    "bo_size ow = M0_BITMAP_WORDS (b_nr im)" by simp_all
  have im2: "bitmap_wf im2" "b_nr im2 = b_nr im"
    using bitmap_init_wf [OF assms(3)] by simp_all
  show ?thesis
    by (rule bitmap_store_load [OF assms(1) ow(1) _ _ im2]) (simp_all add: ow)
qed

theorem bitmap_onwire_roundtrip_witness:
  "\<exists>ow'. m0_bitmap_store \<lparr>b_nr = 3, b_words = Some [1]\<rparr> \<lparr>bo_size = 1, bo_words = Some [0]\<rparr> = Some ow' \<and>
         m0_bitmap_load ow' \<lparr>b_nr = 3, b_words = Some [0]\<rparr> = Some \<lparr>b_nr = 3, b_words = Some [1]\<rparr>"
proof -
  have wf: "bitmap_wf \<lparr>b_nr = 3, b_words = Some [1]\<rparr>"
    by (auto simp: bitmap_wf_def BITMAP_WORDS_eq words_bit_def bit_1_iff)
  have ow: "m0_bitmap_onwire_init True \<lparr>bo_size = 0, bo_words = None\<rparr> 3 =
      (0, \<lparr>bo_size = 1, bo_words = Some [0]\<rparr>)"
    by (simp add: m0_bitmap_onwire_init_def BITMAP_WORDS_eq)
  have im: "m0_bitmap_init True \<lparr>b_nr = 0, b_words = None\<rparr> 3 = (0, \<lparr>b_nr = 3, b_words = Some [0]\<rparr>)"
    by (simp add: m0_bitmap_init_def BITMAP_WORDS_eq)
  show ?thesis using bitmap_onwire_roundtrip [OF wf] ow im by simp
qed

end
