(* ===== verification/Motr_Misc.thy ===== *)
theory Motr_Misc
  imports Motr_Prelude "HOL-Library.Multiset"
begin

text \<open>
  The utility library: 128-bit integers, pseudo-random numbers, rolling-counter comparison,
  power-of-two rounding, permutations by Lehmer code, exchange sort, bit buffers and majority
  vote, after \<^verbatim>\<open>src/lib/misc.c\<close>, \<^verbatim>\<open>src/lib/misc.h\<close>, \<^verbatim>\<open>src/lib/arith.h\<close>,
  \<^verbatim>\<open>src/lib/buf.c\<close> and \<^verbatim>\<open>m0_hash()\<close> of \<^verbatim>\<open>src/lib/hash.c\<close>.
\<close>

section \<open>Arithmetic helpers\<close>

definition M0_3WAY :: "u64 \<Rightarrow> u64 \<Rightarrow> int" where
  "M0_3WAY v0 v1 = (if v0 < v1 then -1 else if v0 \<noteq> v1 then 1 else 0)"

record m0_uint128 =
  u_hi :: u64
  u_lo :: u64

definition m0_uint128_cmp :: "m0_uint128 \<Rightarrow> m0_uint128 \<Rightarrow> int" where
  "m0_uint128_cmp u0 u1 =
     (let c = M0_3WAY (u_hi u0) (u_hi u1)
      in if c \<noteq> 0 then c else M0_3WAY (u_lo u0) (u_lo u1))"

definition m0_uint128_eq :: "m0_uint128 \<Rightarrow> m0_uint128 \<Rightarrow> bool" where
  "m0_uint128_eq u0 u1 \<longleftrightarrow> m0_uint128_cmp u0 u1 = 0"

definition m0_uint128_add :: "m0_uint128 \<Rightarrow> m0_uint128 \<Rightarrow> m0_uint128" where
  "m0_uint128_add a b =
     (let lo = u_lo a + u_lo b
      in \<lparr>u_hi = u_hi a + u_hi b + (if lo < u_lo a then 1 else 0), u_lo = lo\<rparr>)"

definition UINT32_MAX :: u64 where
  "UINT32_MAX = 0xFFFFFFFF"

definition m0_uint128_mul64 :: "u64 \<Rightarrow> u64 \<Rightarrow> m0_uint128" where
  "m0_uint128_mul64 a b =
     (let a_lo = a AND UINT32_MAX;
          a_hi = drop_bit 32 a;
          b_lo = b AND UINT32_MAX;
          b_hi = drop_bit 32 b;
          res = \<lparr>u_hi = a_hi * b_hi, u_lo = a_lo * b_lo\<rparr>;
          c = a_lo * b_hi;
          res = m0_uint128_add res
                  \<lparr>u_hi = drop_bit 32 c, u_lo = push_bit 32 (c AND UINT32_MAX)\<rparr>;
          c = a_hi * b_lo
      in m0_uint128_add res
           \<lparr>u_hi = drop_bit 32 c, u_lo = push_bit 32 (c AND UINT32_MAX)\<rparr>)"

text \<open>The generators return the result and the new value of \<^verbatim>\<open>*prev\<close>.\<close>

definition m0_rnd64 :: "u64 \<Rightarrow> u64 \<times> u64" where
  "m0_rnd64 prev = (let v = prev * 6364136223846793005 + 1442695040888963407 in (v, v))"

definition m0_rnd :: "u64 \<Rightarrow> u64 \<Rightarrow> (u64 \<times> u64) option" where
  "m0_rnd mx prev =
     (let result = prev * 0x5DEECE66D + 0xB
      in do {
        M0_ASSERT (drop_bit 48 mx = 0);
        Some (drop_bit 16 result * mx div drop_bit 16 (NOT 0), result)
      })"

function m0_gcd64 :: "u64 \<Rightarrow> u64 \<Rightarrow> u64" where
  "m0_gcd64 p q = (if q \<noteq> 0 then m0_gcd64 q (p mod q) else p)"
  by pat_completeness auto
termination
  by (relation "measure (\<lambda>(p, q). unat q)") (auto simp: unat_mod_distrib unat_gt_0)

declare m0_gcd64.simps [simp del]

text \<open>\<^verbatim>\<open>m0_hash()\<close>: the successive values of \<^verbatim>\<open>y\<close> are the input shifted further left.\<close>

definition m0_hash :: "u64 \<Rightarrow> u64" where
  "m0_hash x =
     (let y = push_bit 18 x; x = x - y;
          y = push_bit 33 y; x = x - y;
          y = push_bit 3 y;  x = x + y;
          y = push_bit 3 y;  x = x - y;
          y = push_bit 4 y;  x = x + y;
          y = push_bit 2 y
      in x + y)"

fun m0u64_loop :: "nat \<Rightarrow> u8 list \<Rightarrow> u64 \<Rightarrow> u64" where
  "m0u64_loop i [] v = v"
| "m0u64_loop i (c # s) v = m0u64_loop (i + 1) s (v OR push_bit (64 - 8 - i * 8) (ucast c))"

definition m0u64 :: "u8 list \<Rightarrow> u64" where
  "m0u64 s = m0u64_loop 0 (take 8 s) 0"

definition m0_uint128_init :: "u8 list \<Rightarrow> m0_uint128 option" where
  "m0_uint128_init magic = do {
     M0_ASSERT (length magic = 16);
     Some \<lparr>u_hi = m0u64 magic, u_lo = m0u64 (drop 8 magic)\<rparr>
   }"

section \<open>Rolling counters\<close>

text \<open>
  \<^verbatim>\<open>UINT64_MAX/32\<close>. The difference of the two values cast to \<^verbatim>\<open>int64_t\<close> is taken modulo
  \<open>2 ^ 64\<close> and read as two's complement.
\<close>

definition M0_MOD_SAFE_LIMIT :: int where
  "M0_MOD_SAFE_LIMIT = 576460752303423487"

definition getdelta :: "u64 \<Rightarrow> u64 \<Rightarrow> int option" where
  "getdelta x0 x1 =
     (let delta = sint (x0 - x1)
      in do {
        M0_ASSERT (delta < M0_MOD_SAFE_LIMIT \<and> - delta < M0_MOD_SAFE_LIMIT);
        Some delta
      })"

definition m0_mod_gt :: "u64 \<Rightarrow> u64 \<Rightarrow> bool option" where
  "m0_mod_gt x0 x1 = do { d \<leftarrow> getdelta x0 x1; Some (d > 0) }"

definition m0_mod_ge :: "u64 \<Rightarrow> u64 \<Rightarrow> bool option" where
  "m0_mod_ge x0 x1 = do { d \<leftarrow> getdelta x0 x1; Some (d \<ge> 0) }"

section \<open>Powers of two\<close>

definition m0_is_po2 :: "u64 \<Rightarrow> bool" where
  "m0_is_po2 val \<longleftrightarrow> val AND (val - 1) = 0"

definition m0_round_up :: "u64 \<Rightarrow> u64 \<Rightarrow> u64 option" where
  "m0_round_up val size' = do {
     M0_ASSERT (m0_is_po2 size');
     Some ((val + size' - 1) AND NOT (size' - 1))
   }"

definition m0_round_down :: "u64 \<Rightarrow> u64 \<Rightarrow> u64 option" where
  "m0_round_down val size' = do {
     M0_ASSERT (m0_is_po2 size');
     Some (val AND NOT (size' - 1))
   }"

function m0_log2_loop :: "u64 \<Rightarrow> nat \<Rightarrow> nat" where
  "m0_log2_loop val shift =
     (if val \<noteq> 0 then m0_log2_loop (drop_bit 1 val) (shift + 1) else shift)"
  by pat_completeness auto
termination
proof (relation "measure (\<lambda>(val, shift). unat val)", goal_cases)
  case (2 val shift)
  then have "0 < unat val" by (simp add: unat_gt_0)
  then show ?case by (simp add: unat_div_distrib drop_bit_eq_div)
qed simp

declare m0_log2_loop.simps [simp del]

definition m0_log2 :: "u64 \<Rightarrow> nat" where
  "m0_log2 val = m0_log2_loop (drop_bit 1 val) 0"

definition m0_align :: "u64 \<Rightarrow> u64 \<Rightarrow> u64 option" where
  "m0_align val alignment = do {
     M0_ASSERT (m0_is_po2 alignment);
     (let mask = alignment - 1 in Some ((val + mask) AND NOT mask))
   }"

definition m0_is_aligned :: "u64 \<Rightarrow> u64 \<Rightarrow> bool option" where
  "m0_is_aligned val alignment = do {
     M0_ASSERT (m0_is_po2 alignment);
     (let mask = alignment - 1 in Some (val AND mask = 0))
   }"

definition m0_clip64u :: "u64 \<Rightarrow> u64 \<Rightarrow> u64 \<Rightarrow> u64 option" where
  "m0_clip64u lo hi x = do {
     M0_ASSERT (lo \<le> hi);
     Some (min (max lo x) hi)
   }"

text \<open>Population count by nibbles, with the table of the code.\<close>

definition bits_set :: "nat list" where
  "bits_set = [0, 1, 1, 2, 1, 2, 2, 3, 1, 2, 2, 3, 2, 3, 3, 4]"

function m0_no_of_bits_set_loop :: "u64 \<Rightarrow> nat \<Rightarrow> nat" where
  "m0_no_of_bits_set_loop val cnt =
     (if val \<noteq> 0
      then m0_no_of_bits_set_loop (drop_bit 4 val) (cnt + bits_set ! unat (val AND 0xF))
      else cnt)"
  by pat_completeness auto
termination
proof (relation "measure (\<lambda>(val, cnt). unat val)", goal_cases)
  case (2 val cnt)
  then have "0 < unat val" by (simp add: unat_gt_0)
  then show ?case by (simp add: unat_div_distrib drop_bit_eq_div)
qed simp

declare m0_no_of_bits_set_loop.simps [simp del]

definition m0_no_of_bits_set :: "u64 \<Rightarrow> nat" where
  "m0_no_of_bits_set val = m0_no_of_bits_set_loop val 0"


section \<open>Arrays\<close>

text \<open>
  \<^verbatim>\<open>m0_elems_are_unique()\<close> compares chunks of \<^verbatim>\<open>elem_size\<close> bytes; the nested
  \<^verbatim>\<open>m0_forall\<close> are bounded conjunctions.
\<close>

definition elem_at :: "u8 list \<Rightarrow> nat \<Rightarrow> nat \<Rightarrow> u8 list" where
  "elem_at array elem_size i = take elem_size (drop (i * elem_size) array)"

definition m0_elems_are_unique :: "u8 list \<Rightarrow> nat \<Rightarrow> nat \<Rightarrow> bool" where
  "m0_elems_are_unique array nr_elems elem_size =
     list_all (\<lambda>i. list_all (\<lambda>j. elem_at array elem_size i \<noteq> elem_at array elem_size j) [0..<i])
       [0..<nr_elems]"

fun m0_full_name_hash_loop :: "u8 list \<Rightarrow> u64 \<Rightarrow> u64" where
  "m0_full_name_hash_loop [] hash = hash"
| "m0_full_name_hash_loop (x # name) hash =
     (let c = ucast x
      in m0_full_name_hash_loop name ((hash + push_bit 4 c + drop_bit 4 c) * 11))"

definition m0_full_name_hash :: "u8 list \<Rightarrow> u32" where
  "m0_full_name_hash name = ucast (m0_full_name_hash_loop name 0)"

text \<open>
  \<^verbatim>\<open>m0_permute()\<close>: arrays of indices as lists of natural numbers. The sum \<^verbatim>\<open>k[i] + i\<close> is taken in the
  unsigned type of the arrays, 64 bits wide here, and wraps around before it is compared with
  \<open>n\<close>. The code requires \<open>0 < n\<close> (for \<open>n = 0\<close> the bound \<open>n - 1\<close> wraps around and the loop leaves
  the arrays), which the model reports as a failure.
\<close>

fun shift_right :: "nat \<Rightarrow> nat \<Rightarrow> 'a list \<Rightarrow> 'a list" where
  "shift_right i 0 s = s"
| "shift_right i (Suc j) s = (if Suc j > i then shift_right i j (s[Suc j := s ! j]) else s)"

function permute_loop ::
  "(nat \<Rightarrow> nat) \<Rightarrow> nat \<Rightarrow> nat \<Rightarrow> nat list \<Rightarrow> nat list \<Rightarrow> nat list \<Rightarrow> (nat list \<times> nat list) option"
where
  "permute_loop wrap n i k s r =
     (if i < n - 1 then
        (let t = wrap (k ! i + i) in do {
           M0_ASSERT (t < n);
           (let x = s ! t;
                s = (shift_right i t s)[i := x];
                r = r[x := i]
            in permute_loop wrap n (i + 1) k s r)
         })
      else Some (s, r))"
  by pat_completeness auto
termination
  by (relation "measure (\<lambda>(wrap, n, i, k, s, r). n - i)") auto

declare permute_loop.simps [simp del]

text \<open>The whole body, for the width of the arrays that \<open>wrap\<close> stands for.\<close>

definition permute_arrays ::
  "(nat \<Rightarrow> nat) \<Rightarrow> nat \<Rightarrow> nat list \<Rightarrow> nat list \<Rightarrow> nat list \<Rightarrow> (nat list \<times> nat list) option"
where
  "permute_arrays wrap n k s r =
     (if n = 0 then None
      else do {
        (s, r) \<leftarrow> permute_loop wrap n 0 k s r;
        Some (s, r[s ! (n - 1) := n - 1])
      })"

definition m0_permute ::
  "nat \<Rightarrow> nat list \<Rightarrow> nat list \<Rightarrow> nat list \<Rightarrow> (nat list \<times> nat list) option"
where
  "m0_permute n k s r = permute_arrays wrap_u64 n k s r"

text \<open>\<^verbatim>\<open>m0_array_sort()\<close>: both loops run up to \<^verbatim>\<open>arr_len - 1\<close>, exclusive.\<close>

definition M0_SWAP :: "'a list \<Rightarrow> nat \<Rightarrow> nat \<Rightarrow> 'a list" where
  "M0_SWAP arr i j = arr[i := arr ! j, j := arr ! i]"

function sort_inner :: "nat \<Rightarrow> nat \<Rightarrow> nat \<Rightarrow> u64 list \<Rightarrow> u64 list" where
  "sort_inner arr_len i j arr =
     (if j < arr_len - 1
      then sort_inner arr_len i (j + 1)
             (if arr ! i > arr ! j then M0_SWAP arr i j else arr)
      else arr)"
  by pat_completeness auto
termination
  by (relation "measure (\<lambda>(n, i, j, arr). n - j)") auto

function sort_outer :: "nat \<Rightarrow> nat \<Rightarrow> u64 list \<Rightarrow> u64 list" where
  "sort_outer arr_len i arr =
     (if i < arr_len - 1
      then sort_outer arr_len (i + 1) (sort_inner arr_len i (i + 1) arr)
      else arr)"
  by pat_completeness auto
termination
  by (relation "measure (\<lambda>(n, i, arr). n - i)") auto

declare sort_inner.simps [simp del] sort_outer.simps [simp del]

definition m0_array_sort :: "u64 list \<Rightarrow> u64 list option" where
  "m0_array_sort arr = do {
     M0_ASSERT (length arr > 0);
     Some (sort_outer (length arr) 0 arr)
   }"

text \<open>
  Bits of a byte buffer. \<^verbatim>\<open>M0_BYTES(i + 1) - 1\<close> is the byte of bit \<open>i\<close>. The signed
  shift of a \<^verbatim>\<open>char\<close> promoted to \<^verbatim>\<open>int\<close> and masked with 1 reads bit \<open>i mod 8\<close> of the byte.
\<close>

definition M0_BYTES :: "nat \<Rightarrow> nat" where
  "M0_BYTES bits_nr = (bits_nr + 7) div 8"

definition m0_bit_get :: "u8 list \<Rightarrow> nat \<Rightarrow> bool" where
  "m0_bit_get buffer i =
     (let byte_num = M0_BYTES (i + 1) - 1;
          byte_val = buffer ! byte_num;
          bit_shift = i mod 8
      in 1 AND signed_drop_bit bit_shift (scast byte_val :: u32) = 1)"

definition m0_bit_set :: "u8 list \<Rightarrow> nat \<Rightarrow> bool \<Rightarrow> u8 list" where
  "m0_bit_set buffer i val =
     (let byte_num = M0_BYTES (i + 1) - 1;
          bit_shift = i mod 8
      in buffer[byte_num := buffer ! byte_num OR push_bit bit_shift (1 AND of_bool val)])"

section \<open>Key-value pairs and majority vote\<close>

text \<open>A buffer \<^verbatim>\<open>struct m0_buf\<close> is the list of its \<^verbatim>\<open>b_nob\<close> bytes.\<close>

type_synonym m0_buf = "u8 list"

definition m0_buf_eq :: "m0_buf \<Rightarrow> m0_buf \<Rightarrow> bool" where
  "m0_buf_eq x y \<longleftrightarrow> length x = length y \<and> take (length x) x = take (length x) y"

record m0_key_val =
  kv_key :: m0_buf
  kv_val :: m0_buf

definition M0_KEY_VAL_NULL :: m0_key_val where
  "M0_KEY_VAL_NULL = \<lparr>kv_key = [], kv_val = []\<rparr>"

definition m0_key_val_is_null :: "m0_key_val \<Rightarrow> bool" where
  "m0_key_val_is_null kv \<longleftrightarrow>
     m0_buf_eq (kv_key M0_KEY_VAL_NULL) (kv_key kv) \<and>
     m0_buf_eq (kv_val M0_KEY_VAL_NULL) (kv_val kv)"

definition m0_key_val_init :: "m0_buf \<Rightarrow> m0_buf \<Rightarrow> m0_key_val" where
  "m0_key_val_init key val = \<lparr>kv_key = key, kv_val = val\<rparr>"

text \<open>
  The first pass of \<^verbatim>\<open>m0_vote_majority_get()\<close> keeps a candidate and a 32-bit counter, the
  second pass counts the elements that compare equal to the candidate. The comparison is the
  caller's. The result is the element and the count stored in \<^verbatim>\<open>*vote_nr\<close>, which is left alone
  when the candidate is the null pair.
\<close>

fun vote_candidate ::
  "(m0_buf \<Rightarrow> m0_buf \<Rightarrow> bool) \<Rightarrow> m0_key_val list \<Rightarrow> m0_key_val \<Rightarrow> u32 \<Rightarrow> m0_key_val \<times> u32"
where
  "vote_candidate cmp [] mjr cnt = (mjr, cnt)"
| "vote_candidate cmp (a # arr) mjr cnt =
     (let mjr = (if cnt = 0 then a else mjr);
          cnt =
            (if \<not> m0_key_val_is_null mjr \<and> \<not> m0_key_val_is_null a
             then cnt + (if cmp (kv_val mjr) (kv_val a) then 1 else - 1)
             else if m0_key_val_is_null mjr \<and> m0_key_val_is_null a then cnt + 1
             else cnt - 1)
      in vote_candidate cmp arr mjr cnt)"

fun vote_count ::
  "(m0_buf \<Rightarrow> m0_buf \<Rightarrow> bool) \<Rightarrow> m0_key_val list \<Rightarrow> m0_key_val \<Rightarrow> u32 \<Rightarrow> u32"
where
  "vote_count cmp [] mjr cnt = cnt"
| "vote_count cmp (a # arr) mjr cnt =
     (if m0_key_val_is_null a then vote_count cmp arr mjr cnt
      else if cmp (kv_val mjr) (kv_val a) then vote_count cmp arr mjr (cnt + 1)
      else vote_count cmp arr mjr cnt)"

definition m0_vote_majority_get ::
  "(m0_buf \<Rightarrow> m0_buf \<Rightarrow> bool) \<Rightarrow> m0_key_val list \<Rightarrow> m0_key_val option \<times> u32 option"
where
  "m0_vote_majority_get cmp arr =
     (let (mjr, _) = vote_candidate cmp arr M0_KEY_VAL_NULL 0
      in if m0_key_val_is_null mjr then (None, None)
         else (let cnt = vote_count cmp arr mjr 0
               in (if cnt > of_nat (length arr) div 2 then Some mjr else None, Some cnt)))"

section \<open>Theorems: arithmetic\<close>

definition u128 :: "m0_uint128 \<Rightarrow> nat" where
  "u128 u = unat (u_hi u) * 2 ^ 64 + unat (u_lo u)"

lemma carry_iff: "(if a + b < a then 1 else 0 :: nat) = (unat (a :: u64) + unat b) div 2 ^ 64"
proof -
  have "a + b < a \<longleftrightarrow> unat (a + b) < unat a" by (rule word_less_nat_alt)
  then show ?thesis
    using unat_lt_u64 [of a] unat_lt_u64 [of b]
    by (auto simp: unat_plus_if' div_nat_eqI not_less)
qed

lemma u128_add: "u128 (m0_uint128_add a b) = (u128 a + u128 b) mod 2 ^ 128"
proof -
  let ?c = "(unat (u_lo a) + unat (u_lo b)) div 2 ^ 64"
  have hi: "unat (u_hi a + u_hi b + (if u_lo a + u_lo b < u_lo a then 1 else 0)) =
      (unat (u_hi a) + unat (u_hi b) + ?c) mod 2 ^ 64"
    unfolding carry_iff [symmetric] by (auto simp: unat_word_ariths mod_simps)
  have lo: "unat (u_lo a + u_lo b) = (unat (u_lo a) + unat (u_lo b)) mod 2 ^ 64"
    by (simp add: unat_word_ariths)
  have split: "((h + l div M) mod M) * M + l mod M = (h * M + l) mod (M * M)" if "0 < M" for h l M :: nat
    using mod_mult2_eq [of "h * M + l" M M] that 
    by (simp add: div_add1_eq)
  show ?thesis
    using split [of "2 ^ 64" "unat (u_hi a) + unat (u_hi b)" "unat (u_lo a) + unat (u_lo b)"]
    unfolding u128_def m0_uint128_add_def Let_def
    by (simp only: m0_uint128.simps hi lo)  (simp add: algebra_simps)
qed

lemma unat_and_mask32: "unat (x AND UINT32_MAX) = unat x mod 2 ^ 32"
proof -
  have "x AND UINT32_MAX = take_bit 32 x"
    by (simp add: UINT32_MAX_def take_bit_eq_mask mask_eq_exp_minus_1)
  then show ?thesis
    by (simp add: take_bit_eq_mod unat_mod_distrib)
qed

lemma unat_shr32: "unat (drop_bit 32 (x :: u64)) = unat x div 2 ^ 32"
  by (simp add: drop_bit_eq_div unat_div_distrib)

lemma unat_shl32: "unat (push_bit 32 (x AND UINT32_MAX)) = (unat x mod 2 ^ 32) * 2 ^ 32"
proof -
  have "unat (push_bit 32 (x AND UINT32_MAX)) = (unat (x AND UINT32_MAX) * 2 ^ 32) mod 2 ^ 64"
    by (simp add: push_bit_eq_mult unat_word_ariths)
  also have "\<dots> = (unat x mod 2 ^ 32) * 2 ^ 32"
    unfolding unat_and_mask32 by simp
  finally show ?thesis .
qed


lemma split_shift: "c div M * (M * M) + c mod M * M = c * (M :: nat)"
proof -
  have "c div M * (M * M) + c mod M * M = (c div M * M + c mod M) * M"
    by (simp only: distrib_right mult.assoc)
  then show ?thesis by (simp only: div_mult_mod_eq)
qed

lemma mult_halves:
  "(ah * M + al) * (bh * M + bl) = ah * bh * (M * M) + al * bl + al * bh * M + ah * bl * (M :: nat)"
  by (simp add: algebra_simps)

lemma pow_32_32: "(2 :: nat) ^ 64 = 2 ^ 32 * 2 ^ 32"
  by simp

lemma u128_partial:
  "u128 \<lparr>u_hi = drop_bit 32 c, u_lo = push_bit 32 (c AND UINT32_MAX)\<rparr> = unat c * 2 ^ 32"
  unfolding u128_def m0_uint128.simps unat_shr32 unat_shl32 pow_32_32
  by (rule split_shift)

lemma unat_mult_32:
  fixes x y :: u64
  assumes "unat x < 2 ^ 32" "unat y < 2 ^ 32"
  shows "unat (x * y) = unat x * unat y"
proof (rule unat_mult_noof)
  have "unat x * unat y < 2 ^ 32 * 2 ^ 32" using assms by (intro mult_strict_mono) auto
  then show "unat x * unat y < 2 ^ LENGTH(64)" by simp
qed

lemma u128_mul64: "u128 (m0_uint128_mul64 a b) = unat a * unat b"
proof -
  let ?M = "2 ^ 32 :: nat"
  define al ah bl bh where "al = unat a mod ?M" and "ah = unat a div ?M"
    and "bl = unat b mod ?M" and "bh = unat b div ?M"
  note defs = al_def ah_def bl_def bh_def
  have ub: "al < ?M" "ah < ?M" "bl < ?M" "bh < ?M"
    using unat_lt_u64 [of a] unat_lt_u64 [of b] by (simp_all add: defs)
  have ab: "unat a = ah * ?M + al" "unat b = bh * ?M + bl"
    by (simp_all only: defs div_mult_mod_eq)
  have u: "unat (a AND UINT32_MAX) = al" "unat (drop_bit 32 a) = ah"
    "unat (b AND UINT32_MAX) = bl" "unat (drop_bit 32 b) = bh"
    by (simp_all only: unat_and_mask32 unat_shr32 defs)
  have "unat a * unat b < 2 ^ 64 * 2 ^ 64"
    using unat_lt_u64 [of a] unat_lt_u64 [of b] by (intro mult_strict_mono) auto
  then have bound: "unat a * unat b < 2 ^ 128" by simp
  have res: "u128 \<lparr>u_hi = drop_bit 32 a * drop_bit 32 b,
                   u_lo = (a AND UINT32_MAX) * (b AND UINT32_MAX)\<rparr> = ah * bh * (?M * ?M) + al * bl"
    unfolding u128_def m0_uint128.simps pow_32_32 using ub u by (simp only: unat_mult_32)
  have c: "unat ((a AND UINT32_MAX) * drop_bit 32 b) = al * bh"
    "unat (drop_bit 32 a * (b AND UINT32_MAX)) = ah * bl"
    using ub u by (simp_all only: unat_mult_32)
  have "u128 (m0_uint128_mul64 a b) =
      ((ah * bh * (?M * ?M) + al * bl + al * bh * ?M) mod 2 ^ 128 + ah * bl * ?M) mod 2 ^ 128"
    unfolding m0_uint128_mul64_def Let_def u128_add u128_partial res c ..
  also have "\<dots> = (unat a * unat b) mod 2 ^ 128"
    unfolding mod_add_left_eq ab mult_halves ..
  finally show ?thesis using bound by simp
qed


lemma uint128_cmp_iff:
  "m0_uint128_cmp a b = (if u128 a < u128 b then -1 else if u128 a = u128 b then 0 else 1)"
proof -
  have "unat (u_lo a) < 2 ^ 64" "unat (u_lo b) < 2 ^ 64"
    using unat_lt_u64 by simp_all
  then show ?thesis
    unfolding u128_def m0_uint128_cmp_def M0_3WAY_def Let_def
    by (auto simp: word_less_nat_alt word_unat_eq_iff)
qed

lemma gcd64_eq_gcd: "unat (m0_gcd64 p q) = gcd (unat p) (unat q)"
proof (induction p q rule: m0_gcd64.induct)
  case (1 p q)
  show ?case
  proof (cases "q = 0")
    case False
    then show ?thesis
      using 1 by (subst m0_gcd64.simps)
        (simp add: unat_mod_distrib gcd_red_nat [of "unat p" "unat q"] gcd.commute)
  qed (simp add: m0_gcd64.simps)
qed

lemma rnd_eq:
  assumes "m0_rnd mx prev = Some (v, next)" and "unat mx \<le> 2 ^ 16"
  shows "unat v = unat (drop_bit 16 next) * unat mx div (2 ^ 48 - 1)"
proof -
  have d: "unat (drop_bit 16 next) < 2 ^ 48"
    using unat_lt_u64 [of "next"] by (simp add: drop_bit_eq_div unat_div_distrib)
  have "unat (drop_bit 16 next) * unat mx \<le> (2 ^ 48 - 1) * 2 ^ 16"
    using d assms(2) by (intro mult_le_mono) simp_all
  also have "\<dots> < 2 ^ 64" by simp
  finally have "unat (drop_bit 16 next) * unat mx < 2 ^ LENGTH(64)" by simp
  then have "unat (drop_bit 16 next * mx) = unat (drop_bit 16 next) * unat mx"
    by (rule unat_mult_noof)
  then show ?thesis
    using assms(1) by (auto simp: m0_rnd_def Let_def unat_div_distrib mask_eq_exp_minus_1)
qed

lemma rnd_bound:
  assumes "m0_rnd mx prev = Some (v, next)" and "unat mx \<le> 2 ^ 16"
  shows "v \<le> mx" and "0 < mx \<Longrightarrow> v < mx \<longleftrightarrow> drop_bit 16 next \<noteq> 2 ^ 48 - 1"
proof -
  let ?M = "2 ^ 48 - 1 :: nat"
  let ?h = "unat (drop_bit 16 next)"
  have d: "?h \<le> ?M"
    using unat_lt_u64 [of "next"] by (simp add: drop_bit_eq_div unat_div_distrib)
  have M: "0 < ?M" by simp
  note v = rnd_eq [OF assms]
  have "?h * unat mx div ?M \<le> ?M * unat mx div ?M"
    using d by (intro div_le_mono mult_le_mono1)
  also have "\<dots> = unat mx" by simp
  finally show "v \<le> mx" by (simp add: v word_le_nat_alt)
  show "v < mx \<longleftrightarrow> drop_bit 16 next \<noteq> 2 ^ 48 - 1" if "0 < mx"
  proof -
    have "unat (2 ^ 48 - 1 :: u64) = ?M" by simp
    then have eq: "drop_bit 16 next = 2 ^ 48 - 1 \<longleftrightarrow> ?h = ?M"
      by (metis word_unat_eq_iff)
    have pos: "0 < unat mx" using that by (simp add: word_less_nat_alt)
    have "v < mx \<longleftrightarrow> ?h * unat mx < unat mx * ?M"
      using M by (simp add: word_less_nat_alt v div_less_iff_less_mult)
    also have "\<dots> \<longleftrightarrow> ?h < ?M" using pos by (simp only: mult.commute nat_mult_less_cancel1)
    finally show ?thesis using d eq by auto
  qed
qed

text \<open>Without the bound on the limit the product wraps, and the quotient stays small.\<close>

lemma rnd_le:
  assumes "m0_rnd mx prev = Some (v, nxt)"
  shows "v \<le> mx"
proof (cases "unat mx \<le> 2 ^ 16")
  case True
  then show ?thesis using rnd_bound(1) [OF assms] by blast
next
  case False
  have "v = drop_bit 16 nxt * mx div drop_bit 16 (NOT 0)"
    using assms by (auto simp: m0_rnd_def Let_def)
  then have "unat v = unat (drop_bit 16 nxt * mx) div (2 ^ 48 - 1)"
    by (simp add: unat_div_distrib mask_eq_exp_minus_1)
  also have "\<dots> \<le> (2 ^ 64 - 1) div (2 ^ 48 - 1)"
    using unat_lt_u64 [of "drop_bit 16 nxt * mx"] by (intro div_le_mono) simp
  also have "\<dots> \<le> 2 ^ 16" by simp
  finally show ?thesis using False by (simp add: word_le_nat_alt)
qed

lemma sint_word_of_int_u64:
  "- (2 ^ 63) \<le> k \<Longrightarrow> k < 2 ^ 63 \<Longrightarrow> sint (word_of_int k :: u64) = k"
  by (simp add: signed_of_int signed_take_bit_int_eq_self)

lemma mod_gt_add:
  assumes "0 < d" and "d < M0_MOD_SAFE_LIMIT"
  shows "m0_mod_gt (x + word_of_int d) x = Some True"
    and "m0_mod_gt x (x + word_of_int d) = Some False"
    and "m0_mod_ge (x + word_of_int d) x = Some True"
    and "m0_mod_ge x (x + word_of_int d) = Some False"
proof -
  have r: "0 < d" "d < 576460752303423487" using assms by (simp_all add: M0_MOD_SAFE_LIMIT_def)
  have e: "x + word_of_int d - x = word_of_int d" "x - (x + word_of_int d) = word_of_int (- d)"
    by simp_all
  have 1: "sint (x + word_of_int d - x) = d" and 2: "sint (x - (x + word_of_int d)) = - d"
    unfolding e by (rule sint_word_of_int_u64, use r in simp, use r in simp)+
  show "m0_mod_gt (x + word_of_int d) x = Some True"
    "m0_mod_gt x (x + word_of_int d) = Some False"
    "m0_mod_ge (x + word_of_int d) x = Some True"
    "m0_mod_ge x (x + word_of_int d) = Some False"
    using r by (simp_all only: m0_mod_gt_def m0_mod_ge_def getdelta_def Let_def 1 2)
      (simp_all add: M0_MOD_SAFE_LIMIT_def)
qed

lemma is_po2_exp:
  assumes "m0_is_po2 s" "s \<noteq> 0"
  obtains n where "n < 64" "s = 2 ^ n"
proof -
  have pos: "0 < unat s" using assms(2) by (simp add: unat_gt_0)
  then obtain n where n: "2 ^ n \<le> unat s" "unat s < 2 ^ Suc n"
    using ex_power_ivl1 [of 2 "unat s"] by auto
  have "(2 :: nat) ^ n < 2 ^ 64" using n(1) unat_lt_u64 [of s] by simp
  then have n64: "n < 64" by (rule power_less_imp_less_exp [rotated]) simp
  have top: "bit s n" using n64 n by (rule bit_top)
  have "unat s = 2 ^ n"
  proof (rule ccontr)
    assume ne: "unat s \<noteq> 2 ^ n"
    have "unat (s - 1) = unat s - 1" using assms(2) by (rule unat_minus_one)
    then have "bit (s - 1) n" using n ne by (intro bit_top [OF n64]) auto
    with top have "bit (s AND (s - 1)) n" by (simp add: bit_and_iff)
    with assms(1) show False by (simp add: m0_is_po2_def)
  qed
  moreover have "unat (2 ^ n :: u64) = 2 ^ n"
    using n64 by (rule unat_exp_u64)
  ultimately have "s = 2 ^ n" by (simp add: word_unat_eq_iff)
  with n64 show ?thesis by (rule that)
qed



text \<open>Rounding down gives the greatest multiple not above the value.\<close>

lemma round_down_correct:
  assumes "m0_is_po2 s" "s \<noteq> 0"
  shows "\<exists>r. m0_round_down v s = Some r \<and> unat r = unat v div unat s * unat s"
proof -
  obtain n where n: "n < 64" "s = 2 ^ n" using is_po2_exp [OF assms] .
  show ?thesis
    using assms(1) word_and_not_mask [OF n(1), of v]
    by (simp add: m0_round_down_def n unat_exp_u64)
qed

lemma round_up_correct:
  assumes "m0_is_po2 s" "s \<noteq> 0" "unat v + unat s \<le> 2 ^ 64"
  shows "\<exists>r. m0_round_up v s = Some r \<and> unat r = (unat v + unat s - 1) div unat s * unat s"
proof -
  obtain n where n: "n < 64" "s = 2 ^ n" using is_po2_exp [OF assms(1,2)] .
  have "1 \<le> s" using assms(2) by (simp add: word_le_nat_alt unat_gt_0 Suc_le_eq)
  then have "unat (s - 1) = unat s - 1" "0 < unat s"
    using assms(2) by (simp_all add: unat_minus_one unat_gt_0)
  then have "unat (v + (s - 1)) = unat v + unat s - 1"
    using assms(3) by (subst unat_add_noof) simp_all
  then have "unat (v + s - 1) = unat v + unat s - 1"
    by (simp add: algebra_simps)
  then show ?thesis
    using assms(1) word_and_not_mask [OF n(1), of "v + s - 1"]
    by (simp add: m0_round_up_def n unat_exp_u64)
qed


text \<open>
  C35. Multiplying two 64-bit numbers by halves never loses a carry: the 128-bit result of
  \<^verbatim>\<open>m0_uint128_mul64()\<close> is the exact product.
\<close>

theorem uint128_mul64_exact: "u128 (m0_uint128_mul64 a b) = unat a * unat b"
  by (rule u128_mul64)

text \<open>
  C37. For limits above 0 and up to \<open>2 ^ 16\<close> the generator returns a value not above the limit, and it
  returns the limit itself exactly when the upper 48 bits of the new state are all ones. The
  comment in \<^verbatim>\<open>arith.h\<close> promises a result below the limit.
\<close>

theorem rnd_result_bound:
  assumes "m0_rnd mx prev = Some (v, nxt)" and "unat mx \<le> 2 ^ 16" and "0 < mx"
  shows "v \<le> mx \<and> (v = mx \<longleftrightarrow> drop_bit 16 nxt = 2 ^ 48 - 1)"
  using rnd_bound [OF assms(1,2)] assms(3) by auto

theorem rnd_result_bound_witness:
  "m0_rnd 10 4256325491117201220 = Some (10, 2 ^ 64 - 1) \<and>
   unat (10 :: u64) \<le> 2 ^ 16 \<and> (0 :: u64) < 10 \<and> (10 :: u64) \<le> 10 \<and>
   drop_bit 16 (2 ^ 64 - 1 :: u64) = 2 ^ 48 - 1"
proof -
  have h: "m0_rnd 10 4256325491117201220 = Some (10, 2 ^ 64 - 1)"
    by (simp add: m0_rnd_def mask_eq_exp_minus_1)
  show ?thesis using h rnd_result_bound [OF h] by simp
qed

section \<open>Permutations\<close>

lemma length_shift_right [simp]: "length (shift_right i j s) = length s"
  by (induction i j s rule: shift_right.induct) auto

lemma shift_right_nth:
  assumes "i \<le> j" "j < length s" "m < length s"
  shows "shift_right i j s ! m = (if i < m \<and> m \<le> j then s ! (m - 1) else s ! m)"
  using assms
proof (induction i j s rule: shift_right.induct)
  case (2 i j s)
  show ?case
  proof (cases "Suc j > i")
    case True
    then show ?thesis
      using 2 by (cases "m = Suc j") (auto simp: nth_list_update)
  qed (use 2 in auto)
qed auto

definition rotate_in :: "nat \<Rightarrow> nat \<Rightarrow> 'a list \<Rightarrow> 'a list" where
  "rotate_in i t s = take i s @ s ! t # take (t - i) (drop i s) @ drop (Suc t) s"

lemma shift_rotate:
  assumes "i \<le> t" "t < length s"
  shows "(shift_right i t s)[i := s ! t] = rotate_in i t s"
proof (rule nth_equalityI)
  show "length ((shift_right i t s)[i := s ! t]) = length (rotate_in i t s)"
    using assms by (simp add: rotate_in_def)
  fix m
  assume "m < length ((shift_right i t s)[i := s ! t])"
  then have m: "m < length s" by simp
  show "(shift_right i t s)[i := s ! t] ! m = rotate_in i t s ! m"
    using assms m
    by (auto simp: rotate_in_def nth_list_update shift_right_nth nth_append nth_Cons
          split: nat.splits) (auto intro!: arg_cong [where f = "nth s"])
qed

lemma mset_rotate_in:
  assumes "i \<le> t" "t < length s"
  shows "mset (rotate_in i t s) = mset s"
proof -
  have "s = take i s @ take (t - i) (drop i s) @ s ! t # drop (Suc t) s"
    using assms id_take_nth_drop [of t s] by (metis append.assoc le_add_diff_inverse take_add)
  then have "mset s = mset (take i s @ take (t - i) (drop i s) @ s ! t # drop (Suc t) s)"
    by (rule arg_cong)
  then show ?thesis by (simp add: rotate_in_def)
qed

lemma rotate_in_prefix:
  assumes "i \<le> t" "t < length s" "m \<le> i"
  shows "rotate_in i t s ! m = (if m = i then s ! t else s ! m)"
  using assms by (auto simp: rotate_in_def nth_append)

definition perm_below :: "nat \<Rightarrow> nat list \<Rightarrow> bool" where
  "perm_below n s \<longleftrightarrow> length s = n \<and> distinct s \<and> set s = {..<n}"

lemma perm_below_rotate:
  assumes "perm_below n s" "i \<le> t" "t < n"
  shows "perm_below n (rotate_in i t s)"
proof -
  have "mset (rotate_in i t s) = mset s"
    using assms by (intro mset_rotate_in) (auto simp: perm_below_def)
  then show ?thesis
    using assms(1) unfolding perm_below_def
    by (metis distinct_count_atmost_1 mset_eq_setD mset_eq_length)
qed

text \<open>The sums stay in the width of the arrays.\<close>

definition no_wrap :: "(nat \<Rightarrow> nat) \<Rightarrow> nat \<Rightarrow> nat list \<Rightarrow> bool" where
  "no_wrap wrap n k \<longleftrightarrow> (\<forall>j < n - 1. wrap (k ! j + j) = k ! j + j)"

lemma no_wrapD: "no_wrap wrap n k \<Longrightarrow> i < n - 1 \<Longrightarrow> wrap (k ! i + i) = k ! i + i"
  by (simp add: no_wrap_def)

lemma no_wrap_u64: "\<forall>j < n - 1. k ! j + j < 2 ^ 64 \<Longrightarrow> no_wrap wrap_u64 n k"
  unfolding no_wrap_def by (blast intro: wrap_u64_id)

text \<open>
  The arrangement a Lehmer code stands for: entry \<open>k\<close> picks the \<open>k\<close>-th of the elements that
  remain.
\<close>

fun lehmer :: "nat list \<Rightarrow> 'a list \<Rightarrow> 'a list" where
  "lehmer [] s = s"
| "lehmer (k # ks) s = s ! k # lehmer ks (take k s @ drop (Suc k) s)"

lemma rotate_in_lehmer:
  assumes "i + k < length s"
  shows "take (i + 1) (rotate_in i (k + i) s) @ lehmer ks (drop (i + 1) (rotate_in i (k + i) s)) =
         take i s @ lehmer (k # ks) (drop i s)"
  using assms by (simp add: rotate_in_def min_def add.commute)

lemma permute_loop_step:
  assumes "no_wrap wrap n k" "i < n - 1" "length s = n"
  shows "permute_loop wrap n i k s r =
     (if k ! i + i < n
      then permute_loop wrap n (i + 1) k (rotate_in i (k ! i + i) s) (r[s ! (k ! i + i) := i])
      else None)"
  using assms no_wrapD [OF assms(1,2)] shift_rotate [of i "k ! i + i" s]
  by (simp add: permute_loop.simps [of wrap n i] Let_def M0_ASSERT_def)

lemma length_rotate_in:
  "i \<le> t \<Longrightarrow> t < length s \<Longrightarrow> length (rotate_in i t s) = length s"
  using mset_rotate_in [of i t s] by (metis size_mset)

text \<open>A code within its bounds runs to the end and arranges the elements as it says.\<close>

lemma permute_loop_lehmer:
  assumes "no_wrap wrap n k" "i < n" "length s = n" "length k = n" "\<forall>j < n - 1. k ! j + j < n"
  shows "\<exists>r'. permute_loop wrap n i k s r = Some (take i s @ lehmer (drop i (take (n - 1) k)) (drop i s), r')"
  using assms
proof (induction "n - i" arbitrary: i s r)
  case (Suc d)
  show ?case
  proof (cases "i < n - 1")
    case True
    let ?t = "k ! i + i" and ?s = "rotate_in i (k ! i + i) s"
    have t: "?t < n" using True Suc.prems(5) by blast
    have "drop i (take (n - 1) k) = k ! i # drop (i + 1) (take (n - 1) k)"
      using True Suc.prems(4) Cons_nth_drop_Suc [of i "take (n - 1) k"] by simp
    moreover have s: "length ?s = n" using t Suc.prems(3) by (simp add: length_rotate_in)
    moreover obtain r' where "permute_loop wrap n (i + 1) k ?s (r[s ! ?t := i]) =
        Some (take (i + 1) ?s @ lehmer (drop (i + 1) (take (n - 1) k)) (drop (i + 1) ?s), r')"
      using Suc.hyps(1) [OF _ Suc.prems(1) _ s Suc.prems(4,5), of "i + 1"] Suc.hyps(2) True by fastforce
    ultimately show ?thesis
      using permute_loop_step [OF Suc.prems(1) True Suc.prems(3)] t Suc.prems(3)
        rotate_in_lehmer [of i "k ! i" s "drop (i + 1) (take (n - 1) k)"]
      by (simp add: add.commute)
  qed (simp add: permute_loop.simps [of wrap n i])
qed simp

lemma permute_loop_correct:
  assumes "no_wrap wrap n k" "permute_loop wrap n i k s r = Some (s', r')"
    and "i < n" "perm_below n s" "length r = n" "\<forall>l < i. r ! (s ! l) = l"
  shows "perm_below n s' \<and> length r' = n \<and> (\<forall>l < n - 1. r' ! (s' ! l) = l)"
  using assms
proof (induction "n - i" arbitrary: i s r)
  case (Suc d)
  show ?case
  proof (cases "i < n - 1")
    case True
    let ?t = "k ! i + i"
    have len: "length s = n" "distinct s" using Suc.prems(4) by (auto simp: perm_below_def)
    have t: "?t < n" and rec: "permute_loop wrap n (i + 1) k (rotate_in i ?t s) (r[s ! ?t := i]) = Some (s', r')"
      using permute_loop_step [OF Suc.prems(1) True len(1), of r] Suc.prems(2) by (simp_all split: if_splits)
    have pb: "perm_below n (rotate_in i ?t s)"
      using Suc.prems(4) t by (simp add: perm_below_rotate)
    have lt: "s ! ?t < n" using Suc.prems(4) t nth_mem [of ?t s] by (auto simp: perm_below_def)
    have inv: "r[s ! ?t := i] ! (rotate_in i ?t s ! l) = l" if l: "l < i + 1" for l
    proof (cases "l = i")
      case True
      then show ?thesis using len lt t Suc.prems(5) by (simp add: rotate_in_prefix)
    next
      case False
      then have "s ! l \<noteq> s ! ?t" using len t l by (simp add: nth_eq_iff_index_eq)
      then show ?thesis using False len t l Suc.prems(6) by (simp add: rotate_in_prefix)
    qed
    show ?thesis
      using Suc.hyps(1) [OF _ Suc.prems(1) rec _ pb] Suc.hyps(2) inv True Suc.prems(5) by simp
  next
    case False
    then have "s' = s" "r' = r" "i = n - 1"
      using Suc.prems(2,3) by (simp_all add: permute_loop.simps [of wrap n i])
    then show ?thesis using Suc.prems(4-6) by simp
  qed
qed simp

lemma permute_correct:
  assumes "no_wrap wrap n k" "permute_arrays wrap n k s r = Some (s', r')" "perm_below n s" "length r = n"
  shows "perm_below n s' \<and> length r' = n \<and> (\<forall>i < n. r' ! (s' ! i) = i) \<and> (\<forall>x < n. r' ! x < n \<and> s' ! (r' ! x) = x)"
proof -
  obtain r1 where n: "0 < n" and loop: "permute_loop wrap n 0 k s r = Some (s', r1)"
    and r': "r' = r1[s' ! (n - 1) := n - 1]"
    using assms(2) by (auto simp: permute_arrays_def bind_eq_Some_conv split: if_splits)
  have pb: "perm_below n s'" "length r1 = n" and inv: "\<forall>l < n - 1. r1 ! (s' ! l) = l"
    using permute_loop_correct [OF assms(1) loop n assms(3,4)] by simp_all
  have s': "length s' = n" "distinct s'" "set s' = {..<n}" using pb by (auto simp: perm_below_def)
  have fwd: "r' ! (s' ! i) = i" if "i < n" for i
  proof (cases "i = n - 1")
    case True
    have "s' ! (n - 1) < n" using s' n nth_mem [of "n - 1" s'] by auto
    then show ?thesis using True pb r' by simp
  next
    case False
    then have "s' ! i \<noteq> s' ! (n - 1)" using s' that n by (simp add: nth_eq_iff_index_eq)
    then show ?thesis using False inv that by (simp add: r')
  qed
  have "r' ! x < n \<and> s' ! (r' ! x) = x" if "x < n" for x
  proof -
    have "x \<in> set s'" using that s' by simp
    then obtain i where "i < n" "s' ! i = x" using s'(1) by (metis in_set_conv_nth)
    then show ?thesis using fwd by auto
  qed
  with pb fwd show ?thesis by (simp add: r')
qed

text \<open>
  C33. Under its documented precondition \<^verbatim>\<open>k[i] + i < n\<close>, \<^verbatim>\<open>m0_permute()\<close> applied to an arrangement
  of \<open>0, \<dots>, n - 1\<close> returns (it fails no assertion). Element \<open>i\<close> of the result is the \<^verbatim>\<open>k[i]\<close>-th of the
  elements not placed before, the result is again an arrangement of \<open>0, \<dots>, n - 1\<close>, and the
  array built beside it is the inverse permutation on both sides.
\<close>

theorem permute_inverse:
  assumes "0 < n" and "n < 2 ^ 64" and "length k = n" and "\<forall>i < n. k ! i + i < n"
    and "perm_below n s" and "length r = n"
  shows "\<exists>s' r'. m0_permute n k s r = Some (s', r') \<and> s' = lehmer (take (n - 1) k) s \<and>
         perm_below n s' \<and> length r' = n \<and> (\<forall>i < n. r' ! (s' ! i) = i) \<and>
         (\<forall>x < n. r' ! x < n \<and> s' ! (r' ! x) = x)"
proof -
  have "k ! j + j < 2 ^ 64" if "j < n - 1" for j
    using assms(2,4) that by (meson diff_le_self order_less_le_trans order_less_trans)
  then have nw: "no_wrap wrap_u64 n k" by (intro no_wrap_u64) blast
  obtain r' where loop: "permute_loop wrap_u64 n 0 k s r = Some (lehmer (take (n - 1) k) s, r')"
    using permute_loop_lehmer [OF nw assms(1) _ assms(3), of s r] assms(4,5) by (auto simp: perm_below_def)
  have ret: "permute_arrays wrap_u64 n k s r =
      Some (lehmer (take (n - 1) k) s, r'[lehmer (take (n - 1) k) s ! (n - 1) := n - 1])"
    using assms(1) loop by (simp add: permute_arrays_def)
  show ?thesis using permute_correct [OF nw ret assms(5,6)] ret by (simp add: m0_permute_def)
qed

theorem permute_inverse_witness:
  "\<exists>s' r'. m0_permute 3 [2, 0, 0] [0, 1, 2] [0, 0, 0] = Some (s', r') \<and> s' = [2, 0, 1] \<and>
     perm_below 3 s' \<and> (\<forall>i < 3. r' ! (s' ! i) = i)"
proof -
  have "\<forall>i < 3. [2, 0, 0] ! i + i < (3 :: nat)" by (simp add: numeral_eq_Suc All_less_Suc)
  moreover have "perm_below 3 [0, 1, 2]" by (auto simp: perm_below_def)
  ultimately show ?thesis
    using permute_inverse [of 3 "[2, 0, 0]" "[0, 1, 2]" "[0, 0, 0]"] by auto
qed

section \<open>Exchange sort\<close>

lemma length_M0_SWAP [simp]: "length (M0_SWAP arr i j) = length arr"
  by (simp add: M0_SWAP_def)

lemma mset_M0_SWAP: "i < length arr \<Longrightarrow> j < length arr \<Longrightarrow> mset (M0_SWAP arr i j) = mset arr"
  unfolding M0_SWAP_def by (rule mset_swap)

lemma M0_SWAP_nth:
  "i < length arr \<Longrightarrow> j < length arr \<Longrightarrow>
   M0_SWAP arr i j ! m = (if m = j then arr ! i else if m = i then arr ! j else arr ! m)"
  by (simp add: M0_SWAP_def nth_list_update)

text \<open>
  One pass of the inner loop moves the least element of the segment to its front, permutes the
  segment and leaves everything else alone.
\<close>

definition select_step :: "nat \<Rightarrow> nat \<Rightarrow> u64 list \<Rightarrow> u64 list \<Rightarrow> bool" where
  "select_step i m xs ys \<longleftrightarrow>
     mset ys = mset xs \<and> length ys = length xs \<and>
     (\<forall>l. l < i \<or> m \<le> l \<longrightarrow> ys ! l = xs ! l) \<and>
     (\<forall>l. i \<le> l \<and> l < m \<longrightarrow> (\<exists>l'. i \<le> l' \<and> l' < m \<and> ys ! l = xs ! l'))"

lemma select_step_refl: "select_step i m xs xs"
  by (auto simp: select_step_def)

lemma select_step_trans:
  "select_step i m xs ys \<Longrightarrow> select_step i m ys zs \<Longrightarrow> select_step i m xs zs"
  unfolding select_step_def by (metis)

lemma select_step_swap:
  "i < j \<Longrightarrow> j < m \<Longrightarrow> m \<le> length xs \<Longrightarrow> select_step i m xs (M0_SWAP xs i j)"
  unfolding select_step_def
  by (auto simp: mset_M0_SWAP M0_SWAP_nth intro: exI [of _ i] exI [of _ j])

lemma sort_inner_correct:
  assumes "i < j" "n \<le> length arr" "\<forall>l. i \<le> l \<and> l < j \<longrightarrow> arr ! i \<le> arr ! l"
  shows "select_step i (n - 1) arr (sort_inner n i j arr) \<and>
         (\<forall>l. i \<le> l \<and> l < max j (n - 1) \<longrightarrow> sort_inner n i j arr ! i \<le> sort_inner n i j arr ! l)"
  using assms
proof (induction n i j arr rule: sort_inner.induct)
  case (1 n i j arr)
  show ?case
  proof (cases "j < n - 1")
    case True
    define arr' where "arr' = (if arr ! i > arr ! j then M0_SWAP arr i j else arr)"
    have step: "select_step i (n - 1) arr arr'"
      using True 1 by (auto simp: arr'_def select_step_refl intro: select_step_swap)
    have len: "length arr' = length arr" by (simp add: arr'_def)
    have "\<forall>l. i \<le> l \<and> l < j + 1 \<longrightarrow> arr' ! i \<le> arr' ! l"
    proof (intro allI impI)
      fix l assume "i \<le> l \<and> l < j + 1"
      then show "arr' ! i \<le> arr' ! l"
        using True 1(2-4) by (cases "l = j") (fastforce simp: arr'_def M0_SWAP_nth)+
    qed
    then have "select_step i (n - 1) arr' (sort_inner n i (j + 1) arr') \<and>
        (\<forall>l. i \<le> l \<and> l < max (j + 1) (n - 1) \<longrightarrow>
             sort_inner n i (j + 1) arr' ! i \<le> sort_inner n i (j + 1) arr' ! l)"
      using 1(1) [OF True] 1(2,3) len by (simp add: arr'_def)
    moreover have "sort_inner n i j arr = sort_inner n i (j + 1) arr'"
      using True by (simp add: sort_inner.simps [of n i j] arr'_def)
    ultimately show ?thesis
      using select_step_trans [OF step] True by simp
  next
    case False
    then have "sort_inner n i j arr = arr" by (simp add: sort_inner.simps [of n i j])
    with False 1 show ?thesis by (simp add: select_step_refl max_def)
  qed
qed

lemma sort_outer_correct:
  assumes "n \<le> length arr"
    and "\<forall>p q. p < i \<and> p \<le> q \<and> q < n - 1 \<longrightarrow> arr ! p \<le> arr ! q"
  shows "mset (sort_outer n i arr) = mset arr \<and>
         (\<forall>l. n - 1 \<le> l \<longrightarrow> sort_outer n i arr ! l = arr ! l) \<and>
         (\<forall>p q. p \<le> q \<and> q < n - 1 \<longrightarrow> sort_outer n i arr ! p \<le> sort_outer n i arr ! q)"
  using assms
proof (induction n i arr rule: sort_outer.induct)
  case (1 n i arr)
  show ?case
  proof (cases "i < n - 1")
    case True
    define arr' where "arr' = sort_inner n i (i + 1) arr"
    have front: "\<forall>l. i \<le> l \<and> l < i + 1 \<longrightarrow> arr ! i \<le> arr ! l"
      by (metis le_antisym less_Suc_eq_le order_refl Suc_eq_plus1)
    have inner: "select_step i (n - 1) arr arr'"
      "\<forall>l. i \<le> l \<and> l < n - 1 \<longrightarrow> arr' ! i \<le> arr' ! l"
      using sort_inner_correct [OF _ 1(2) front] True by (simp_all add: arr'_def)
    have sorted: "\<forall>p q. p < i + 1 \<and> p \<le> q \<and> q < n - 1 \<longrightarrow> arr' ! p \<le> arr' ! q"
    proof (intro allI impI)
      fix p q assume pq: "p < i + 1 \<and> p \<le> q \<and> q < n - 1"
      show "arr' ! p \<le> arr' ! q"
      proof (cases "p = i")
        case True
        then show ?thesis using inner(2) pq by simp
      next
        case False
        then have p: "p < i" "arr' ! p = arr ! p" using pq inner(1) by (auto simp: select_step_def)
        obtain q' where "p \<le> q'" "q' < n - 1" "arr' ! q = arr ! q'"
          using inner(1) pq p(1) unfolding select_step_def by (metis le_trans less_imp_le not_less)
        then show ?thesis using p 1(3) by simp
      qed
    qed
    have "sort_outer n i arr = sort_outer n (i + 1) arr'"
      using True by (simp add: sort_outer.simps [of n i] arr'_def)
    then show ?thesis
      using 1(1) [OF True] sorted inner(1) 1(2) by (simp add: arr'_def select_step_def)
  next
    case False
    then show ?thesis
      using 1 by (auto simp: sort_outer.simps [of n i])
  qed
qed


lemma array_sort_all_but_last:
  assumes "arr \<noteq> []"
  shows "\<exists>arr'. m0_array_sort arr = Some arr' \<and> mset arr' = mset arr \<and>
                sorted (butlast arr') \<and> last arr' = last arr"
proof -
  let ?out = "sort_outer (length arr) 0 arr"
  have out: "mset ?out = mset arr" "\<forall>l. length arr - 1 \<le> l \<longrightarrow> ?out ! l = arr ! l"
    "\<forall>p q. p \<le> q \<and> q < length arr - 1 \<longrightarrow> ?out ! p \<le> ?out ! q"
    using sort_outer_correct [of "length arr" arr 0] by simp_all
  have len: "length ?out = length arr" using out(1) by (rule mset_eq_length)
  then have "last ?out = last arr"
    using out(2) assms by (metis last_conv_nth length_0_conv order_refl)
  moreover have "sorted (butlast ?out)"
    using out(3) len by (simp add: sorted_iff_nth_mono nth_butlast)
  ultimately show ?thesis using out(1) assms by (simp add: m0_array_sort_def)
qed

text \<open>
  C36. \<^verbatim>\<open>m0_array_sort()\<close> permutes the array and sorts all of it but its last element, which
  stays where it was: both loops stop one short of the end. The comment in \<^verbatim>\<open>misc.h\<close> promises
  a sorted array.
\<close>

theorem array_sort_result:
  assumes "arr \<noteq> []"
  shows "\<exists>arr'. m0_array_sort arr = Some arr' \<and> mset arr' = mset arr \<and>
                sorted (butlast arr') \<and> last arr' = last arr"
  using assms by (rule array_sort_all_but_last)

theorem array_sort_result_witness:
  "m0_array_sort [3, 2, 1] = Some [2, 3, 1] \<and> last [2, 3, 1 :: u64] = last [3, 2, 1]"
proof -
  have h: "m0_array_sort [3, 2, 1] = Some [2, 3, 1]"
    by (simp add: m0_array_sort_def sort_outer.simps sort_inner.simps M0_SWAP_def)
  show ?thesis using h array_sort_result [of "[3, 2, 1]"] by simp
qed

section \<open>Bits\<close>

lemma elems_are_unique_iff:
  "m0_elems_are_unique array nr sz \<longleftrightarrow> distinct (map (elem_at array sz) [0..<nr])"
proof -
  have gen: "(\<forall>i < nr. \<forall>j < i. f i \<noteq> f j) \<longleftrightarrow> (\<forall>i < nr. \<forall>j < nr. i \<noteq> j \<longrightarrow> f i \<noteq> f j)"
    for f :: "nat \<Rightarrow> u8 list"
  proof (intro iffI allI impI)
    fix i j
    assume "\<forall>i < nr. \<forall>j < i. f i \<noteq> f j" "i < nr" "j < nr" "i \<noteq> j"
    then show "f i \<noteq> f j" by (cases i j rule: linorder_cases) force+
  qed auto
  have "m0_elems_are_unique array nr sz \<longleftrightarrow>
      (\<forall>i < nr. \<forall>j < i. elem_at array sz i \<noteq> elem_at array sz j)"
    by (simp add: m0_elems_are_unique_def list_all_iff Ball_def)
  also have "\<dots> \<longleftrightarrow> distinct (map (elem_at array sz) [0..<nr])"
    unfolding gen by (simp add: distinct_conv_nth)
  finally show ?thesis .
qed

lemma M0_BYTES_Suc [simp]: "M0_BYTES (Suc i) - Suc 0 = i div 8"
  by (simp add: M0_BYTES_def)

lemma bit_signed_shift:
  assumes "n < 8"
  shows "(1 AND signed_drop_bit n (scast x :: u32) = 1) \<longleftrightarrow> bit (x :: u8) n"
proof -
  have eq: "(1 AND y = 1) \<longleftrightarrow> bit y 0" for y :: u32
    by (simp only: one_and_eq bit_0 odd_iff_mod_2_eq_one)
  have "bit (signed_drop_bit n (scast x :: u32)) 0 \<longleftrightarrow> bit (scast x :: u32) n"
    unfolding bit_signed_drop_bit_iff using assms by simp
  also have "\<dots> \<longleftrightarrow> bit x n"
    unfolding bit_signed_iff using assms by simp
  finally show ?thesis unfolding eq .
qed

lemma bit_get_iff: "m0_bit_get buffer i \<longleftrightarrow> bit (buffer ! (i div 8)) (i mod 8)"
  by (simp add: m0_bit_get_def Let_def bit_signed_shift)

lemma bit_push_bit_of_bool:
  "n < 8 \<Longrightarrow> bit (push_bit m (1 AND of_bool v) :: u8) n \<longleftrightarrow> v \<and> m = n"
  by (cases v) (auto simp: bit_simps)

lemma bit_set_get:
  assumes "i < 8 * length buffer"
  shows "m0_bit_get (m0_bit_set buffer i val) j =
           (if i = j then m0_bit_get buffer i \<or> val else m0_bit_get buffer j)"
proof -
  have lt: "i div 8 < length buffer" using assms by auto
  have set: "m0_bit_set buffer i val =
      buffer[i div 8 := buffer ! (i div 8) OR push_bit (i mod 8) (1 AND of_bool val)]"
    by (simp add: m0_bit_set_def Let_def)
  show ?thesis
  proof (cases "i div 8 = j div 8")
    case True
    then have "i = j \<longleftrightarrow> i mod 8 = j mod 8" by (metis div_mult_mod_eq)
    moreover have "m0_bit_get (m0_bit_set buffer i val) j \<longleftrightarrow>
        bit (buffer ! (j div 8)) (j mod 8) \<or> val \<and> i mod 8 = j mod 8"
      unfolding bit_get_iff set using True lt
      by (simp only: nth_list_update_eq bit_or_iff bit_push_bit_of_bool mod_less_divisor zero_less_numeral)
    ultimately show ?thesis by (auto simp: bit_get_iff)
  next
    case False
    then show ?thesis by (auto simp: bit_get_iff set)
  qed
qed

lemma card_below_4: "card {n :: nat. n < 4 \<and> P n} = length (filter P [0, 1, 2, 3])"
proof -
  have "{n. n < 4 \<and> P n} = set (filter P [0..<4])" by auto
  then have "card {n. n < 4 \<and> P n} = length (filter P [0..<4])"
    by (simp only: distinct_card distinct_filter distinct_upt)
  then show ?thesis by (simp add: numeral_eq_Suc)
qed

lemma bits_set_nibble: "bits_set ! unat (x AND 0xF :: u64) = card {n. n < 4 \<and> bit x n}"
proof -
  define y where "y = x AND 0xF"
  have y4: "y = take_bit 4 x" by (simp add: y_def take_bit_eq_mask mask_eq_exp_minus_1)
  have "{n. n < 4 \<and> bit x n} = {n. n < 4 \<and> bit y n}"
    by (auto simp: y4 bit_take_bit_iff)
  moreover have "bits_set ! unat y = length (filter (bit y) [0, 1, 2, 3])"
  proof -
    have "unat y < 16" by (simp add: y4 take_bit_eq_mod unat_mod_distrib)
    then have "y \<in> of_nat ` {..<16}" by (intro image_eqI [of _ _ "unat y"]) simp_all
    then have "y \<in> {0, 1, 2, 3, 4, 5, 6, 7, 8, 9, 10, 11, 12, 13, 14, 15}"
      by (auto simp: numeral_eq_Suc less_Suc_eq)
    then show ?thesis by (auto simp: bits_set_def)
  qed
  ultimately show ?thesis by (simp add: y_def card_below_4)
qed

lemma card_bits_nibble:
  fixes val :: u64
  shows "card {n. bit val n} = card {n. n < 4 \<and> bit val n} + card {n. bit (drop_bit 4 val) n}"
proof -
  have "{n. bit val n} = {n. n < 4 \<and> bit val n} \<union> (+) 4 ` {n. bit (drop_bit 4 val) n}"
  proof (intro equalityI subsetI)
    fix n assume n: "n \<in> {n. bit val n}"
    show "n \<in> {n. n < 4 \<and> bit val n} \<union> (+) 4 ` {n. bit (drop_bit 4 val) n}"
    proof (cases "n < 4")
      case False
      then have "bit (drop_bit 4 val) (n - 4)" using n by (simp add: bit_drop_bit_eq)
      then show ?thesis using False by (auto intro: image_eqI [of _ _ "n - 4"])
    qed (use n in auto)
  qed (auto simp: bit_drop_bit_eq)
  moreover have "card ({n. n < 4 \<and> bit val n} \<union> (+) 4 ` {n. bit (drop_bit 4 val) n}) =
      card {n. n < 4 \<and> bit val n} + card ((+) 4 ` {n. bit (drop_bit 4 val) n})"
    by (rule card_Un_disjoint) auto
  ultimately show ?thesis by (simp add: card_image)
qed

lemma no_of_bits_set_loop:
  "m0_no_of_bits_set_loop val cnt = cnt + card {n. bit val n}"
proof (induction val cnt rule: m0_no_of_bits_set_loop.induct)
  case (1 val cnt)
  show ?case
  proof (cases "val = 0")
    case True
    then show ?thesis by (simp add: m0_no_of_bits_set_loop.simps)
  next
    case False
    then show ?thesis
      using 1 [OF False] card_bits_nibble [of val]
      by (simp add: m0_no_of_bits_set_loop.simps [of val] bits_set_nibble)
  qed
qed

section \<open>Majority vote\<close>

text \<open>
  Two pairs vote for the same value when both are null or neither is and the caller's
  comparison accepts them.
\<close>

definition same_vote :: "(m0_buf \<Rightarrow> m0_buf \<Rightarrow> bool) \<Rightarrow> m0_key_val \<Rightarrow> m0_key_val \<Rightarrow> bool" where
  "same_vote cmp x y \<longleftrightarrow>
     (if m0_key_val_is_null x then m0_key_val_is_null y
      else \<not> m0_key_val_is_null y \<and> cmp (kv_val x) (kv_val y))"

definition votes :: "(m0_buf \<Rightarrow> m0_buf \<Rightarrow> bool) \<Rightarrow> m0_key_val list \<Rightarrow> m0_key_val \<Rightarrow> nat" where
  "votes cmp arr x = length (filter (same_vote cmp x) arr)"

definition balance :: "(m0_buf \<Rightarrow> m0_buf \<Rightarrow> bool) \<Rightarrow> m0_key_val \<Rightarrow> m0_key_val \<Rightarrow> u32 \<Rightarrow> int" where
  "balance cmp x mjr cnt = (if same_vote cmp x mjr then uint cnt else - uint cnt)"

lemma balance_0 [simp]: "balance cmp x mjr 0 = 0"
  by (simp add: balance_def)

lemma equivp_same_vote:
  assumes "equivp cmp"
  shows "equivp (same_vote cmp)"
proof (rule equivpI)
  show "reflp (same_vote cmp)"
    using equivp_reflp [OF assms] by (auto simp: reflp_def same_vote_def)
  show "symp (same_vote cmp)"
    using equivp_symp [OF assms] by (auto simp: symp_def same_vote_def)
  show "transp (same_vote cmp)"
    using equivp_transp [OF assms] by (auto simp: transp_def same_vote_def split: if_splits)
qed

lemma uint_dec: "(c :: u32) \<noteq> 0 \<Longrightarrow> uint (c - 1) = uint c - 1"
proof -
  assume "c \<noteq> 0"
  then have "1 \<le> uint c" using uint_0_iff [of c] uint_ge_0 [of c] by linarith
  then show ?thesis by (simp add: uint_sub_if')
qed

lemma uint_inc: "uint (c :: u32) + 1 < 2 ^ 32 \<Longrightarrow> uint (c + 1) = uint c + 1"
  by (simp add: uint_plus_if')

lemma vote_candidate_step:
  "vote_candidate cmp (a # arr) mjr cnt =
     (let mjr = (if cnt = 0 then a else mjr)
      in vote_candidate cmp arr mjr (if same_vote cmp mjr a then cnt + 1 else cnt - 1))"
proof -
  have "(if \<not> m0_key_val_is_null m \<and> \<not> m0_key_val_is_null a
         then cnt + (if cmp (kv_val m) (kv_val a) then 1 else - 1)
         else if m0_key_val_is_null m \<and> m0_key_val_is_null a then cnt + 1 else cnt - 1) =
        (if same_vote cmp m a then cnt + 1 else cnt - 1)" for m
    by (simp add: same_vote_def)
  then show ?thesis by (simp only: vote_candidate.simps Let_def)
qed

lemma balance_step:
  assumes eq: "equivp cmp" and b: "uint cnt + 1 < 2 ^ 32"
    and m: "m = (if cnt = 0 then a else mjr)"
  shows "(if same_vote cmp x a then 1 else - 1) + balance cmp x mjr cnt \<le>
         balance cmp x m (if same_vote cmp m a then cnt + 1 else cnt - 1)"
proof -
  note eqv = equivp_same_vote [OF eq]
  have tr: "same_vote cmp x mjr \<Longrightarrow> same_vote cmp mjr a \<Longrightarrow> same_vote cmp x a"
    "same_vote cmp x mjr \<Longrightarrow> same_vote cmp x a \<Longrightarrow> same_vote cmp mjr a"
    "same_vote cmp mjr a \<Longrightarrow> same_vote cmp x a \<Longrightarrow> same_vote cmp x mjr"
    by (blast intro: equivp_transp [OF eqv] equivp_symp [OF eqv])+
  show ?thesis
  proof (cases "cnt = 0")
    case True
    then show ?thesis by (simp add: balance_def m equivp_reflp [OF eqv])
  next
    case False
    then have m: "m = mjr" by (simp add: m)
    show ?thesis
      unfolding m balance_def
      using uint_inc [OF b] uint_dec [OF False] tr uint_ge_0 [of cnt]
      by (cases "same_vote cmp mjr a"; cases "same_vote cmp x mjr"; cases "same_vote cmp x a")
        simp_all
  qed
qed

lemma vote_candidate_majority:
  assumes "equivp cmp" "uint cnt + int (length arr) < 2 ^ 32"
    and "vote_candidate cmp arr mjr cnt = (mjr', cnt')"
  shows "2 * int (votes cmp arr x) - int (length arr) + balance cmp x mjr cnt \<le> balance cmp x mjr' cnt'"
  using assms(2,3)
proof (induction arr arbitrary: mjr cnt)
  case Nil
  then show ?case by (simp add: votes_def)
next
  case (Cons a arr)
  define m where "m = (if cnt = 0 then a else mjr)"
  define c where "c = (if same_vote cmp m a then cnt + 1 else cnt - 1)"
  have cand: "vote_candidate cmp arr m c = (mjr', cnt')"
    using Cons.prems(2) unfolding vote_candidate_step Let_def m_def [symmetric] c_def [symmetric] .
  have b: "uint cnt + 1 < 2 ^ 32" using Cons.prems(1) by simp
  have "uint c \<le> uint cnt + 1"
  proof (cases "same_vote cmp m a")
    case True
    then show ?thesis using uint_inc [OF b] by (simp add: c_def)
  next
    case False
    then have "cnt \<noteq> 0" using equivp_reflp [OF equivp_same_vote [OF assms(1)]] by (auto simp: m_def)
    then show ?thesis using False uint_dec [of cnt] by (simp add: c_def)
  qed
  then have "2 * int (votes cmp arr x) - int (length arr) + balance cmp x m c \<le> balance cmp x mjr' cnt'"
    using Cons.IH [OF _ cand] Cons.prems(1) by simp
  moreover have "(if same_vote cmp x a then 1 else - 1) + balance cmp x mjr cnt \<le> balance cmp x m c"
    unfolding c_def using assms(1) b m_def by (rule balance_step)
  moreover have "int (votes cmp (a # arr) x) = (if same_vote cmp x a then 1 else 0) + int (votes cmp arr x)"
    by (simp add: votes_def)
  ultimately show ?case by (auto split: if_splits)
qed

lemma vote_count_votes:
  assumes "\<not> m0_key_val_is_null mjr" "unat cnt + length arr < 2 ^ 32"
  shows "unat (vote_count cmp arr mjr cnt) = unat cnt + votes cmp arr mjr"
  using assms
proof (induction arr arbitrary: cnt)
  case (Cons a arr)
  then have "unat (cnt + 1) = unat cnt + 1" by (intro trans [OF unat_add_noof]) simp_all
  with Cons show ?case by (auto simp: votes_def same_vote_def)
qed (simp add: votes_def)

lemma vote_candidate_member:
  "vote_candidate cmp arr mjr cnt = (mjr', cnt') \<Longrightarrow> mjr' = mjr \<or> mjr' \<in> set arr"
  by (induction arr arbitrary: mjr cnt) (fastforce simp: Let_def split: if_splits)+

lemma half_less_u32:
  assumes "n < 2 ^ 32"
  shows "of_nat n div 2 < (c :: u32) \<longleftrightarrow> n < 2 * unat c"
proof -
  have "unat (of_nat n div 2 :: u32) = n div 2"
    using assms by (simp add: unat_div_distrib unat_of_nat)
  then show ?thesis by (auto simp: word_less_nat_alt)
qed

definition is_majority :: "(m0_buf \<Rightarrow> m0_buf \<Rightarrow> bool) \<Rightarrow> m0_key_val list \<Rightarrow> m0_key_val \<Rightarrow> bool" where
  "is_majority cmp arr x \<longleftrightarrow>
     x \<in> set arr \<and> \<not> m0_key_val_is_null x \<and> length arr < 2 * votes cmp arr x"

lemma vote_sound:
  assumes "equivp cmp" "length arr < 2 ^ 32"
    and "m0_vote_majority_get cmp arr = (Some x, n)"
  shows "is_majority cmp arr x \<and> n = Some (of_nat (votes cmp arr x))"
proof -
  obtain m c where cand: "vote_candidate cmp arr M0_KEY_VAL_NULL 0 = (m, c)" by fastforce
  have nn: "\<not> m0_key_val_is_null m" and x: "x = m" and n: "n = Some (vote_count cmp arr m 0)"
    and gt: "vote_count cmp arr m 0 > of_nat (length arr) div 2"
    using assms(3) cand by (auto simp: m0_vote_majority_get_def Let_def split: if_splits)
  have cnt: "unat (vote_count cmp arr m 0) = votes cmp arr m"
    using vote_count_votes [OF nn, of 0 arr cmp] assms(2) by simp
  then have "vote_count cmp arr m 0 = of_nat (votes cmp arr m)"
    by (metis of_nat_unat ucast_id)
  moreover have "m \<in> set arr"
    using vote_candidate_member [OF cand] nn
    by (auto simp: M0_KEY_VAL_NULL_def m0_key_val_is_null_def m0_buf_eq_def)
  ultimately show ?thesis
    using gt cnt nn half_less_u32 [OF assms(2)] by (simp add: is_majority_def x n)
qed

lemma vote_complete:
  assumes "equivp cmp" "length arr < 2 ^ 32" "is_majority cmp arr x"
  shows "\<exists>y. same_vote cmp x y \<and> m0_vote_majority_get cmp arr = (Some y, Some (of_nat (votes cmp arr x)))"
proof -
  obtain m c where cand: "vote_candidate cmp arr M0_KEY_VAL_NULL 0 = (m, c)" by fastforce
  have "2 * int (votes cmp arr x) - int (length arr) \<le> balance cmp x m c"
    using vote_candidate_majority [OF assms(1) _ cand, of x] assms(2) by simp
  then have "0 < balance cmp x m c" using assms(3) by (simp add: is_majority_def)
  then have xm: "same_vote cmp x m" by (auto simp: balance_def split: if_splits) 
  then have nn: "\<not> m0_key_val_is_null m"
    using assms(3) by (simp add: same_vote_def is_majority_def split: if_splits)
  have "same_vote cmp x = same_vote cmp m"
    using xm equivp_same_vote [OF assms(1)] by (simp add: equivp_def)
  then have v: "votes cmp arr m = votes cmp arr x" by (simp add: votes_def)
  have cnt: "unat (vote_count cmp arr m 0) = votes cmp arr x"
    using vote_count_votes [OF nn, of 0 arr cmp] assms(2) v by simp
  then have "vote_count cmp arr m 0 = of_nat (votes cmp arr x)"
    by (metis of_nat_unat ucast_id)
  moreover have "of_nat (length arr) div 2 < vote_count cmp arr m 0"
    using assms(3) cnt half_less_u32 [OF assms(2)] by (simp add: is_majority_def)
  ultimately show ?thesis
    using xm nn cand by (auto simp: m0_vote_majority_get_def Let_def)
qed


text \<open>
  C34. When the caller's comparison is an equivalence, \<^verbatim>\<open>m0_vote_majority_get()\<close> decides
  whether some non-null value occurs in more than half of the array: it returns such an element
  with its number of votes, and nothing exactly when there is none.
\<close>

theorem vote_majority_correct:
  assumes "equivp cmp" and "length arr < 2 ^ 32"
  shows "case fst (m0_vote_majority_get cmp arr) of
           Some x \<Rightarrow> is_majority cmp arr x \<and>
                     snd (m0_vote_majority_get cmp arr) = Some (of_nat (votes cmp arr x))
         | None \<Rightarrow> \<not> (\<exists>x. is_majority cmp arr x)"
proof (cases "m0_vote_majority_get cmp arr")
  case (Pair v n)
  then show ?thesis
    using vote_sound [OF assms] vote_complete [OF assms] by (cases v) auto
qed

theorem vote_majority_correct_witness:
  "equivp ((=) :: m0_buf \<Rightarrow> m0_buf \<Rightarrow> bool) \<and>
   is_majority (=) [m0_key_val_init [1] [7], m0_key_val_init [2] [8], m0_key_val_init [3] [7]]
     (m0_key_val_init [1] [7])"
proof -
  let ?arr = "[m0_key_val_init [1] [7], m0_key_val_init [2] [8], m0_key_val_init [3] [7]]"
  have r: "m0_vote_majority_get (=) ?arr = (Some (m0_key_val_init [3] [7]), Some 2)"
    by (simp add: m0_vote_majority_get_def m0_key_val_init_def m0_key_val_is_null_def
          M0_KEY_VAL_NULL_def m0_buf_eq_def)
  have "is_majority (=) ?arr (m0_key_val_init [3] [7])"
    using vote_majority_correct [of "(=)" ?arr] by (simp add: r identity_equivp)
  then show ?thesis
    by (simp add: identity_equivp is_majority_def votes_def same_vote_def m0_key_val_init_def
          m0_key_val_is_null_def M0_KEY_VAL_NULL_def m0_buf_eq_def)
qed

end
