(* ===== verification/Motr_Fid.thy ===== *)
theory Motr_Fid
  imports Motr_Misc
begin

text \<open>
  File identifiers, after \<^verbatim>\<open>src/fid/fid.c\<close> and \<^verbatim>\<open>src/fid/fid.h\<close>: the type byte in the container, the table
  of fid types, comparison, hashing, arrays, printing and parsing. The table \<^verbatim>\<open>fid_types\<close> is passed explicitly. A type
  carries the address of its structure, by which the code compares types. \<^verbatim>\<open>sscanf()\<close> is modelled as the C standard describes it,
  with the conversions of \<^verbatim>\<open>strtoull()\<close> and \<^verbatim>\<open>strtoll()\<close>; the universally unique identifier behind \<^verbatim>\<open>m0_fid_tgenerate()\<close> is
  an argument.
\<close>

section \<open>Model\<close>

record m0_fid =
  f_container :: u64
  f_key :: u64

record m0_fid_arr =
  af_count :: u32
  af_elems :: "m0_fid list"

record m0_fid_type =
  ft_addr :: nat
  ft_id :: u8
  ft_name :: "string option"
  ft_is_valid :: "(m0_fid \<Rightarrow> bool) option"

type_synonym fid_types = "m0_fid_type option list"

definition M0_FID_TYPE_MASK :: u64 where
  "M0_FID_TYPE_MASK = 0x00ffffffffffffff"

definition M0_FID_STR_LEN :: nat where
  "M0_FID_STR_LEN = 64"

definition M0_FID_TCONTAINER :: "u8 \<Rightarrow> u64 \<Rightarrow> u64" where
  "M0_FID_TCONTAINER type container = push_bit (64 - 8) (ucast type) OR (container AND M0_FID_TYPE_MASK)"

definition M0_FID_INIT :: "u64 \<Rightarrow> u64 \<Rightarrow> m0_fid" where
  "M0_FID_INIT container key = \<lparr>f_container = container, f_key = key\<rparr>"

definition M0_FID_TINIT :: "u8 \<Rightarrow> u64 \<Rightarrow> u64 \<Rightarrow> m0_fid" where
  "M0_FID_TINIT type container key = M0_FID_INIT (M0_FID_TCONTAINER type container) key"

subsection \<open>The table of types\<close>

definition m0_fid_type_register :: "fid_types \<Rightarrow> m0_fid_type \<Rightarrow> fid_types option" where
  "m0_fid_type_register types fidt = do {
     let id = unat (ft_id fidt);
     M0_ASSERT (id < length types);
     M0_ASSERT (types ! id = None);
     Some (types[id := Some fidt])
   }"

definition m0_fid_type_unregister :: "fid_types \<Rightarrow> m0_fid_type \<Rightarrow> fid_types option" where
  "m0_fid_type_unregister types fidt = do {
     let id = unat (ft_id fidt);
     M0_ASSERT (id < length types);
     M0_ASSERT (map_option ft_addr (types ! id) = Some (ft_addr fidt));
     Some (types[id := None])
   }"

definition m0_fid_type_get :: "fid_types \<Rightarrow> u8 \<Rightarrow> m0_fid_type option option" where
  "m0_fid_type_get types tid = do {
     M0_ASSERT (unat tid < length types);
     Some (types ! unat tid)
   }"

definition m0_fid_type_gethi :: "fid_types \<Rightarrow> u64 \<Rightarrow> m0_fid_type option option" where
  "m0_fid_type_gethi types hi = m0_fid_type_get types (ucast (drop_bit (64 - 8) hi))"

definition m0_fid_type_getfid :: "fid_types \<Rightarrow> m0_fid \<Rightarrow> m0_fid_type option option" where
  "m0_fid_type_getfid types fid = m0_fid_type_gethi types (f_container fid)"

fun m0_fid_type_getname :: "fid_types \<Rightarrow> string \<Rightarrow> m0_fid_type option option" where
  "m0_fid_type_getname [] name = Some None"
| "m0_fid_type_getname (None # types) name = m0_fid_type_getname types name"
| "m0_fid_type_getname (Some fidt # types) name = do {
     M0_ASSERT (ft_name fidt \<noteq> None);
     if name = the (ft_name fidt) then Some (Some fidt) else m0_fid_type_getname types name
   }"

subsection \<open>Fids\<close>

text \<open>The bytes of a structure in memory, least significant byte first.\<close>

definition u64_bytes :: "u64 \<Rightarrow> u8 list" where
  "u64_bytes w = map (\<lambda>i. ucast (drop_bit (8 * i) w)) [0..<8]"

definition m0_fid_eq :: "m0_fid \<Rightarrow> m0_fid \<Rightarrow> bool" where
  "m0_fid_eq fid0 fid1 \<longleftrightarrow>
     u64_bytes (f_container fid0) @ u64_bytes (f_key fid0) = u64_bytes (f_container fid1) @ u64_bytes (f_key fid1)"

definition m0_fid_is_valid :: "fid_types \<Rightarrow> m0_fid \<Rightarrow> bool option" where
  "m0_fid_is_valid types fid = do {
     ft \<leftarrow> m0_fid_type_getfid types fid;
     Some (case ft of
             None \<Rightarrow> False
           | Some ft \<Rightarrow> (case ft_is_valid ft of None \<Rightarrow> True | Some is_valid \<Rightarrow> is_valid fid))
   }"

definition m0_fid_is_set :: "m0_fid \<Rightarrow> bool" where
  "m0_fid_is_set fid \<longleftrightarrow> \<not> m0_fid_eq fid \<lparr>f_container = 0, f_key = 0\<rparr>"

definition m0_fid_set :: "m0_fid \<Rightarrow> u64 \<Rightarrow> u64 \<Rightarrow> m0_fid" where
  "m0_fid_set fid container key = fid\<lparr>f_container := container, f_key := key\<rparr>"

definition m0_fid_tset :: "m0_fid \<Rightarrow> u8 \<Rightarrow> u64 \<Rightarrow> u64 \<Rightarrow> m0_fid" where
  "m0_fid_tset fid tid container key = m0_fid_set fid (M0_FID_TCONTAINER tid container) key"

definition m0_fid_tget :: "m0_fid \<Rightarrow> u8" where
  "m0_fid_tget fid = ucast (drop_bit 56 (f_container fid))"

definition m0_fid_tchange :: "fid_types \<Rightarrow> m0_fid \<Rightarrow> u8 \<Rightarrow> m0_fid option" where
  "m0_fid_tchange types fid tid = do {
     let fid = fid\<lparr>f_container := M0_FID_TCONTAINER tid (f_container fid)\<rparr>;
     valid \<leftarrow> m0_fid_is_valid types fid;
     M0_ASSERT valid;
     Some fid
   }"

definition m0_fid_tassume :: "fid_types \<Rightarrow> m0_fid \<Rightarrow> m0_fid_type \<Rightarrow> m0_fid option" where
  "m0_fid_tassume types fid ft = m0_fid_tchange types fid (ft_id ft)"

definition m0_fid_tgenerate :: "fid_types \<Rightarrow> m0_uint128 \<Rightarrow> u8 \<Rightarrow> m0_fid option" where
  "m0_fid_tgenerate types uuid tid = m0_fid_tchange types \<lparr>f_container = u_hi uuid, f_key = u_lo uuid\<rparr> tid"

definition m0_fid_cmp :: "m0_fid \<Rightarrow> m0_fid \<Rightarrow> int" where
  "m0_fid_cmp fid0 fid1 =
     m0_uint128_cmp \<lparr>u_hi = f_container fid0, u_lo = f_key fid0\<rparr> \<lparr>u_hi = f_container fid1, u_lo = f_key fid1\<rparr>"

definition M0_CIRCULAR_SHIFT_LEFT :: "u64 \<Rightarrow> nat \<Rightarrow> u64" where
  "M0_CIRCULAR_SHIFT_LEFT v b = push_bit b v OR drop_bit (64 - b) v"

definition m0_fid_hash :: "m0_fid \<Rightarrow> u64" where
  "m0_fid_hash fid = m0_hash (M0_CIRCULAR_SHIFT_LEFT (f_container fid) 3 XOR M0_CIRCULAR_SHIFT_LEFT (f_key fid) 17)"

subsection \<open>Arrays\<close>

text \<open>The argument tells whether the allocation succeeds; the elements beyond \<^verbatim>\<open>af_count\<close> do not belong to the array.\<close>

definition m0_fid_arr_copy :: "bool \<Rightarrow> m0_fid_arr \<Rightarrow> m0_fid_arr \<Rightarrow> int \<times> m0_fid_arr" where
  "m0_fid_arr_copy alloc_ok to from =
     (if \<not> alloc_ok then (- ENOMEM, to)
      else (0, to\<lparr>af_count := af_count from, af_elems := take (unat (af_count from)) (af_elems from)\<rparr>))"

definition m0_fid_arr_eq :: "m0_fid_arr \<Rightarrow> m0_fid_arr \<Rightarrow> bool" where
  "m0_fid_arr_eq a b \<longleftrightarrow>
     af_count b = af_count a \<and> (\<forall>i \<in> set [0..<unat (af_count a)]. m0_fid_eq (af_elems a ! i) (af_elems b ! i))"

fun unique_from :: "m0_fid \<Rightarrow> m0_fid list \<Rightarrow> bool" where
  "unique_from f [] = True"
| "unique_from f (g # gs) = (if m0_fid_eq f g then False else unique_from f gs)"

fun unique_loop :: "m0_fid list \<Rightarrow> bool" where
  "unique_loop [] = True"
| "unique_loop (f # fs) = (if unique_from f fs then unique_loop fs else False)"

definition m0_fid_arr_all_unique :: "m0_fid_arr \<Rightarrow> bool" where
  "m0_fid_arr_all_unique a = unique_loop (take (unat (af_count a)) (af_elems a))"

subsection \<open>Formatted input\<close>

text \<open>
  The directives of \<^verbatim>\<open>sscanf()\<close> that the code uses: white space, a character, \<^verbatim>\<open>%lx\<close>, \<^verbatim>\<open>%li\<close>, \<^verbatim>\<open>%c\<close> and \<^verbatim>\<open>%n\<close>.
  A scan gives the values it stores, in order, up to the first directive that fails. The input ends at its first NUL character.
\<close>

datatype directive = Ws | Lit char | Hex64 | Int64 | Byte | Count
datatype scanned = Val u64 | Ch u8 | Nob nat

definition isspace :: "char \<Rightarrow> bool" where
  "isspace c \<longleftrightarrow> (let n = of_char c :: nat in n = 32 \<or> 9 \<le> n \<and> n \<le> 13)"

definition digit :: "nat \<Rightarrow> char \<Rightarrow> nat option" where
  "digit b c =
     (let n = of_char c;
          d = (if 48 \<le> n \<and> n \<le> 57 then n - 48
               else if 97 \<le> n \<and> n \<le> 102 then n - 87
               else if 65 \<le> n \<and> n \<le> 70 then n - 55
               else b)
      in if d < b then Some d else None)"

fun scan_digits :: "nat \<Rightarrow> nat \<Rightarrow> string \<Rightarrow> nat \<times> string" where
  "scan_digits b acc [] = (acc, [])"
| "scan_digits b acc (c # s) =
     (case digit b c of None \<Rightarrow> (acc, c # s) | Some d \<Rightarrow> scan_digits b (acc * b + d) s)"

definition scan_number :: "nat \<Rightarrow> string \<Rightarrow> (nat \<times> string) option" where
  "scan_number b s = (let (n, r) = scan_digits b 0 s in if r = s then None else Some (n, r))"

fun has_0x :: "string \<Rightarrow> bool" where
  "has_0x (c # d # s) = (c = CHR ''0'' \<and> (d = CHR ''x'' \<or> d = CHR ''X''))"
| "has_0x s = False"

definition scan_hex :: "string \<Rightarrow> (nat \<times> string) option" where
  "scan_hex s = (if has_0x s then scan_number 16 (drop 2 s) else scan_number 16 s)"

definition scan_int :: "string \<Rightarrow> (nat \<times> string) option" where
  "scan_int s =
     (if has_0x s then scan_number 16 (drop 2 s)
      else if s \<noteq> [] \<and> hd s = CHR ''0'' then scan_number 8 s
      else scan_number 10 s)"

definition scan_sign :: "string \<Rightarrow> bool \<times> string" where
  "scan_sign s =
     (case s of
        [] \<Rightarrow> (False, s)
      | c # r \<Rightarrow> if c = CHR ''-'' then (True, r) else if c = CHR ''+'' then (False, r) else (False, s))"

definition strtoull :: "bool \<Rightarrow> nat \<Rightarrow> u64" where
  "strtoull neg n = (if n \<ge> 2 ^ 64 then - 1 else if neg then - of_nat n else of_nat n)"

definition strtoll :: "bool \<Rightarrow> nat \<Rightarrow> u64" where
  "strtoll neg n =
     (if neg then (if n > 2 ^ 63 then 2 ^ 63 else - of_nat n)
      else if n \<ge> 2 ^ 63 then 2 ^ 63 - 1 else of_nat n)"

fun scan :: "directive list \<Rightarrow> nat \<Rightarrow> string \<Rightarrow> scanned list" where
  "scan [] len s = []"
| "scan (Ws # ds) len s = scan ds len (dropWhile isspace s)"
| "scan (Lit c # ds) len s = (case s of [] \<Rightarrow> [] | d # r \<Rightarrow> if d = c then scan ds len r else [])"
| "scan (Hex64 # ds) len s =
     (let (neg, r) = scan_sign (dropWhile isspace s)
      in case scan_hex r of None \<Rightarrow> [] | Some (n, r) \<Rightarrow> Val (strtoull neg n) # scan ds len r)"
| "scan (Int64 # ds) len s =
     (let (neg, r) = scan_sign (dropWhile isspace s)
      in case scan_int r of None \<Rightarrow> [] | Some (n, r) \<Rightarrow> Val (strtoll neg n) # scan ds len r)"
| "scan (Byte # ds) len s = (case s of [] \<Rightarrow> [] | c # r \<Rightarrow> Ch (of_char c) # scan ds len r)"
| "scan (Count # ds) len s = Nob (len - length s) # scan ds len s"

definition c_string :: "string \<Rightarrow> string" where
  "c_string s = takeWhile (\<lambda>c. c \<noteq> CHR 0x00) s"

definition sscanf :: "directive list \<Rightarrow> string \<Rightarrow> scanned list" where
  "sscanf fmt s = scan fmt (length (c_string s)) (c_string s)"

text \<open>The assignment count, which excludes \<^verbatim>\<open>%n\<close>, and the stores to \<^verbatim>\<open>FID_S(fid)\<close>, \<^verbatim>\<open>&ft\<close> and \<^verbatim>\<open>nob\<close>.\<close>

fun scan_rc :: "scanned list \<Rightarrow> nat" where
  "scan_rc [] = 0"
| "scan_rc (Nob n # vs) = scan_rc vs"
| "scan_rc (v # vs) = Suc (scan_rc vs)"

fun scan_vals :: "scanned list \<Rightarrow> u64 list" where
  "scan_vals [] = []"
| "scan_vals (Val v # vs) = v # scan_vals vs"
| "scan_vals (v # vs) = scan_vals vs"

definition store_fid :: "scanned list \<Rightarrow> m0_fid \<Rightarrow> m0_fid" where
  "store_fid vs fid =
     (case scan_vals vs of
        [] \<Rightarrow> fid
      | [c] \<Rightarrow> fid\<lparr>f_container := c\<rparr>
      | c # k # _ \<Rightarrow> fid\<lparr>f_container := c, f_key := k\<rparr>)"

fun store_ft :: "scanned list \<Rightarrow> u8 \<Rightarrow> u8" where
  "store_ft [] ft = ft"
| "store_ft (Ch c # vs) ft = store_ft vs c"
| "store_ft (v # vs) ft = store_ft vs ft"

fun store_nob :: "scanned list \<Rightarrow> nat option \<Rightarrow> nat option" where
  "store_nob [] nob = nob"
| "store_nob (Nob n # vs) nob = store_nob vs (Some n)"
| "store_nob (v # vs) nob = store_nob vs nob"

definition FID_SF :: "directive list" where
  "FID_SF = [Ws, Lit CHR ''<'', Ws, Hex64, Ws, Lit CHR '':'', Ws, Hex64, Ws, Lit CHR ''>'', Ws]"

text \<open>
  The location behind \<^verbatim>\<open>nob\<close> is not initialised by the callers, which is \<^const>\<open>None\<close>; \<^verbatim>\<open>ft\<close>, a local variable, is not
  either, but it is read only after it is stored.
\<close>

definition fid_sscanf :: "fid_types \<Rightarrow> string \<Rightarrow> m0_fid \<Rightarrow> nat option \<Rightarrow> (int \<times> m0_fid \<times> nat option) option" where
  "fid_sscanf types s fid nob = do {
     let vs = sscanf (FID_SF @ [Ws, Count]) s;
     let fid = store_fid vs fid;
     let nob = store_nob vs nob;
     if scan_rc vs \<noteq> 2 then do {
       let vs = sscanf [Ws, Hex64, Ws, Lit CHR '':'', Ws, Hex64, Ws, Count] s;
       let fid = store_fid vs fid;
       let nob = store_nob vs nob;
       if scan_rc vs \<noteq> 2 then do {
         let vs = sscanf [Ws, Byte, Ws, Lit CHR ''|'', Ws, Int64, Ws, Lit CHR '':'', Ws, Int64, Ws, Count] s;
         let ft = store_ft vs 0;
         let fid = store_fid vs fid;
         let nob = store_nob vs nob;
         if scan_rc vs = 3 \<and> m0_fid_tget fid = 0 then do {
           fid \<leftarrow> m0_fid_tchange types fid ft;
           Some (0, fid, nob)
         } else Some (- EINVAL, fid, nob)
       } else Some (0, fid, nob)
     } else Some (0, fid, nob)
   }"

definition m0_fid_sscanf :: "fid_types \<Rightarrow> string \<Rightarrow> m0_fid \<Rightarrow> (int \<times> m0_fid) option" where
  "m0_fid_sscanf types s fid = do {
     (rc, fid, nob) \<leftarrow> fid_sscanf types s fid None;
     Some (rc, fid)
   }"

text \<open>The result of \<^verbatim>\<open>xt_read()\<close> is not determined (\<^const>\<open>None\<close>) when it returns the variable \<^verbatim>\<open>nr\<close> before it is set.\<close>

definition xt_read :: "fid_types \<Rightarrow> m0_fid \<Rightarrow> string \<Rightarrow> (int option \<times> m0_fid) option" where
  "xt_read types fid str = do {
     (result, fid, nr) \<leftarrow> fid_sscanf types str fid None;
     Some (if result = 0 then map_option int nr else Some result, fid)
   }"

subsection \<open>Formatted output\<close>

definition hexit :: "nat \<Rightarrow> char" where
  "hexit d = (if d < 10 then char_of (48 + d) else char_of (87 + d))"

fun hexits :: "nat \<Rightarrow> string" where
  "hexits n = (if n < 16 then [hexit n] else hexits (n div 16) @ [hexit (n mod 16)])"

definition m0_fid_print :: "nat \<Rightarrow> m0_fid \<Rightarrow> (int \<times> string) option" where
  "m0_fid_print s_len fid = do {
     M0_ASSERT (s_len \<ge> M0_FID_STR_LEN);
     let s = hexits (unat (f_container fid)) @ '':'' @ hexits (unat (f_key fid));
     let rc = int (length s);
     if rc < 0 \<or> rc \<ge> int s_len then Some (- EINVAL, take (s_len - 1) s) else Some (rc, s)
   }"

declare hexits.simps [simp del]

text \<open>The macro \<^verbatim>\<open>FID_F\<close>, with which messages show fids.\<close>

definition FID_F :: "m0_fid \<Rightarrow> string" where
  "FID_F fid = ''<'' @ hexits (unat (f_container fid)) @ '':'' @ hexits (unat (f_key fid)) @ ''>''"

definition misc :: m0_fid_type where
  "misc = \<lparr>ft_addr = 0, ft_id = 0, ft_name = Some ''miscellaneous'', ft_is_valid = None\<rparr>"

definition m0_fid_init :: "fid_types \<Rightarrow> (int \<times> fid_types) option" where
  "m0_fid_init types = do {
     types \<leftarrow> m0_fid_type_register types misc;
     Some (0, types)
   }"

definition m0_fid_fini :: "fid_types \<Rightarrow> fid_types option" where
  "m0_fid_fini types = m0_fid_type_unregister types misc"

section \<open>Equality and order\<close>

lemma u64_bytes_inj: "u64_bytes v = u64_bytes w \<longleftrightarrow> v = w"
proof
  assume eq: "u64_bytes v = u64_bytes w"
  show "v = w"
  proof (rule bit_word_eqI)
    fix n
    assume "n < LENGTH(64)"
    then have n: "n div 8 < 8" "n mod 8 < 8" "8 * (n div 8) + n mod 8 = n" by simp_all
    have "(ucast (drop_bit (8 * (n div 8)) v) :: u8) = ucast (drop_bit (8 * (n div 8)) w)"
      using arg_cong [OF eq, of "\<lambda>bs. bs ! (n div 8)"] n(1) by (simp add: u64_bytes_def)
    then have "bit (ucast (drop_bit (8 * (n div 8)) v) :: u8) (n mod 8) = bit (ucast (drop_bit (8 * (n div 8)) w) :: u8) (n mod 8)"
      by simp
    then show "bit v n = bit w n" using n(2,3) by (simp add: bit_ucast_iff bit_drop_bit_eq)
  qed
qed simp

lemma length_u64_bytes [simp]: "length (u64_bytes w) = 8"
  by (simp add: u64_bytes_def)

lemma m0_fid_eq_iff [simp]: "m0_fid_eq f g \<longleftrightarrow> f = g"
  unfolding m0_fid_eq_def by (cases f; cases g) (simp add: u64_bytes_inj)

text \<open>The order of fids: by container, then by key.\<close>

instantiation m0_fid_ext :: (linorder) linorder
begin

definition less_eq_m0_fid_ext :: "'a m0_fid_scheme \<Rightarrow> 'a m0_fid_scheme \<Rightarrow> bool" where
  "less_eq_m0_fid_ext f g \<longleftrightarrow> f_container f < f_container g \<or> f_container f = f_container g \<and>
     (f_key f < f_key g \<or> f_key f = f_key g \<and> m0_fid.more f \<le> m0_fid.more g)"

definition less_m0_fid_ext :: "'a m0_fid_scheme \<Rightarrow> 'a m0_fid_scheme \<Rightarrow> bool" where
  "less_m0_fid_ext f g \<longleftrightarrow> f_container f < f_container g \<or> f_container f = f_container g \<and>
     (f_key f < f_key g \<or> f_key f = f_key g \<and> m0_fid.more f < m0_fid.more g)"

instance
  by standard (auto simp: less_eq_m0_fid_ext_def less_m0_fid_ext_def intro: m0_fid.equality)

end

lemma fid_cmp_cases: "m0_fid_cmp f g = (if f < g then - 1 else if f = g then 0 else 1)"
  by (cases f; cases g)
    (auto simp: m0_fid_cmp_def m0_uint128_cmp_def M0_3WAY_def Let_def less_m0_fid_ext_def)

lemma unique_loop_distinct: "unique_loop fs \<longleftrightarrow> distinct fs"
proof -
  have uf: "unique_from f gs \<longleftrightarrow> f \<notin> set gs" for f gs by (induction gs) auto
  show ?thesis by (induction fs) (auto simp: uf)
qed

section \<open>The type byte\<close>

lemma bit_type_mask: "bit M0_FID_TYPE_MASK n \<longleftrightarrow> n < 56"
proof -
  have "M0_FID_TYPE_MASK = mask 56" by (simp add: M0_FID_TYPE_MASK_def mask_eq_exp_minus_1)
  then have "bit M0_FID_TYPE_MASK n = bit (mask 56 :: u64) n" by simp
  then show ?thesis by (simp only: bit_mask_iff) auto
qed

lemma bit_tcontainer:
  "n < 64 \<Longrightarrow> bit (M0_FID_TCONTAINER tid c) n \<longleftrightarrow> (if n < 56 then bit c n else bit tid (n - 56))"
  by (auto simp: M0_FID_TCONTAINER_def bit_or_iff bit_and_iff bit_push_bit_iff bit_ucast_iff bit_type_mask)

lemma tget_tcontainer [simp]: "ucast (drop_bit 56 (M0_FID_TCONTAINER tid c)) = (tid :: u8)"
  by (rule bit_word_eqI) (simp add: bit_ucast_iff bit_drop_bit_eq bit_tcontainer)

lemma tcontainer_again: "M0_FID_TCONTAINER t (M0_FID_TCONTAINER u c) = M0_FID_TCONTAINER t c"
  by (rule bit_word_eqI) (simp add: bit_tcontainer)

lemma tcontainer_own: "M0_FID_TCONTAINER (ucast (drop_bit 56 c)) c = c"
  by (rule bit_word_eqI) (auto simp: bit_tcontainer bit_ucast_iff bit_drop_bit_eq)

section \<open>Scanning what was printed\<close>

lemma hexit_digit [simp]: "d < 16 \<Longrightarrow> digit 16 (hexit d) = Some d"
  by (simp add: digit_def hexit_def Let_def)

lemma set_hexits: "set (hexits n) \<subseteq> hexit ` {..<16}"
  by (induction n rule: hexits.induct) (subst hexits.simps, auto)

lemma hexits_Cons: "\<exists>d r. hexits n = hexit d # r \<and> d < 16"
proof (induction n rule: hexits.induct)
  case (1 n)
  show ?case
  proof (cases "n < 16")
    case True
    then show ?thesis by (subst hexits.simps) auto
  next
    case False
    then obtain d r where "hexits (n div 16) = hexit d # r" "d < 16" using 1 by blast
    then show ?thesis using False by (subst hexits.simps) auto
  qed
qed

lemma hexit_plain:
  assumes "d < 16"
  shows "\<not> isspace (hexit d)" "hexit d \<noteq> CHR ''-''" "hexit d \<noteq> CHR ''+''" "hexit d \<noteq> CHR ''x''" "hexit d \<noteq> CHR ''X''"
    "hexit d \<noteq> CHR ''<''" "hexit d \<noteq> CHR 0x00"
proof -
  have n: "(of_char (hexit d) :: nat) = (if d < 10 then 48 + d else 87 + d)" using assms by (simp add: hexit_def)
  then have ne: "hexit d \<noteq> c" if "(of_char c :: nat) \<noteq> (if d < 10 then 48 + d else 87 + d)" for c using that by auto
  show "\<not> isspace (hexit d)" using assms by (simp add: isspace_def n)
  show "hexit d \<noteq> CHR ''-''" "hexit d \<noteq> CHR ''+''" "hexit d \<noteq> CHR ''x''" "hexit d \<noteq> CHR ''X''" "hexit d \<noteq> CHR ''<''"
    "hexit d \<noteq> CHR 0x00"
    using assms by (intro ne, simp)+
qed

lemma scan_hexits:
  "scan_digits 16 acc (hexits n @ t) = scan_digits 16 (acc * 16 ^ length (hexits n) + n) t"
proof (induction n arbitrary: acc t rule: hexits.induct)
  case (1 n)
  show ?case
  proof (cases "n < 16")
    case True
    then show ?thesis by (subst (1 2) hexits.simps) simp
  next
    case False
    then have eq: "hexits n = hexits (n div 16) @ [hexit (n mod 16)]" by (subst hexits.simps) simp
    have "(acc * 16 ^ length (hexits (n div 16)) + n div 16) * 16 + n mod 16 = acc * 16 ^ length (hexits n) + n"
      by (simp add: eq algebra_simps)
    then show ?thesis using 1 [OF False, of acc "hexit (n mod 16) # t"] unfolding eq by (simp add: mult.commute mult.left_commute add.commute)
  qed
qed

text \<open>A number ends where the input does, or at a character that can be part of no hexadecimal number.\<close>

definition stops :: "string \<Rightarrow> bool" where
  "stops t \<longleftrightarrow> t = [] \<or> digit 16 (hd t) = None \<and> hd t \<noteq> CHR ''x'' \<and> hd t \<noteq> CHR ''X''"

lemma scan_number_hexits:
  assumes "stops t"
  shows "scan_number 16 (hexits n @ t) = Some (n, t)"
proof -
  have "scan_digits 16 n t = (n, t)" using assms by (cases t) (auto simp: stops_def)
  moreover have "hexits n \<noteq> []" using hexits_Cons [of n] by auto
  ultimately show ?thesis
    by (simp add: scan_number_def scan_hexits Let_def)
qed

lemma hexits_start:
  assumes "stops t"
  shows "\<not> has_0x (hexits n @ t)" "dropWhile isspace (hexits n @ t) = hexits n @ t" "scan_sign (hexits n @ t) = (False, hexits n @ t)"
proof -
  obtain d r where n: "hexits n = hexit d # r" "d < 16" using hexits_Cons by blast
  have r: "set r \<subseteq> hexit ` {..<16}" using set_hexits [of n] n by simp
  show "dropWhile isspace (hexits n @ t) = hexits n @ t" "scan_sign (hexits n @ t) = (False, hexits n @ t)"
    using hexit_plain [OF n(2)] by (simp_all add: n scan_sign_def)
  have "hd (r @ t) \<noteq> CHR ''x'' \<and> hd (r @ t) \<noteq> CHR ''X''" if "r @ t \<noteq> []"
  proof (cases r)
    case (Cons c r')
    then obtain d where "c = hexit d" "d < 16" using r by auto
    then show ?thesis using hexit_plain(4,5) [of d] by (simp add: Cons)
  qed (use that assms in \<open>auto simp: stops_def\<close>)
  then show "\<not> has_0x (hexits n @ t)" by (cases "r @ t") (auto simp: n)
qed

lemma scan_Hex64_hexits:
  assumes "stops t" "n < 2 ^ 64"
  shows "scan (Hex64 # ds) len (hexits n @ t) = Val (of_nat n) # scan ds len t"
  using assms scan_number_hexits [OF assms(1), of n] hexits_start [OF assms(1), of n]
  by (simp add: scan_hex_def strtoull_def)

lemma stops_simps [simp]: "stops []" "stops (CHR '':'' # t)" "stops (CHR ''>'' # t)"
  by (simp_all add: stops_def digit_def Let_def)

lemma c_string_id: "CHR 0x00 \<notin> set s \<Longrightarrow> c_string s = s"
  unfolding c_string_def by (auto simp: takeWhile_eq_all_conv)

lemma hexits_nul [simp]: "CHR 0x00 \<notin> set (hexits n)"
  using set_hexits [of n] hexit_plain(7) by fastforce

lemma scan_fid_hexits:
  assumes "n < 2 ^ 64" "k < 2 ^ 64"
  shows "sscanf [Ws, Hex64, Ws, Lit CHR '':'', Ws, Hex64, Ws, Count] (hexits n @ CHR '':'' # hexits k) =
    [Val (of_nat n), Val (of_nat k), Nob (length (hexits n) + 1 + length (hexits k))]"
  using scan_Hex64_hexits [of "CHR '':'' # hexits k" n] scan_Hex64_hexits [of "[]" k] hexits_start(2) [of "CHR '':'' # hexits k" n]
    hexits_start(2) [of "[]" k] assms
  by (simp add: sscanf_def c_string_id isspace_def del: scan.simps(4))

lemma scan_braces_plain:
  "sscanf (FID_SF @ ds) (hexits n @ t) = []" if "stops t" "CHR 0x00 \<notin> set t"
proof -
  obtain d r where n: "hexits n = hexit d # r" "d < 16" using hexits_Cons by blast
  then show ?thesis using hexits_start(2) [OF that(1), of n] hexit_plain(6,7) [of d] that(2) hexits_nul [of n]
    by (simp add: sscanf_def c_string_id FID_SF_def)
qed

lemma scan_braces:
  assumes "n < 2 ^ 64" "k < 2 ^ 64"
  shows "sscanf (FID_SF @ [Ws, Count]) (CHR ''<'' # hexits n @ CHR '':'' # hexits k @ ''>'') =
    [Val (of_nat n), Val (of_nat k), Nob (length (hexits n) + length (hexits k) + 3)]"
  using scan_Hex64_hexits [of "CHR '':'' # hexits k @ ''>''" n] scan_Hex64_hexits [of "''>''" k]
    hexits_start(2) [of "CHR '':'' # hexits k @ ''>''" n] hexits_start(2) [of "''>''" k] assms
  by (simp add: sscanf_def c_string_id FID_SF_def isspace_def del: scan.simps(4))

lemma length_hexits: "n < 16 ^ k \<Longrightarrow> 0 < k \<Longrightarrow> length (hexits n) \<le> k"
proof (induction n arbitrary: k rule: hexits.induct)
  case (1 n)
  show ?case
  proof (cases "n < 16")
    case True
    then show ?thesis using 1(3) by (subst hexits.simps) simp
  next
    case False
    then have "1 < k" using 1(2) by (cases "k = 0"; cases "k = 1") auto
    moreover have "n div 16 < 16 ^ (k - 1)" using 1(2) calculation by (cases k) (simp_all add: less_mult_imp_div_less mult.commute)
    ultimately show ?thesis using 1(1) [OF False, of "k - 1"] False by (subst hexits.simps) simp
  qed
qed

lemma store_fid_both: "scan_vals vs = [c, k] \<Longrightarrow> store_fid vs fid = \<lparr>f_container = c, f_key = k\<rparr>"
  by (cases fid) (simp add: store_fid_def)

section \<open>The typed form\<close>

text \<open>
  The numerals that the documentation of the form allows: hexadecimal after \<open>0x\<close>, octal after \<open>0\<close>, decimal otherwise, with an optional sign;
  and their value.
\<close>

definition digits_of :: "nat \<Rightarrow> string \<Rightarrow> bool" where
  "digits_of b s \<longleftrightarrow> s \<noteq> [] \<and> list_all (\<lambda>c. digit b c \<noteq> None) s"

definition digits_value :: "nat \<Rightarrow> nat \<Rightarrow> string \<Rightarrow> nat" where
  "digits_value b acc s = foldl (\<lambda>acc c. acc * b + the (digit b c)) acc s"

definition nat_numeral :: "string \<Rightarrow> nat option" where
  "nat_numeral s =
     (if has_0x s then (if digits_of 16 (drop 2 s) then Some (digits_value 16 0 (drop 2 s)) else None)
      else if s \<noteq> [] \<and> hd s = CHR ''0'' then (if digits_of 8 s then Some (digits_value 8 0 s) else None)
      else if digits_of 10 s then Some (digits_value 10 0 s) else None)"

definition int_numeral :: "string \<Rightarrow> int option" where
  "int_numeral s =
     (if s \<noteq> [] \<and> hd s = CHR ''-'' then map_option (\<lambda>n. - int n) (nat_numeral (tl s))
      else if s \<noteq> [] \<and> hd s = CHR ''+'' then map_option int (nat_numeral (tl s))
      else map_option int (nat_numeral s))"

definition saturate :: "int \<Rightarrow> int" where
  "saturate z = max (- (2 ^ 63)) (min (2 ^ 63 - 1) z)"

text \<open>A character for the type, a bar, the container, a colon and the key, with white space anywhere between.\<close>

definition typed_form :: "(nat \<Rightarrow> string) \<Rightarrow> char \<Rightarrow> string \<Rightarrow> string \<Rightarrow> string" where
  "typed_form ws ch a b = ws 0 @ ch # ws 1 @ CHR ''|'' # ws 2 @ a @ ws 3 @ CHR '':'' # ws 4 @ b @ ws 5"

lemma digit_16_None: "digit 16 c = None \<Longrightarrow> b \<le> 16 \<Longrightarrow> digit b c = None"
  by (auto simp: digit_def Let_def split: if_splits)

lemma digit_plain:
  assumes "digit b c \<noteq> None"
  shows "\<not> isspace c" "c \<noteq> CHR ''-''" "c \<noteq> CHR ''+''" "c \<noteq> CHR ''x''" "c \<noteq> CHR ''X''" "c \<noteq> CHR 0x00"
proof -
  let ?n = "of_char c :: nat"
  have n: "48 \<le> ?n \<and> ?n \<le> 57 \<or> 97 \<le> ?n \<and> ?n \<le> 102 \<or> 65 \<le> ?n \<and> ?n \<le> 70"
    using assms by (auto simp: digit_def Let_def split: if_splits)
  then have ne: "c \<noteq> d" if "\<not> (48 \<le> (of_char d :: nat) \<and> (of_char d :: nat) \<le> 57 \<or>
      97 \<le> (of_char d :: nat) \<and> (of_char d :: nat) \<le> 102 \<or> 65 \<le> (of_char d :: nat) \<and> (of_char d :: nat) \<le> 70)" for d
    using that by blast
  show "\<not> isspace c" using n by (auto simp: isspace_def)
  show "c \<noteq> CHR ''-''" "c \<noteq> CHR ''+''" "c \<noteq> CHR ''x''" "c \<noteq> CHR ''X''" "c \<noteq> CHR 0x00"
    by (intro ne, simp)+
qed

lemma scan_digits_value:
  assumes "list_all (\<lambda>c. digit b c \<noteq> None) s" "t = [] \<or> digit b (hd t) = None"
  shows "scan_digits b acc (s @ t) = (digits_value b acc s, t)"
  using assms(1)
proof (induction s arbitrary: acc)
  case Nil
  then show ?case using assms(2) by (cases t) (simp_all add: digits_value_def)
qed (auto simp: digits_value_def)

lemma scan_number_value:
  assumes "digits_of b s" "stops t" "b \<le> 16"
  shows "scan_number b (s @ t) = Some (digits_value b 0 s, t)"
proof -
  have "t = [] \<or> digit b (hd t) = None" using assms(2,3) digit_16_None by (auto simp: stops_def)
  then show ?thesis using assms(1) scan_digits_value [of b s t 0] by (simp add: scan_number_def digits_of_def)
qed

lemma digits_no_0x:
  assumes "digits_of b s" "stops t"
  shows "\<not> has_0x (s @ t)"
proof (cases s)
  case (Cons c r)
  then show ?thesis using assms digit_plain(4,5) [of b "hd r"]
    by (cases r; cases t) (auto simp: digits_of_def stops_def)
qed (use assms in \<open>simp add: digits_of_def\<close>)

lemma has_0x_append: "has_0x s \<Longrightarrow> has_0x (s @ t) \<and> drop 2 (s @ t) = drop 2 s @ t"
  by (cases s rule: has_0x.cases) auto

lemma scan_int_value:
  assumes "nat_numeral s = Some n" "stops t"
  shows "scan_int (s @ t) = Some (n, t)"
proof (cases "has_0x s")
  case True
  then show ?thesis using assms has_0x_append [OF True, of t] scan_number_value [of 16 "drop 2 s" t]
    by (simp add: nat_numeral_def scan_int_def split: if_splits)
next
  case False
  then have d: "digits_of 8 s \<and> hd s = CHR ''0'' \<and> n = digits_value 8 0 s \<or>
      digits_of 10 s \<and> hd s \<noteq> CHR ''0'' \<and> n = digits_value 10 0 s" "s \<noteq> []"
    using assms(1) by (auto simp: nat_numeral_def digits_of_def split: if_splits)
  then have "\<not> has_0x (s @ t)" using digits_no_0x [OF _ assms(2)] by blast
  then show ?thesis using d scan_number_value [OF _ assms(2), of 8 s] scan_number_value [OF _ assms(2), of 10 s]
    by (auto simp: scan_int_def)
qed

lemma nat_numeral_hd: "nat_numeral s = Some n \<Longrightarrow> s \<noteq> [] \<and> digit 10 (hd s) \<noteq> None"
proof -
  assume n: "nat_numeral s = Some n"
  have "digit 10 CHR ''0'' \<noteq> None" by (simp add: digit_def Let_def)
  then show ?thesis using n
    by (cases s rule: has_0x.cases) (auto simp: nat_numeral_def digits_of_def split: if_splits)
qed

lemma nat_numeral_plain:
  assumes "nat_numeral s = Some n"
  shows "s \<noteq> []" "\<not> isspace (hd s)" "hd s \<noteq> CHR ''-''" "hd s \<noteq> CHR ''+''" "CHR 0x00 \<notin> set s"
proof -
  show "s \<noteq> []" "\<not> isspace (hd s)" "hd s \<noteq> CHR ''-''" "hd s \<noteq> CHR ''+''"
    using nat_numeral_hd [OF assms] digit_plain [of 10 "hd s"] by blast+
  have ds: "CHR 0x00 \<notin> set ds" if "digits_of b ds" for b ds
    using that digit_plain(6) by (fastforce simp: digits_of_def list_all_iff)
  show "CHR 0x00 \<notin> set s"
  proof (cases "has_0x s")
    case True
    then show ?thesis using assms ds [of 16 "drop 2 s"]
      by (cases s rule: has_0x.cases) (auto simp: nat_numeral_def split: if_splits)
  next
    case False
    then show ?thesis using assms ds [of 8 s] ds [of 10 s] by (auto simp: nat_numeral_def split: if_splits)
  qed
qed

lemma strtoll_saturate:
  "strtoll False n = word_of_int (saturate (int n))" "strtoll True n = word_of_int (saturate (- int n))"
proof -
  have "strtoll False n = (if 2 ^ 63 - 1 < int n then 2 ^ 63 - 1 else word_of_int (int n))"
    by (auto simp: strtoll_def)
  then show "strtoll False n = word_of_int (saturate (int n))" by (simp add: saturate_def)
  have "strtoll True n = (if 2 ^ 63 < int n then 2 ^ 63 else word_of_int (- int n))"
    by (auto simp: strtoll_def)
  then show "strtoll True n = word_of_int (saturate (- int n))" by (auto simp: saturate_def max_def min_def)
qed

definition blanks :: "string \<Rightarrow> bool" where
  "blanks w \<longleftrightarrow> list_all isspace w"

lemma blanks_drop: "blanks w \<Longrightarrow> dropWhile isspace (w @ s) = dropWhile isspace s"
  unfolding blanks_def list_all_iff by (rule dropWhile_append2) blast

lemma blank_plain:
  assumes "isspace c"
  shows "digit b c = None" "c \<noteq> CHR ''x''" "c \<noteq> CHR ''X''" "c \<noteq> CHR ''0''" "c \<noteq> CHR 0x00"
proof -
  show "digit b c = None" using assms digit_plain(1) [of b c] by blast
  show "c \<noteq> CHR ''x''" "c \<noteq> CHR ''X''" "c \<noteq> CHR ''0''" "c \<noteq> CHR 0x00"
    using assms by (auto simp: isspace_def)
qed

lemma isspace_delims [simp]: "\<not> isspace CHR ''|''" "\<not> isspace CHR '':''" "\<not> isspace CHR ''<''"
  by (simp_all add: isspace_def)

lemma stops_blanks: "blanks w \<Longrightarrow> stops t \<Longrightarrow> stops (w @ t)"
  using blank_plain by (cases w) (auto simp: stops_def blanks_def)

lemma blanks_nul: "blanks w \<Longrightarrow> CHR 0x00 \<notin> set w"
  using blank_plain(5) by (auto simp: blanks_def list_all_iff)

lemma int_numeral_nul: "int_numeral s = Some z \<Longrightarrow> CHR 0x00 \<notin> set s"
proof (cases s)
  case (Cons c r)
  assume "int_numeral s = Some z"
  then have "(\<exists>n. nat_numeral s = Some n) \<or> (c = CHR ''-'' \<or> c = CHR ''+'') \<and> (\<exists>n. nat_numeral r = Some n)"
    by (auto simp: int_numeral_def Cons split: if_splits)
  then show ?thesis
  proof
    assume "\<exists>n. nat_numeral s = Some n"
    then show ?thesis using nat_numeral_plain(5) by blast
  next
    assume r: "(c = CHR ''-'' \<or> c = CHR ''+'') \<and> (\<exists>n. nat_numeral r = Some n)"
    then have "CHR 0x00 \<notin> set r" using nat_numeral_plain(5) by blast
    then show ?thesis using r by (auto simp: Cons)
  qed
qed simp

lemma scan_Int64_value:
  assumes "blanks w" "int_numeral s = Some z" "stops t"
  shows "scan (Int64 # ds) len (w @ s @ t) = Val (word_of_int (saturate z)) # scan ds len t"
proof -
  obtain neg r n where s: "scan_sign (dropWhile isspace (s @ t)) = (neg, r @ t)" "nat_numeral r = Some n"
    "strtoll neg n = word_of_int (saturate z)"
  proof (cases "s \<noteq> [] \<and> (hd s = CHR ''-'' \<or> hd s = CHR ''+'')")
    case True
    then obtain c r where "s = c # r" "c = CHR ''-'' \<or> c = CHR ''+''" by (cases s) auto
    then show ?thesis using assms(2) that [of "c = CHR ''-''" r]
      by (auto simp: int_numeral_def isspace_def scan_sign_def strtoll_saturate)
  next
    case False
    then obtain n where n: "nat_numeral s = Some n" "z = int n" using assms(2) by (auto simp: int_numeral_def)
    then show ?thesis using nat_numeral_plain [OF n(1)] that [of False s n]
      by (cases s) (auto simp: scan_sign_def strtoll_saturate)
  qed
  then show ?thesis using scan_int_value [OF s(2) assms(3)] by (simp add: blanks_drop [OF assms(1)])
qed

lemma stops_bar [simp]: "stops (CHR ''|'' # t)"
  by (simp add: stops_def digit_def Let_def)

lemma has_0x_stops: "stops t \<Longrightarrow> \<not> has_0x t"
  by (cases t rule: has_0x.cases) (auto simp: stops_def digit_def Let_def)

text \<open>The conversion \<^verbatim>\<open>%lx\<close> of the forms before reads nothing of a typed form but, at most, its type character.\<close>

lemma scan_Hex64_bar:
  assumes "blanks w"
  shows "scan (Hex64 # ds) len (w @ CHR ''|'' # t) = []"
  using has_0x_stops [of "CHR ''|'' # t"]
  by (simp add: blanks_drop [OF assms] scan_sign_def scan_hex_def scan_number_def digit_def)

lemma scan_number_stops: "stops t \<Longrightarrow> scan_number 16 t = None" "stops t \<Longrightarrow> \<not> has_0x (c # t)"
  by (cases t; auto simp: scan_number_def stops_def)+

lemma scan_number_one:
  "stops t \<Longrightarrow> scan_number 16 (c # t) = (case digit 16 c of None \<Rightarrow> None | Some d \<Rightarrow> Some (d, t))"
  by (cases t) (auto simp: scan_number_def stops_def split: option.splits)

lemma typed_nul:
  assumes "\<forall>i. blanks (ws i)" "ch \<noteq> CHR 0x00" "int_numeral a = Some zc" "int_numeral b = Some zk"
  shows "CHR 0x00 \<notin> set (typed_form ws ch a b)"
  using assms blanks_nul int_numeral_nul by (simp add: typed_form_def)

lemma typed_braces:
  assumes "\<forall>i. blanks (ws i)" "\<not> isspace ch" "CHR 0x00 \<notin> set (typed_form ws ch a b)"
  shows "sscanf (FID_SF @ ds) (typed_form ws ch a b) = []"
proof -
  have "scan (Hex64 # ds') len (CHR ''|'' # t) = []" for ds' len t
    using scan_Hex64_bar [of "[]"] by (simp add: blanks_def del: scan.simps(4))
  then show ?thesis
    unfolding sscanf_def c_string_id [OF assms(3)]
    using assms(1,2) by (simp add: FID_SF_def typed_form_def blanks_drop del: scan.simps(4))
qed

lemma typed_plain:
  assumes "\<forall>i. blanks (ws i)" "\<not> isspace ch" "CHR 0x00 \<notin> set (typed_form ws ch a b)"
  shows "scan_rc (sscanf [Ws, Hex64, Ws, Lit CHR '':'', Ws, Hex64, Ws, Count] (typed_form ws ch a b)) \<noteq> 2"
proof -
  let ?t = "ws 1 @ CHR ''|'' # ws 2 @ a @ ws 3 @ CHR '':'' # ws 4 @ b @ ws 5"
  have t: "stops ?t" "dropWhile isspace ?t = CHR ''|'' # ws 2 @ a @ ws 3 @ CHR '':'' # ws 4 @ b @ ws 5"
    using assms(1) stops_blanks [of "ws 1"] blanks_drop [of "ws 1"] by simp_all
  have "scan_hex ?t = None" using scan_number_stops(1) [OF t(1)] has_0x_stops [OF t(1)] by (simp add: scan_hex_def)
  moreover have "scan_hex (ch # ?t) = (case digit 16 ch of None \<Rightarrow> None | Some d \<Rightarrow> Some (d, ?t))"
    using scan_number_stops(2) [OF t(1)] scan_number_one [OF t(1)] by (simp add: scan_hex_def)
  ultimately show ?thesis
    unfolding sscanf_def c_string_id [OF assms(3)]
    using assms(1,2) t(2) by (auto simp: typed_form_def blanks_drop scan_sign_def split: option.splits)
qed

lemma typed_scan:
  assumes "\<forall>i. blanks (ws i)" "\<not> isspace ch" "CHR 0x00 \<notin> set (typed_form ws ch a b)"
    "int_numeral a = Some zc" "int_numeral b = Some zk"
  shows "sscanf [Ws, Byte, Ws, Lit CHR ''|'', Ws, Int64, Ws, Lit CHR '':'', Ws, Int64, Ws, Count] (typed_form ws ch a b) =
    [Ch (of_char ch), Val (word_of_int (saturate zc)), Val (word_of_int (saturate zk)), Nob (length (typed_form ws ch a b))]"
proof -
  have sc: "scan (Int64 # ds) len (dropWhile isspace (a @ ws 3 @ CHR '':'' # t)) =
      Val (word_of_int (saturate zc)) # scan ds len (ws 3 @ CHR '':'' # t)" for ds len t
    using scan_Int64_value [of "[]" a zc "ws 3 @ CHR '':'' # t" ds len] assms(1,4)
    by (simp add: stops_blanks blanks_def)
  have sk: "scan (Int64 # ds) len (dropWhile isspace (b @ ws 5)) = Val (word_of_int (saturate zk)) # scan ds len (ws 5)" for ds len
    using scan_Int64_value [of "[]" b zk "ws 5" ds len] assms(1,5) stops_blanks [of "ws 5" "[]"] by (simp add: blanks_def)
  have ws5: "dropWhile isspace (ws 5) = []" using blanks_drop [of "ws 5" "[]"] assms(1) by simp
  show ?thesis
    unfolding sscanf_def c_string_id [OF assms(3)]
    using assms(1,2) sc sk by (simp add: typed_form_def blanks_drop ws5 del: scan.simps(5))
qed

text \<open>The container of the form lacks the type: its upper byte is clear exactly when the number is in range.\<close>

lemma tget_small: "(ucast (drop_bit 56 (w :: u64)) :: u8) = 0 \<longleftrightarrow> unat w < 2 ^ 56"
proof -
  have "unat (ucast (drop_bit 56 w) :: u8) = unat w div 2 ^ 56 mod 2 ^ 8"
    by (simp add: unsigned_ucast_eq take_bit_eq_mod unat_div drop_bit_eq_div)
  moreover have "unat w div 2 ^ 56 < 2 ^ 8"
    using unat_lt_u64 [of w] by (simp add: less_mult_imp_div_less)
  ultimately have "unat (ucast (drop_bit 56 w) :: u8) = unat w div 2 ^ 56" by simp
  then have "(ucast (drop_bit 56 w) :: u8) = 0 \<longleftrightarrow> unat w div 2 ^ 56 = 0"
    by (metis unat_eq_zero)
  then show ?thesis by (simp add: div_eq_0_iff)
qed

lemma tget_saturate:
  "(ucast (drop_bit 56 (word_of_int (saturate z) :: u64)) :: u8) = 0 \<longleftrightarrow> 0 \<le> z \<and> z < 2 ^ 56"
proof -
  let ?s = "saturate z"
  have u: "int (unat (word_of_int ?s :: u64)) = ?s mod 2 ^ 64"
    by (simp add: unat_eq_nat_uint uint_word_of_int)
  have "?s mod 2 ^ 64 < 2 ^ 56 \<longleftrightarrow> 0 \<le> z \<and> z < 2 ^ 56"
  proof (cases "0 \<le> z")
    case True
    then have "?s mod 2 ^ 64 = min (2 ^ 63 - 1) z" by (simp add: saturate_def)
    then show ?thesis using True by auto
  next
    case False
    then have s: "?s = max (- (2 ^ 63)) z" by (simp add: saturate_def)
    have "?s mod 2 ^ 64 = (?s + 2 ^ 64) mod 2 ^ 64" by simp
    also have "\<dots> = ?s + 2 ^ 64" using False s by (intro mod_pos_pos_trivial) auto
    finally show ?thesis using False s by auto
  qed
  moreover have "unat (word_of_int ?s :: u64) < 2 ^ 56 \<longleftrightarrow> int (unat (word_of_int ?s :: u64)) < 2 ^ 56"
    using of_nat_less_iff [of "unat (word_of_int ?s :: u64)" "2 ^ 56", where 'a = int] by (simp only: of_nat_power of_nat_numeral)
  ultimately show ?thesis using u tget_small by metis
qed

text \<open>Without the closing brace the fid is accepted, but the number of characters is never stored.\<close>

lemma fid_scan_open_brace: "xt_read types old ''<1:2'' = Some (None, M0_FID_INIT 1 2)"
  by (cases old)
    (simp add: xt_read_def fid_sscanf_def sscanf_def c_string_def FID_SF_def isspace_def scan_sign_def scan_hex_def scan_number_def digit_def
      strtoull_def store_fid_def M0_FID_INIT_def Let_def)

section \<open>Properties\<close>

text \<open>
  C29. \<^verbatim>\<open>m0_fid_cmp()\<close> is the comparison of a linear order on fids, \<^verbatim>\<open>m0_fid_eq()\<close>, which compares bytes, is its equality,
  and \<^verbatim>\<open>m0_fid_arr_all_unique()\<close> decides whether the fids of an array are distinct.
\<close>

theorem fid_order:
  fixes f g :: m0_fid
  shows "(m0_fid_cmp f g < 0 \<longleftrightarrow> f < g) \<and> (m0_fid_cmp f g = 0 \<longleftrightarrow> m0_fid_eq f g) \<and> (m0_fid_cmp f g > 0 \<longleftrightarrow> g < f) \<and>
    (m0_fid_eq f g \<longleftrightarrow> f = g) \<and> m0_fid_cmp g f = - m0_fid_cmp f g \<and>
    (m0_fid_arr_all_unique arr \<longleftrightarrow> distinct (take (unat (af_count arr)) (af_elems arr)))"
  by (auto simp: fid_cmp_cases m0_fid_arr_all_unique_def unique_loop_distinct)

text \<open>
  C27. Every fid is printed in full by \<^verbatim>\<open>m0_fid_print()\<close>, and what is printed, by it or in the form with braces that messages use, is parsed by
  \<^verbatim>\<open>fid_sscanf()\<close> to the same fid and to its last character, whatever was in the target before.
\<close>

theorem fid_print_scan:
  "\<exists>s. m0_fid_print M0_FID_STR_LEN fid = Some (int (length s), s) \<and>
     fid_sscanf types s old nob = Some (0, fid, Some (length s)) \<and>
     xt_read types old s = Some (Some (int (length s)), fid) \<and>
     fid_sscanf types (FID_F fid) old nob = Some (0, fid, Some (length (FID_F fid)))"
proof -
  let ?c = "unat (f_container fid)" and ?k = "unat (f_key fid)"
  let ?s = "hexits ?c @ CHR '':'' # hexits ?k"
  have lt: "?c < 2 ^ 64" "?k < 2 ^ 64" using unat_lt_u64 [of "f_container fid"] unat_lt_u64 [of "f_key fid"] by simp_all
  have "length (hexits ?c) \<le> 16" "length (hexits ?k) \<le> 16" using lt by (auto intro!: length_hexits)
  then have print: "m0_fid_print M0_FID_STR_LEN fid = Some (int (length ?s), ?s)"
    by (simp add: m0_fid_print_def M0_FID_STR_LEN_def Let_def)
  have scan: "fid_sscanf types ?s old nob = Some (0, fid, Some (length ?s))" for nob
    using scan_fid_hexits [OF lt] scan_braces_plain [of "CHR '':'' # hexits ?k" "[Ws, Count]" ?c]
    by (simp add: fid_sscanf_def store_fid_def Let_def)
  moreover have "fid_sscanf types (FID_F fid) old nob = Some (0, fid, Some (length (FID_F fid)))"
    using scan_braces [OF lt] by (simp add: fid_sscanf_def FID_F_def store_fid_def Let_def)
  ultimately show ?thesis using print by (intro exI [of _ ?s]) (simp add: xt_read_def)
qed

text \<open>
  C28. Parsing the typed form, with the container and the key spelled in decimal, octal after \<open>0\<close> or hexadecimal after \<open>0x\<close>, signed or not, and with white
  space anywhere: a container outside \<open>[0, 2 ^ 56)\<close>, which would overwrite the type byte, gives \<^verbatim>\<open>-EINVAL\<close>. Otherwise the fid of that type, container and
  key is read to the last character if it is valid, and an assertion of \<^verbatim>\<open>m0_fid_tchange()\<close> fails if it is not, in particular when the type is not
  registered. The conversion of the numbers is a signed one: a key of \<open>2 ^ 63\<close> or more becomes \<open>2 ^ 63 - 1\<close>. The type character is any but white space
  and NUL.
\<close>

theorem fid_typed_scan:
  assumes "\<forall>i. blanks (ws i)" and "\<not> isspace ch" and "ch \<noteq> CHR 0x00"
    and "int_numeral a = Some zc" and "int_numeral b = Some zk"
  defines "c \<equiv> word_of_int (saturate zc)" and "k \<equiv> word_of_int (saturate zk)" and "s \<equiv> typed_form ws ch a b"
  shows "fid_sscanf types s old nob =
    (if 0 \<le> zc \<and> zc < 2 ^ 56
     then (case m0_fid_is_valid types (M0_FID_TINIT (of_char ch) c k) of
             Some True \<Rightarrow> Some (0, M0_FID_TINIT (of_char ch) c k, Some (length s))
           | _ \<Rightarrow> None)
     else Some (- EINVAL, M0_FID_INIT c k, Some (length s)))"
proof -
  note nul = typed_nul [OF assms(1,3,4,5)]
  have "m0_fid_tget (M0_FID_INIT c k) = 0 \<longleftrightarrow> 0 \<le> zc \<and> zc < 2 ^ 56"
    using tget_saturate [of zc] by (simp add: m0_fid_tget_def M0_FID_INIT_def c_def)
  then show ?thesis
    unfolding s_def
    using typed_braces [OF assms(1,2) nul, of "[Ws, Count]"] typed_plain [OF assms(1,2) nul]
      typed_scan [OF assms(1,2) nul assms(4,5)]
    by (simp add: fid_sscanf_def Let_def store_fid_both c_def [symmetric] k_def [symmetric] M0_FID_INIT_def
        m0_fid_tchange_def M0_FID_TINIT_def split: option.splits bool.splits)
qed

definition sample_types :: fid_types where
  "sample_types = (replicate 256 None)[102 := Some \<lparr>ft_addr = 1, ft_id = 102, ft_name = Some ''file'', ft_is_valid = None\<rparr>]"

theorem fid_typed_scan_witness:
  "fid_sscanf sample_types (typed_form (\<lambda>i. '' '') CHR ''f'' ''0xA'' ''-017'') (M0_FID_INIT 0 0) None =
     Some (0, M0_FID_INIT 0x660000000000000a (- 15), Some 16)"
proof -
  have num: "int_numeral ''0xA'' = Some 10" "int_numeral ''-017'' = Some (- 15)"
    by (simp_all add: int_numeral_def nat_numeral_def digits_of_def digits_value_def digit_def Let_def)
  have fid: "M0_FID_TINIT (of_char CHR ''f'') (word_of_int (saturate 10)) (word_of_int (saturate (- 15))) =
      M0_FID_INIT 0x660000000000000a (- 15)"
    by (simp add: M0_FID_TINIT_def M0_FID_TCONTAINER_def M0_FID_TYPE_MASK_def saturate_def)
  have valid: "m0_fid_is_valid sample_types (M0_FID_INIT 0x660000000000000a (- 15)) = Some True"
    by (simp add: m0_fid_is_valid_def m0_fid_type_getfid_def m0_fid_type_gethi_def m0_fid_type_get_def M0_FID_INIT_def sample_types_def)
  show ?thesis
    using fid_typed_scan [of "\<lambda>i. '' ''" "CHR ''f''" "''0xA''" 10 "''-017''" "- 15" sample_types "M0_FID_INIT 0 0" None]
    unfolding fid using num valid by (simp add: isspace_def blanks_def typed_form_def)
qed

end
