(* ===== verification/Motr_Pdclust.thy ===== *)
theory Motr_Pdclust
  imports Motr_Fid
begin

text \<open>
  The parity de-clustering layout of \<^verbatim>\<open>src/layout/pdclust.c\<close>: how the units of the parity
  groups of a file are placed in the frames of \<open>P\<close> target objects. The space of units is cut
  into tiles of \<open>C\<close> groups of \<open>N + K + S\<close> units, a tile is rearranged into \<open>L\<close> rows of \<open>P\<close>
  frames, and the columns of each tile are permuted by a pseudo-random permutation whose
  Lehmer code comes from \<^verbatim>\<open>m0_rnd()\<close>. The permutation of the last used tile is cached in the
  layout instance.

  The back pointers, magic numbers and locks of the layout objects are not modelled, nor is what the
  failure-domain permutation cache holds; the number of targets reported by the layout enumeration
  is a field, and the reference count of the layout an argument of the one function that takes a
  reference. The arrays of the tile cache are lists of natural numbers; sums of their elements wrap
  at 32 bits, which the proofs show never to happen.
\<close>

section \<open>Model\<close>

record m0_pdclust_attr =
  pa_N :: u32
  pa_K :: u32
  pa_S :: u32
  pa_P :: u32
  pa_unit_size :: u64
  pa_seed :: m0_uint128

record m0_pdclust_layout =
  pl_attr :: m0_pdclust_attr
  pl_C :: u32
  pl_L :: u32
  pl_enum_nr :: u32

record tile_cache =
  tc_tile_no :: u64
  tc_permute :: "nat list"
  tc_inverse :: "nat list"
  tc_lcode :: "nat list"

record m0_pdclust_instance =
  pi_layout :: m0_pdclust_layout
  pi_gfid :: m0_fid
  pi_tile_cache :: tile_cache

record m0_pdclust_src_addr =
  sa_group :: u64
  sa_unit :: u64

record m0_pdclust_tgt_addr =
  ta_frame :: u64
  ta_obj :: u64

datatype m0_pdclust_unit_type = M0_PUT_DATA | M0_PUT_PARITY | M0_PUT_SPARE

definition pdclust_invariant :: "m0_pdclust_layout \<Rightarrow> bool" where
  "pdclust_invariant pl \<longleftrightarrow>
     (let attr = pl_attr pl
      in pl_C pl * (pa_N attr + pa_K attr + pa_S attr) = pl_L pl * pa_P attr \<and>
         pl_enum_nr pl = pa_P attr)"

text \<open>
  \<^verbatim>\<open>pdclust_instance_invariant()\<close> without the magic numbers and the generic part of the instance, the
  validity of the file identifier, which is checked when the instance is built and never changes.
\<close>

definition pdclust_instance_invariant :: "m0_pdclust_instance \<Rightarrow> bool" where
  "pdclust_instance_invariant pi \<longleftrightarrow>
     (let pl = pi_layout pi;
          P = unat (pa_P (pl_attr pl));
          tc = pi_tile_cache pi
      in pdclust_invariant pl \<and>
         list_all (\<lambda>i. wrap_u32 (tc_lcode tc ! i + i) < P \<and>
                       (tc_permute tc ! i < P \<and> tc_inverse tc ! i < P) \<and>
                       tc_permute tc ! (tc_inverse tc ! i) = i \<and>
                       tc_inverse tc ! (tc_permute tc ! i) = i) [0..<P])"

text \<open>
  \<^verbatim>\<open>pdclust_populate()\<close>: the sum and the product are 32-bit, the quotient by the 64-bit gcd is
  64-bit and is cut to 32 bits on assignment. A division by zero is a failure of the process.
\<close>

definition pdclust_populate ::
  "m0_pdclust_layout \<Rightarrow> m0_pdclust_attr \<Rightarrow> u32 \<Rightarrow> (int \<times> m0_pdclust_layout) option"
where
  "pdclust_populate pl attr enum_nr =
     (let N = pa_N attr; K = pa_K attr; S = pa_S attr; P = pa_P attr
      in if N + K + S > P then Some (- EPROTO, pl)
         else (let pl = pl\<lparr>pl_enum_nr := enum_nr, pl_attr := attr\<rparr>;
                   g = m0_gcd64 (ucast (N + K + S)) (ucast P)
               in if g = 0 then None
                  else (let B = ucast (ucast (P * (N + K + S)) div g) :: u32
                        in if N + K + S = 0 \<or> P = 0 then None
                           else (let pl = pl\<lparr>pl_C := B div (N + K + S), pl_L := B div P\<rparr>
                                 in do {
                                   M0_ASSERT (pdclust_invariant pl);
                                   Some (0, pl)
                                 }))))"

definition m0_pdclust_attr_check :: "m0_pdclust_attr \<Rightarrow> bool" where
  "m0_pdclust_attr_check attr \<longleftrightarrow>
     (pa_S attr \<ge> 0 \<and> pa_S attr \<le> pa_K attr) \<and>
     pa_P attr \<ge> pa_N attr + pa_K attr + pa_S attr"

definition m0_pdclust_N :: "m0_pdclust_layout \<Rightarrow> u32" where
  "m0_pdclust_N pl = pa_N (pl_attr pl)"

definition m0_pdclust_K :: "m0_pdclust_layout \<Rightarrow> u32" where
  "m0_pdclust_K pl = pa_K (pl_attr pl)"

definition m0_pdclust_S :: "m0_pdclust_layout \<Rightarrow> u32" where
  "m0_pdclust_S pl = pa_S (pl_attr pl)"

definition m0_pdclust_P :: "m0_pdclust_layout \<Rightarrow> u32" where
  "m0_pdclust_P pl = pa_P (pl_attr pl)"

definition m0_pdclust_size :: "m0_pdclust_layout \<Rightarrow> u32" where
  "m0_pdclust_size pl = m0_pdclust_N pl + m0_pdclust_K pl + m0_pdclust_S pl"

definition m0_pdclust_unit_size :: "m0_pdclust_layout \<Rightarrow> u64" where
  "m0_pdclust_unit_size pl = pa_unit_size (pl_attr pl)"

definition m0_pdclust_is_replicated :: "m0_pdclust_layout \<Rightarrow> bool" where
  "m0_pdclust_is_replicated pl \<longleftrightarrow> pa_N (pl_attr pl) = 1"

text \<open>The \<^verbatim>\<open>int\<close> unit number is compared with the 32-bit counts as an unsigned number.\<close>

definition m0_pdclust_unit_classify :: "m0_pdclust_layout \<Rightarrow> u32 \<Rightarrow> m0_pdclust_unit_type" where
  "m0_pdclust_unit_classify pl unit =
     (if unit < pa_N (pl_attr pl) then M0_PUT_DATA
      else if unit < pa_N (pl_attr pl) + pa_K (pl_attr pl) then M0_PUT_PARITY
      else M0_PUT_SPARE)"

definition m_enc :: "u64 \<Rightarrow> u64 \<Rightarrow> u64 \<Rightarrow> u64 option" where
  "m_enc width row column = do {
     M0_ASSERT (column < width);
     Some (row * width + column)
   }"

text \<open>A division by zero stops the process.\<close>

definition m_dec :: "u64 \<Rightarrow> u64 \<Rightarrow> (u64 \<times> u64) option" where
  "m_dec width pos = (if width = 0 then None else Some (pos div width, pos mod width))"

text \<open>
  The loop of \<^verbatim>\<open>permute()\<close> in this file is the one of \<^verbatim>\<open>m0_permute()\<close> on 32-bit arrays: the shifted index
  wraps at 32 bits.
\<close>

definition permute ::
  "nat \<Rightarrow> nat list \<Rightarrow> nat list \<Rightarrow> nat list \<Rightarrow> (nat list \<times> nat list) option"
where
  "permute n k s r = permute_arrays wrap_u32 n k s r"

text \<open>The loop that fills \<^verbatim>\<open>tc_lcode[]\<close>; the result of \<^verbatim>\<open>m0_rnd()\<close> is cut to 32 bits.\<close>

fun generate_lcode :: "nat \<Rightarrow> nat list \<Rightarrow> u64 \<Rightarrow> nat list \<Rightarrow> nat list option" where
  "generate_lcode P [] rstate lcode = Some lcode"
| "generate_lcode P (i # is) rstate lcode = do {
     (v, rstate) \<leftarrow> m0_rnd (of_nat (P - i)) rstate;
     generate_lcode P is rstate (lcode[i := unat (ucast v :: u32)])
   }"

definition permute_column ::
  "m0_pdclust_instance \<Rightarrow> u64 \<Rightarrow> u64 \<Rightarrow> (m0_pdclust_instance \<times> u64) option"
where
  "permute_column pi omega t =
     (let attr = pl_attr (pi_layout pi);
          gfid = pi_gfid pi;
          P = unat (pa_P attr);
          tc = pi_tile_cache pi
      in do {
        M0_ASSERT (unat t < P);
        tc \<leftarrow>
          (if tc_tile_no tc \<noteq> omega then
             (let columns = [0..<P];
                  rstate = m0_hash (u_hi (pa_seed attr) + f_key gfid) XOR
                           m0_hash (u_lo (pa_seed attr) + omega + f_container gfid)
              in do {
                lcode \<leftarrow> generate_lcode P [0..<P - 1] rstate (tc_lcode tc);
                (s, r) \<leftarrow> permute P lcode columns (tc_inverse tc);
                Some \<lparr>tc_tile_no = omega, tc_permute = s, tc_inverse = r, tc_lcode = lcode\<rparr>
              })
           else Some tc);
        M0_ASSERT (tc_permute tc ! unat t < P);
        M0_ASSERT (tc_inverse tc ! (tc_permute tc ! unat t) = unat t);
        M0_ASSERT (tc_permute tc ! (tc_inverse tc ! unat t) = unat t);
        Some (pi\<lparr>pi_tile_cache := tc\<rparr>, of_nat (tc_permute tc ! unat t))
      })"

definition m0_pdclust_instance_map ::
  "m0_pdclust_instance \<Rightarrow> m0_pdclust_src_addr \<Rightarrow>
   (m0_pdclust_instance \<times> m0_pdclust_tgt_addr) option"
where
  "m0_pdclust_instance_map pi src = do {
     M0_ASSERT (pdclust_instance_invariant pi);
     (let pl = pi_layout pi;
          N = pa_N (pl_attr pl); K = pa_K (pl_attr pl); S = pa_S (pl_attr pl);
          P = pa_P (pl_attr pl); C = pl_C pl; L = pl_L pl
      in do {
        (omega, j) \<leftarrow> m_dec (ucast C) (sa_group src);
        pos \<leftarrow> m_enc (ucast (N + K + S)) j (sa_unit src);
        (r, t) \<leftarrow> m_dec (ucast P) pos;
        (pi, obj) \<leftarrow> permute_column pi omega t;
        frame \<leftarrow> m_enc (ucast L) omega r;
        Some (pi, \<lparr>ta_frame = frame, ta_obj = obj\<rparr>)
      })
   }"

definition m0_pdclust_instance_inv ::
  "m0_pdclust_instance \<Rightarrow> m0_pdclust_tgt_addr \<Rightarrow>
   (m0_pdclust_instance \<times> m0_pdclust_src_addr) option"
where
  "m0_pdclust_instance_inv pi tgt =
     (let pl = pi_layout pi;
          N = pa_N (pl_attr pl); K = pa_K (pl_attr pl); S = pa_S (pl_attr pl);
          P = pa_P (pl_attr pl); C = pl_C pl; L = pl_L pl;
          t = ta_obj tgt
      in do {
        M0_ASSERT (pdclust_instance_invariant pi);
        (omega, r) \<leftarrow> m_dec (ucast L) (ta_frame tgt);
        (pi, _) \<leftarrow> permute_column pi omega t;
        let t = of_nat (tc_inverse (pi_tile_cache pi) ! unat t);
        pos \<leftarrow> m_enc (ucast P) r t;
        (j, unit) \<leftarrow> m_dec (ucast (N + K + S)) pos;
        group \<leftarrow> m_enc (ucast C) omega j;
        Some (pi, \<lparr>sa_group = group, sa_unit = unit\<rparr>)
      })"



section \<open>The permutation of a tile\<close>

definition tile_rstate :: "m0_pdclust_attr \<Rightarrow> m0_fid \<Rightarrow> u64 \<Rightarrow> u64" where
  "tile_rstate attr gfid omega =
     m0_hash (u_hi (pa_seed attr) + f_key gfid) XOR
     m0_hash (u_lo (pa_seed attr) + omega + f_container gfid)"

text \<open>
  The reference: the permutation of a tile and its inverse, computed from zeroed arrays. It
  depends on the layout, the file and the tile number only.
\<close>

definition tile_perm :: "m0_pdclust_attr \<Rightarrow> m0_fid \<Rightarrow> u64 \<Rightarrow> (nat list \<times> nat list) option" where
  "tile_perm attr gfid omega =
     (let P = unat (pa_P attr) in do {
        lcode \<leftarrow> generate_lcode P [0..<P - 1] (tile_rstate attr gfid omega) (replicate P 0);
        permute P lcode [0..<P] (replicate P 0)
      })"

lemma length_generate_lcode:
  "generate_lcode P is rs lc = Some lc' \<Longrightarrow> length lc' = length lc"
  by (induction P "is" rs lc rule: generate_lcode.induct) (auto simp: bind_eq_Some_conv)

lemma generate_lcode_frame:
  "generate_lcode P is rs lc = Some lc' \<Longrightarrow> i \<notin> set is \<Longrightarrow> lc' ! i = lc ! i"
  by (induction P "is" rs lc rule: generate_lcode.induct) (auto simp: bind_eq_Some_conv)

text \<open>The generated entries do not depend on what the array held before.\<close>

lemma generate_lcode_indep:
  assumes "generate_lcode P is rs lc = Some lc'" "length lc1 = length lc" 
    "\<forall>i \<in> set is. i < length lc"
  shows "\<exists>lc1'. generate_lcode P is rs lc1 = Some lc1' \<and>
           (\<forall>i. i \<in> set is \<or> lc1 ! i = lc ! i \<longrightarrow> lc1' ! i = lc' ! i)"
  using assms
proof (induction P "is" rs lc arbitrary: lc1 rule: generate_lcode.induct)
  case (2 P i "is" rs lc)
  from 2(2) obtain v rs' where v: "m0_rnd (of_nat (P - i)) rs = Some (v, rs')"
    and rec: "generate_lcode P is rs' (lc[i := unat (ucast v :: u32)]) = Some lc'"
    by (auto simp: bind_eq_Some_conv)
  let ?x = "unat (ucast v :: u32)"
  have "\<exists>lc1'. generate_lcode P is rs' (lc1[i := ?x]) = Some lc1' \<and>
      (\<forall>j. j \<in> set is \<or> lc1[i := ?x] ! j = lc[i := ?x] ! j \<longrightarrow> lc1' ! j = lc' ! j)"
    using 2(1) [OF v refl rec, of "lc1[i := ?x]"] 2(3,4) by simp
  then obtain lc1' where "generate_lcode P is rs' (lc1[i := ?x]) = Some lc1'"
    and "\<forall>j. j \<in> set is \<or> lc1[i := ?x] ! j = lc[i := ?x] ! j \<longrightarrow> lc1' ! j = lc' ! j" by blast
  then show ?case using v 2(3,4) by (auto simp: nth_list_update)
qed auto

text \<open>An entry of the code is at most the number of columns left, so no sum wraps around.\<close>

lemma generate_lcode_le:
  assumes "generate_lcode P is rs lc = Some lc'" "P < 2 ^ 32" "i < length lc"
    "i \<in> set is \<or> lc ! i \<le> P - i"
  shows "lc' ! i \<le> P - i"
  using assms
proof (induction P "is" rs lc rule: generate_lcode.induct)
  case (2 P j "is" rs lc)
  from 2(2) obtain v rs' where v: "m0_rnd (of_nat (P - j)) rs = Some (v, rs')"
    and rec: "generate_lcode P is rs' (lc[j := unat (ucast v :: u32)]) = Some lc'"
    by (auto simp: bind_eq_Some_conv)
  have "unat (of_nat (P - j) :: u64) = P - j" using 2(3) by (simp add: unat_of_nat)
  then have "unat v \<le> P - j" using rnd_le [OF v] by (simp add: word_le_nat_alt)
  then have "unat (ucast v :: u32) \<le> P - j"
    by (metis le_trans take_bit_nat_less_eq_self unsigned_ucast_eq)
  then show ?case using 2(1) [OF v refl rec 2(3)] 2(4,5) by (cases "i = j") auto
qed simp

lemma generate_lcode_no_wrap:
  assumes "generate_lcode P [0..<P - 1] rs lc = Some lc'" "P < 2 ^ 32" "length lc = P"
  shows "no_wrap wrap_u32 P lc'"
  unfolding no_wrap_def
proof (intro allI impI)
  fix j assume j: "j < P - 1"
  then have "lc' ! j \<le> P - j" using generate_lcode_le [OF assms(1,2), of j] assms(3) by auto
  then show "wrap_u32 (lc' ! j + j) = lc' ! j + j" using j assms(2) by (intro wrap_u32_id) linarith
qed

lemma permute_loop_cong:
  assumes "\<forall>i < n - 1. k ! i = k' ! i"
  shows "permute_loop wrap n i k s r = permute_loop wrap n i k' s r"
  using assms
proof (induction wrap n i k s r rule: permute_loop.induct)
  case (1 wrap n i k s r)
  show ?case
  proof (cases "i < n - 1")
    case True
    have "k ! i = k' ! i" using True 1(2) by blast
    then show ?thesis
      using True 1 unfolding permute_loop.simps [of wrap n i]
      by (cases "wrap (k ! i + i) < n") (simp_all add: Let_def)
  qed (simp add: permute_loop.simps [of wrap n i])
qed

lemma permute_loop_indep:
  "map_option fst (permute_loop wrap n i k s r) = map_option fst (permute_loop wrap n i k s r')"
proof (induction wrap n i k s r arbitrary: r' rule: permute_loop.induct)
  case (1 wrap n i k s r)
  show ?case
  proof (cases "i < n - 1")
    case True
    show ?thesis
    proof (cases "wrap (k ! i + i) < n")
      case t: True
      show ?thesis
        using True t 1 [OF True refl, of "()", OF _ refl refl refl]
        unfolding permute_loop.simps [of wrap n i] by (simp add: Let_def)
    qed (simp add: permute_loop.simps [of wrap n i] Let_def)
  qed (simp add: permute_loop.simps [of wrap n i])
qed

lemma permute_loop_lcode:
  "permute_loop wrap n i k s r = Some res \<Longrightarrow> \<forall>j. i \<le> j \<and> j < n - 1 \<longrightarrow> wrap (k ! j + j) < n"
proof (induction wrap n i k s r rule: permute_loop.induct)
  case (1 wrap n i k s r)
  show ?case
  proof (cases "i < n - 1")
    case True
    with 1(2) have t: "wrap (k ! i + i) < n" by (simp add: permute_loop.simps [of wrap n i] Let_def)
    have "\<forall>j. i + 1 \<le> j \<and> j < n - 1 \<longrightarrow> wrap (k ! j + j) < n"
      using 1(1) [OF True refl, of "()", OF _ refl refl refl] t 1(2) True
      by (simp add: permute_loop.simps [of wrap n i] Let_def)
    with t show ?thesis by (metis Suc_eq_plus1 le_antisym not_less_eq_eq)
  qed auto
qed

lemma permute_lcode:
  assumes "no_wrap wrap_u32 n k" "permute n k s r = Some res" "j < n - 1"
  shows "k ! j + j < n"
proof -
  obtain res' where "permute_loop wrap_u32 n 0 k s r = Some res'"
    using assms(2) by (auto simp: permute_def permute_arrays_def bind_eq_Some_conv split: if_splits)
  from permute_loop_lcode [OF this] assms(3) have "wrap_u32 (k ! j + j) < n" by simp
  then show ?thesis using no_wrapD [OF assms(1,3)] by simp
qed

lemma perm_below_upt: "perm_below n [0..<n]"
  by (auto simp: perm_below_def)

lemma inverse_unique:
  assumes "perm_below n s" "length r = n" "length r' = n"
    "\<forall>i < n. r ! (s ! i) = i" "\<forall>i < n. r' ! (s ! i) = i"
  shows "r = r'"
proof (rule nth_equalityI)
  fix x assume "x < length r"
  then have "x \<in> set s" using assms(1,2) by (simp add: perm_below_def)
  then obtain i where "i < n" "s ! i = x" using assms(1) by (metis in_set_conv_nth perm_below_def)
  then show "r ! x = r' ! x" using assms(4,5) by auto
qed (simp add: assms)

text \<open>The result of \<^verbatim>\<open>permute()\<close> does not depend on the old contents of the inverse array.\<close>

lemma permute_indep:
  assumes "length r = n" "length r' = n" "\<forall>i < n - 1. k ! i = k' ! i" and nw: "no_wrap wrap_u32 n k"
  shows "permute n k [0..<n] r = permute n k' [0..<n] r'"
proof (cases "n = 0")
  case False
  let ?loop = "\<lambda>k r. permute_loop wrap_u32 n 0 k [0..<n] r"
  have nw': "no_wrap wrap_u32 n k'" using nw assms(3) by (simp add: no_wrap_def)
  have fst_eq: "map_option fst (?loop k r) = map_option fst (?loop k' r')"
    using permute_loop_cong [OF assms(3)] permute_loop_indep by metis
  show ?thesis
  proof (cases "?loop k r")
    case None
    then show ?thesis using fst_eq False by (simp add: permute_def permute_arrays_def)
  next
    case (Some sr)
    obtain s r1 where sr: "sr = (s, r1)" by (cases sr)
    obtain r2 where r2: "?loop k' r' = Some (s, r2)"
      using fst_eq Some sr by (cases "?loop k' r'") auto
    let ?f = "\<lambda>r. r[s ! (n - 1) := n - 1]"
    have 1: "permute_arrays wrap_u32 n k [0..<n] r = Some (s, ?f r1)"
      and 2: "permute_arrays wrap_u32 n k' [0..<n] r' = Some (s, ?f r2)"
      using Some sr r2 False by (simp_all add: permute_arrays_def)
    have "?f r1 = ?f r2"
      using permute_correct [OF nw 1 perm_below_upt assms(1)] permute_correct [OF nw' 2 perm_below_upt assms(2)]
      by (intro inverse_unique) auto
    with 1 2 show ?thesis by (simp add: permute_def)
  qed
qed (simp add: permute_def permute_arrays_def)

section \<open>The tile cache\<close>


abbreviation pi_attr :: "m0_pdclust_instance \<Rightarrow> m0_pdclust_attr" where
  "pi_attr pi \<equiv> pl_attr (pi_layout pi)"

abbreviation pi_P :: "m0_pdclust_instance \<Rightarrow> nat" where
  "pi_P pi \<equiv> unat (pa_P (pi_attr pi))"

text \<open>The arrays of the cache have the size they are allocated with and a valid Lehmer code.\<close>

definition cache_shape :: "m0_pdclust_instance \<Rightarrow> bool" where
  "cache_shape pi \<longleftrightarrow>
     (let tc = pi_tile_cache pi; P = pi_P pi
      in length (tc_permute tc) = P \<and> length (tc_inverse tc) = P \<and> length (tc_lcode tc) = P \<and>
         (\<forall>i < P. tc_lcode tc ! i + i < P))"

text \<open>The cache holds the permutation of the tile it names.\<close>

definition cache_coherent :: "m0_pdclust_instance \<Rightarrow> bool" where
  "cache_coherent pi \<longleftrightarrow>
     (let tc = pi_tile_cache pi
      in tile_perm (pi_attr pi) (pi_gfid pi) (tc_tile_no tc) = Some (tc_permute tc, tc_inverse tc))"

definition cache_ok :: "m0_pdclust_instance \<Rightarrow> bool" where
  "cache_ok pi \<longleftrightarrow> cache_shape pi \<and> cache_coherent pi"

lemma tile_perm_inverse:
  assumes "tile_perm attr gfid omega = Some (s, r)"
  shows "perm_below (unat (pa_P attr)) s" "length r = unat (pa_P attr)"
    "\<forall>i < unat (pa_P attr). r ! (s ! i) = i"
    "\<forall>x < unat (pa_P attr). r ! x < unat (pa_P attr) \<and> s ! (r ! x) = x"
proof -
  let ?P = "unat (pa_P attr)"
  obtain lcode where gen: "generate_lcode ?P [0..<?P - 1] (tile_rstate attr gfid omega) (replicate ?P 0) = Some lcode"
    and perm: "permute_arrays wrap_u32 ?P lcode [0..<?P] (replicate ?P 0) = Some (s, r)"
    using assms by (auto simp: tile_perm_def permute_def bind_eq_Some_conv Let_def)
  have "no_wrap wrap_u32 ?P lcode"
    using generate_lcode_no_wrap [OF gen] unat_lt_u32 [of "pa_P attr"] by simp
  from permute_correct [OF this perm perm_below_upt]
  show "perm_below (unat (pa_P attr)) s" "length r = unat (pa_P attr)"
    "\<forall>i < unat (pa_P attr). r ! (s ! i) = i"
    "\<forall>x < unat (pa_P attr). r ! x < unat (pa_P attr) \<and> s ! (r ! x) = x"
    by simp_all
qed

text \<open>Recomputing the cache from any arrays of the right size gives the reference permutation.\<close>

lemma tile_perm_recompute:
  fixes attr :: m0_pdclust_attr
  defines "P \<equiv> unat (pa_P attr)"
  assumes "length lc = P" "length r = P"
  shows "do { lcode \<leftarrow> generate_lcode P [0..<P - 1] (tile_rstate attr gfid omega) lc;
              permute P lcode [0..<P] r } = tile_perm attr gfid omega"
proof (cases "generate_lcode P [0..<P - 1] (tile_rstate attr gfid omega) lc")
  case None
  have "generate_lcode P [0..<P - 1] (tile_rstate attr gfid omega) (replicate P 0) = None"
  proof (rule ccontr)
    assume "generate_lcode P [0..<P - 1] (tile_rstate attr gfid omega) (replicate P 0) \<noteq> None"
    then obtain x where "generate_lcode P [0..<P - 1] (tile_rstate attr gfid omega) (replicate P 0) = Some x" by blast
    from generate_lcode_indep [OF this, of lc] None assms(2)
    show False by (metis (no_types, lifting) atLeastLessThan_iff diff_le_self length_replicate
      option.distinct(1) order_less_le_trans set_upt)
  qed
  then show ?thesis using None by (simp add: tile_perm_def P_def [symmetric])
next
  case (Some lcode)
  obtain lcode0 where lc0: "generate_lcode P [0..<P - 1] (tile_rstate attr gfid omega) (replicate P 0) = Some lcode0"
    and eq: "\<forall>i < P - 1. lcode0 ! i = lcode ! i"
  proof -
    have "\<forall>i \<in> set [0..<P - 1]. i < length lc" using assms(2) by auto
    from generate_lcode_indep [OF Some _ this, of "replicate P 0"] assms(2) that show ?thesis by auto
  qed
  have nw: "no_wrap wrap_u32 P lcode"
    using generate_lcode_no_wrap [OF Some _ assms(2)] unat_lt_u32 [of "pa_P attr"] by (simp add: P_def)
  have "permute P lcode [0..<P] r = permute P lcode0 [0..<P] (replicate P 0)"
    using eq assms(3) nw by (intro permute_indep) auto
  then show ?thesis using Some lc0 by (simp add: tile_perm_def P_def [symmetric])
qed

lemma permute_column_Some:
  assumes shape: "cache_shape pi"
    and coh: "tc_tile_no (pi_tile_cache pi) = omega \<Longrightarrow> cache_coherent pi"
    and tp: "tile_perm (pi_attr pi) (pi_gfid pi) omega = Some (s, r)" and t: "unat t < pi_P pi"
  shows "\<exists>lc. permute_column pi omega t =
      Some (pi\<lparr>pi_tile_cache := \<lparr>tc_tile_no = omega, tc_permute = s, tc_inverse = r, tc_lcode = lc\<rparr>\<rparr>,
            of_nat (s ! unat t)) \<and> length lc = pi_P pi \<and> (\<forall>i < pi_P pi. lc ! i + i < pi_P pi)"
proof -
  let ?tc = "pi_tile_cache pi" and ?P = "pi_P pi"
  have shape': "length (tc_lcode ?tc) = ?P" "length (tc_inverse ?tc) = ?P"
    "\<forall>i < ?P. tc_lcode ?tc ! i + i < ?P"
    using shape by (simp_all add: cache_shape_def Let_def)
  have checks: "s ! unat t < ?P" "r ! (s ! unat t) = unat t" "s ! (r ! unat t) = unat t"
    using tile_perm_inverse [OF tp] t nth_mem [of "unat t" s] by (auto simp: perm_below_def)
  show ?thesis
  proof (cases "tc_tile_no ?tc = omega")
    case True
    then have "tc_permute ?tc = s" "tc_inverse ?tc = r"
      using coh tp by (simp_all add: cache_coherent_def Let_def)
    then have "?tc = \<lparr>tc_tile_no = omega, tc_permute = s, tc_inverse = r, tc_lcode = tc_lcode ?tc\<rparr>"
      using True by (cases ?tc) simp
    then show ?thesis
      using True t checks shape' \<open>tc_permute ?tc = s\<close> \<open>tc_inverse ?tc = r\<close>
      by (intro exI [of _ "tc_lcode ?tc"]) (simp add: permute_column_def Let_def bind_M0_ASSERT_True)
  next
    case False
    have "do { lcode \<leftarrow> generate_lcode ?P [0..<?P - 1] (tile_rstate (pi_attr pi) (pi_gfid pi) omega) (tc_lcode ?tc);
               permute ?P lcode [0..<?P] (tc_inverse ?tc) } = Some (s, r)"
      using tile_perm_recompute [OF shape'(1,2)] tp by simp
    then obtain lc where lc: "generate_lcode ?P [0..<?P - 1] (tile_rstate (pi_attr pi) (pi_gfid pi) omega) (tc_lcode ?tc) = Some lc"
      and perm: "permute ?P lc [0..<?P] (tc_inverse ?tc) = Some (s, r)"
      by (auto simp: bind_eq_Some_conv)
    have "\<forall>j < ?P - 1. lc ! j + j < ?P"
      using permute_lcode [OF generate_lcode_no_wrap [OF lc _ shape'(1)] perm] unat_lt_u32 [of "pa_P (pi_attr pi)"] by simp
    moreover have "lc ! (?P - 1) = tc_lcode ?tc ! (?P - 1)"
      using generate_lcode_frame [OF lc] by simp
    ultimately have "\<forall>i < ?P. lc ! i + i < ?P"
      using shape'(3) by (metis One_nat_def Suc_pred less_antisym gr_implies_not0 not_gr_zero)
    moreover have "length lc = ?P" using length_generate_lcode [OF lc] shape'(1) by simp
    ultimately show ?thesis
      using False t checks lc perm
      by (intro exI [of _ lc])
        (simp add: permute_column_def Let_def bind_M0_ASSERT_True tile_rstate_def [symmetric])
  qed
qed

lemma permute_column_None:
  assumes shape: "cache_shape pi"
    and coh: "tc_tile_no (pi_tile_cache pi) = omega \<Longrightarrow> cache_coherent pi"
    and "permute_column pi omega t = Some res"
  shows "unat t < pi_P pi \<and> (\<exists>s r. tile_perm (pi_attr pi) (pi_gfid pi) omega = Some (s, r))"
proof -
  let ?tc = "pi_tile_cache pi" and ?P = "pi_P pi"
  have shape': "length (tc_lcode ?tc) = ?P" "length (tc_inverse ?tc) = ?P"
    using shape by (simp_all add: cache_shape_def Let_def)
  have t: "unat t < ?P" using assms(3) by (simp add: permute_column_def Let_def)
  show ?thesis
  proof (cases "tc_tile_no ?tc = omega")
    case True
    then show ?thesis using t coh by (simp add: cache_coherent_def Let_def)
  next
    case False
    then have "do { lcode \<leftarrow> generate_lcode ?P [0..<?P - 1] (tile_rstate (pi_attr pi) (pi_gfid pi) omega) (tc_lcode ?tc);
               permute ?P lcode [0..<?P] (tc_inverse ?tc) } \<noteq> None"
      using assms(3)
      by (auto simp: permute_column_def Let_def bind_eq_Some_conv tile_rstate_def [symmetric])
    then show ?thesis using t tile_perm_recompute [OF shape'] by auto
  qed
qed


section \<open>The column permuter interface\<close>

text \<open>
  What the layout mapping needs of the cached permutations: asking for a column of a tile keeps
  the cache well-formed, answers below the number of columns as the tile's permutation says,
  and leaves the inverse permutation of that tile in the cache.
\<close>

locale column_permuter =
  fixes col :: "'pi \<Rightarrow> u64 \<Rightarrow> u64 \<Rightarrow> ('pi \<times> u64) option"
    and icol :: "'pi \<Rightarrow> u64 \<Rightarrow> u64"
    and width :: "'pi \<Rightarrow> nat"
    and key :: "'pi \<Rightarrow> 'k"
    and ok :: "'pi \<Rightarrow> bool"
    and perm :: "'k \<Rightarrow> u64 \<Rightarrow> (nat \<Rightarrow> nat) option"
  assumes col_defined: "ok pi \<Longrightarrow> (\<exists>res. col pi w t = Some res) \<longleftrightarrow> perm (key pi) w \<noteq> None \<and> unat t < width pi"
    and col_keeps: "ok pi \<Longrightarrow> col pi w t = Some (pi', c) \<Longrightarrow> ok pi' \<and> key pi' = key pi \<and> width pi' = width pi"
    and col_value: "ok pi \<Longrightarrow> col pi w t = Some (pi', c) \<Longrightarrow> perm (key pi) w = Some f \<Longrightarrow>
                      unat c = f (unat t) \<and> unat c < width pi"
      and icol_perm: "ok pi \<Longrightarrow> col pi w t = Some (pi', c) \<Longrightarrow> perm (key pi) w = Some f \<Longrightarrow>
                      unat u < width pi \<Longrightarrow> f (unat u) = unat d \<Longrightarrow> icol pi' d = u"
    and icol_bound: "ok pi \<Longrightarrow> col pi w t = Some (pi', c) \<Longrightarrow> unat d < width pi \<Longrightarrow>
                      unat (icol pi' d) < width pi \<and> (\<forall>f. perm (key pi) w = Some f \<longrightarrow> f (unat (icol pi' d)) = unat d)"
begin

text \<open>The cached inverse leads back from the answer to the column asked for.\<close>

lemma icol_col:
  assumes "ok pi" "col pi w t = Some (pi', c)"
  shows "icol pi' c = t"
proof -
  obtain f where f: "perm (key pi) w = Some f" "unat t < width pi"
    using col_defined [OF assms(1)] assms(2) by blast
  show ?thesis using icol_perm [OF assms f(1)] col_value [OF assms f(1)] f(2) by simp
qed

text \<open>Two columns of one tile are never sent to the same place.\<close>

lemma col_inj:
  assumes "ok pi" "ok qi" "key pi = key qi" "width pi = width qi"
    and "col pi w t = Some (pi', c)" "col qi w u = Some (qi', c)"
  shows "t = u"
proof -
  obtain f where f: "perm (key pi) w = Some f" using col_defined [OF assms(1)] assms(5) by blast
  have "unat u < width pi" using col_defined [OF assms(2), of w u] assms(4,6) by auto
  moreover have "f (unat u) = unat c" using col_value [OF assms(2,6)] f assms(3) by simp
  ultimately have "icol pi' c = u" using icol_perm [OF assms(1,5) f] by simp
  then show ?thesis using icol_col [OF assms(1,5)] by simp
qed

text \<open>A repeated question gets the same answer.\<close>

lemma col_repeat:
  assumes "ok pi" "ok qi" "key pi = key qi" "width pi = width qi" "col pi w t = Some (pi', c)"
  shows "\<exists>qi'. col qi w t = Some (qi', c)"
proof -
  obtain f where f: "perm (key pi) w = Some f" and t: "unat t < width pi"
    using col_defined [OF assms(1)] assms(5) by blast
  then obtain qi' d where qi': "col qi w t = Some (qi', d)"
    using col_defined [OF assms(2), of w t] assms(3,4) by auto
  have "unat c = f (unat t)" "unat d = f (unat t)"
    using col_value [OF assms(1,5) f] col_value [OF assms(2) qi'] f assms(3) by auto
  then have "c = d" by (simp add: word_unat_eq_iff)
  with qi' show ?thesis by simp
qed

text \<open>Reading the inverse of any place of a tile and asking for that column leads back.\<close>

lemma col_icol:
  assumes "ok pi" "col pi w t = Some (pi', c)" "unat d < width pi"
  shows "\<exists>pi''. col pi' w (icol pi' d) = Some (pi'', d)"
proof -
  obtain f where f: "perm (key pi) w = Some f" using col_defined [OF assms(1)] assms(2) by blast
  have k: "ok pi'" "key pi' = key pi" "width pi' = width pi" using col_keeps [OF assms(1,2)] by simp_all
  have i: "unat (icol pi' d) < width pi" "f (unat (icol pi' d)) = unat d"
    using icol_bound [OF assms] f by simp_all
  then obtain pi'' e where e: "col pi' w (icol pi' d) = Some (pi'', e)"
    using col_defined [OF k(1), of w "icol pi' d"] f k by auto
  have "unat e = unat d" using col_value [OF k(1) e] f k i by simp
  then show ?thesis using e by (simp add: word_unat_eq_iff)
qed

end


text \<open>The cache of the layout instance provides the interface.\<close>

definition icolumn :: "m0_pdclust_instance \<Rightarrow> u64 \<Rightarrow> u64" where
  "icolumn pi d = of_nat (tc_inverse (pi_tile_cache pi) ! unat d)"

definition tile_fun :: "m0_pdclust_layout \<times> m0_fid \<Rightarrow> u64 \<Rightarrow> (nat \<Rightarrow> nat) option" where
  "tile_fun k omega = map_option (\<lambda>(s, r). (!) s) (tile_perm (pl_attr (fst k)) (snd k) omega)"

lemma unat_of_nat_P: "n < unat (P :: u32) \<Longrightarrow> unat (of_nat n :: u64) = n"
  using unat_lt_u32 [of P] by (simp add: unat_of_nat)

lemma permute_column_cases:
  assumes "cache_ok pi" "permute_column pi omega t = Some (pi', c)"
  obtains s r lc where "tile_perm (pi_attr pi) (pi_gfid pi) omega = Some (s, r)" "unat t < pi_P pi"
    "pi' = pi\<lparr>pi_tile_cache := \<lparr>tc_tile_no = omega, tc_permute = s, tc_inverse = r, tc_lcode = lc\<rparr>\<rparr>"
    "c = of_nat (s ! unat t)" "cache_ok pi'" "unat c = s ! unat t" "s ! unat t < pi_P pi"
proof -
  have t: "unat t < pi_P pi" using assms(2) by (simp add: permute_column_def Let_def)
  obtain s r where tp: "tile_perm (pi_attr pi) (pi_gfid pi) omega = Some (s, r)"
    using permute_column_None [OF _ _ assms(2)] assms(1) by (auto simp: cache_ok_def)
  obtain lc where lc: "pi' = pi\<lparr>pi_tile_cache := \<lparr>tc_tile_no = omega, tc_permute = s, tc_inverse = r, tc_lcode = lc\<rparr>\<rparr>"
    "c = of_nat (s ! unat t)" "length lc = pi_P pi" "\<forall>i < pi_P pi. lc ! i + i < pi_P pi"
    using permute_column_Some [OF _ _ tp t] assms by (auto simp: cache_ok_def)
  have s: "length s = pi_P pi" "s ! unat t < pi_P pi"
    using tile_perm_inverse(1) [OF tp] t nth_mem [of "unat t" s] by (auto simp: perm_below_def)
  have "cache_ok pi'" using lc tp tile_perm_inverse(2) [OF tp] s
    by (simp add: cache_ok_def cache_shape_def cache_coherent_def Let_def)
  then show ?thesis using that tp t lc s unat_of_nat_P by simp
qed

interpretation tile: column_permuter permute_column icolumn pi_P "\<lambda>pi. (pi_layout pi, pi_gfid pi)" cache_ok tile_fun
proof
  fix pi w t
  assume ok: "cache_ok pi"
  show "(\<exists>res. permute_column pi w t = Some res) \<longleftrightarrow>
      tile_fun (pi_layout pi, pi_gfid pi) w \<noteq> None \<and> unat t < pi_P pi"
  proof
    assume "\<exists>res. permute_column pi w t = Some res"
    then obtain pi' c where "permute_column pi w t = Some (pi', c)" by auto
    from permute_column_cases [OF ok this] show "tile_fun (pi_layout pi, pi_gfid pi) w \<noteq> None \<and> unat t < pi_P pi"
      by (metis (no_types, lifting) fst_conv option.distinct(1) option.map_disc_iff snd_conv tile_fun_def)
  next
    assume a: "tile_fun (pi_layout pi, pi_gfid pi) w \<noteq> None \<and> unat t < pi_P pi"
    then obtain s r where "tile_perm (pi_attr pi) (pi_gfid pi) w = Some (s, r)" by (auto simp: tile_fun_def)
    from permute_column_Some [OF _ _ this, of t] ok a show "\<exists>res. permute_column pi w t = Some res"
      by (auto simp: cache_ok_def)
  qed
next
  fix pi w t pi' c
  assume ok: "cache_ok pi" and col: "permute_column pi w t = Some (pi', c)"
  obtain s r lc where tp: "tile_perm (pi_attr pi) (pi_gfid pi) w = Some (s, r)" "unat t < pi_P pi"
    and pi': "pi' = pi\<lparr>pi_tile_cache := \<lparr>tc_tile_no = w, tc_permute = s, tc_inverse = r, tc_lcode = lc\<rparr>\<rparr>"
    and c: "c = of_nat (s ! unat t)" "cache_ok pi'" "unat c = s ! unat t" "s ! unat t < pi_P pi"
    by (rule permute_column_cases [OF ok col])
  show "cache_ok pi' \<and> (pi_layout pi', pi_gfid pi') = (pi_layout pi, pi_gfid pi) \<and> pi_P pi' = pi_P pi"
    using pi' c(2) by simp
  fix f assume f: "tile_fun (pi_layout pi, pi_gfid pi) w = Some f"
  then have f': "f = (!) s" using tp by (simp add: tile_fun_def)
  show "unat c = f (unat t) \<and> unat c < pi_P pi" using f' c by simp
  fix u d :: u64 assume "unat u < pi_P pi" "f (unat u) = unat d"
  then have "r ! unat d = unat u" using tile_perm_inverse(3) [OF tp(1)] f' by metis
  then show "icolumn pi' d = u" using pi' by (simp add: icolumn_def)
next
  fix pi w t pi' c d
  assume ok: "cache_ok pi" and col: "permute_column pi w t = Some (pi', c)" and d: "unat (d :: u64) < pi_P pi"
  obtain s r lc where tp: "tile_perm (pi_attr pi) (pi_gfid pi) w = Some (s, r)"
    and pi': "pi' = pi\<lparr>pi_tile_cache := \<lparr>tc_tile_no = w, tc_permute = s, tc_inverse = r, tc_lcode = lc\<rparr>\<rparr>"
    by (rule permute_column_cases [OF ok col])
  show "unat (icolumn pi' d) < pi_P pi \<and>
    (\<forall>f. tile_fun (pi_layout pi, pi_gfid pi) w = Some f \<longrightarrow> f (unat (icolumn pi' d)) = unat d)"
    using tile_perm_inverse(4) [OF tp] d pi' tp unat_of_nat_P [of "r ! unat d" "pa_P (pi_attr pi)"]
    by (simp add: icolumn_def tile_fun_def)
qed


section \<open>The mapping over natural numbers\<close>

text \<open>
  What \<^verbatim>\<open>pdclust_populate()\<close> establishes when the products do not wrap: a tile has as many units
  as frames.
\<close>

abbreviation pl_W :: "m0_pdclust_layout \<Rightarrow> nat" where
  "pl_W pl \<equiv> unat (pa_N (pl_attr pl) + pa_K (pl_attr pl) + pa_S (pl_attr pl))"

abbreviation pl_P :: "m0_pdclust_layout \<Rightarrow> nat" where
  "pl_P pl \<equiv> unat (pa_P (pl_attr pl))"

definition layout_ok :: "m0_pdclust_layout \<Rightarrow> bool" where
  "layout_ok pl \<longleftrightarrow> 0 < pl_W pl \<and> pl_W pl \<le> pl_P pl \<and> 0 < unat (pl_L pl) \<and>
     unat (pl_C pl) * pl_W pl = unat (pl_L pl) * pl_P pl \<and> pl_enum_nr pl = pa_P (pl_attr pl)"

lemma m_enc_unat:
  assumes "unat column < unat width" "unat row * unat width + unat column < 2 ^ 64"
  shows "\<exists>pos. m_enc width row column = Some pos \<and> unat pos = unat row * unat width + unat column"
  using assms by (simp add: m_enc_def word_less_nat_alt bind_M0_ASSERT_True unat_add_noof unat_mult_noof)

lemma unat_ucast_mult_lt: "unat (a :: u32) * unat (b :: u32) < 2 ^ 64"
proof -
  have "unat a * unat b \<le> (2 ^ 32 - 1) * (2 ^ 32 - 1)"
    using unat_lt_u32 [of a] unat_lt_u32 [of b] by (intro mult_mono) auto
  also have "\<dots> < (2 :: nat) ^ 64" by simp
  finally show ?thesis .
qed

lemma layout_ok_invariant: "layout_ok pl \<Longrightarrow> pdclust_invariant pl"
  by (auto simp: layout_ok_def pdclust_invariant_def Let_def word_unat_eq_iff unat_mult_lem unat_word_ariths)

lemma cache_ok_invariant:
  assumes "cache_ok pi" "layout_ok (pi_layout pi)"
  shows "pdclust_instance_invariant pi"
proof -
  have tp: "tile_perm (pi_attr pi) (pi_gfid pi) (tc_tile_no (pi_tile_cache pi)) =
      Some (tc_permute (pi_tile_cache pi), tc_inverse (pi_tile_cache pi))"
    using assms by (simp add: cache_ok_def cache_coherent_def Let_def)
  have "\<forall>i < pi_P pi. tc_permute (pi_tile_cache pi) ! i < pi_P pi"
    using tile_perm_inverse(1) [OF tp] nth_mem by (fastforce simp: perm_below_def)
  moreover have "wrap_u32 x = x" if "x < pi_P pi" for x
    using that unat_lt_u32 [of "pa_P (pi_attr pi)"] by (intro wrap_u32_id) simp
  ultimately show ?thesis
    using tile_perm_inverse [OF tp] assms layout_ok_invariant
    by (simp add: pdclust_instance_invariant_def Let_def list_all_iff cache_ok_def cache_shape_def)
qed

text \<open>The unit's place in its tile, and the bound that keeps the frame number in range.\<close>

lemma tile_pos_lt:
  fixes W :: nat assumes "j < C" "u < W" shows "j * W + u < C * W"
proof -
  have "j * W + u < Suc j * W" using assms(2) by simp
  also have "\<dots> \<le> C * W" using assms(1) by (intro mult_le_mono1) simp
  finally show ?thesis .
qed

lemma tile_row_le:
  fixes W :: nat assumes "u < W" "W \<le> P" shows "(j * W + u) div P \<le> j"
proof -
  have "j * W + u < Suc j * P" using tile_pos_lt [of j "Suc j" u P] assms
    by (metis add_le_mono1 lessI less_le_trans mult_le_mono2 not_less order_le_less_trans)
  then show ?thesis by (metis less_Suc_eq_le less_mult_imp_div_less)
qed

lemma tile_row_lt: "pos < L * (P :: nat) \<Longrightarrow> pos div P < L"
  by (simp add: less_mult_imp_div_less)

text \<open>The decoded position of a unit, over natural numbers.\<close>

definition unit_pos :: "m0_pdclust_layout \<Rightarrow> m0_pdclust_src_addr \<Rightarrow> nat" where
  "unit_pos pl src = unat (sa_group src) mod unat (pl_C pl) * pl_W pl + unat (sa_unit src)"

definition frame_pos :: "m0_pdclust_layout \<Rightarrow> nat list \<Rightarrow> m0_pdclust_tgt_addr \<Rightarrow> nat" where
  "frame_pos pl r tgt = unat (ta_frame tgt) mod unat (pl_L pl) * pl_P pl + r ! unat (ta_obj tgt)"

lemma layout_ok_C: "layout_ok pl \<Longrightarrow> 0 < unat (pl_C pl)" and
  layout_ok_L_le_C: "layout_ok pl \<Longrightarrow> unat (pl_L pl) \<le> unat (pl_C pl)"
proof -
  assume ok: "layout_ok pl"
  then have eq: "unat (pl_C pl) * pl_W pl = unat (pl_L pl) * pl_P pl" and le: "pl_W pl \<le> pl_P pl" "0 < pl_W pl"
    "0 < unat (pl_L pl)" by (simp_all add: layout_ok_def)
  from eq le show "0 < unat (pl_C pl)" by (metis mult_is_0 neq0_conv not_less)
  have "unat (pl_L pl) * pl_W pl \<le> unat (pl_C pl) * pl_W pl" using eq le(1) by simp
  then show "unat (pl_L pl) \<le> unat (pl_C pl)" using le(2) by simp
qed

text \<open>None of the widths by which a position of such a layout is decoded is zero.\<close>

lemma m_dec_nonzero: "0 < unat width \<Longrightarrow> m_dec width pos = Some (pos div width, pos mod width)"
  by (auto simp: m_dec_def)

lemma layout_m_dec:
  assumes "layout_ok pl"
  shows "m_dec (ucast (pl_C pl)) pos = Some (pos div ucast (pl_C pl), pos mod ucast (pl_C pl))"
    "m_dec (ucast (pl_L pl)) pos = Some (pos div ucast (pl_L pl), pos mod ucast (pl_L pl))"
    "m_dec (ucast (pa_P (pl_attr pl))) pos = Some (pos div ucast (pa_P (pl_attr pl)), pos mod ucast (pa_P (pl_attr pl)))"
    "m_dec (ucast (pa_N (pl_attr pl) + pa_K (pl_attr pl) + pa_S (pl_attr pl))) pos =
       Some (pos div ucast (pa_N (pl_attr pl) + pa_K (pl_attr pl) + pa_S (pl_attr pl)),
             pos mod ucast (pa_N (pl_attr pl) + pa_K (pl_attr pl) + pa_S (pl_attr pl)))"
  using layout_ok_C [OF assms] assms by (simp_all add: m_dec_nonzero layout_ok_def)

lemma unit_pos_lt:
  "layout_ok pl \<Longrightarrow> unat (sa_unit src) < pl_W pl \<Longrightarrow> unit_pos pl src < unat (pl_L pl) * pl_P pl"
  using tile_pos_lt [of "unat (sa_group src) mod unat (pl_C pl)" "unat (pl_C pl)" "unat (sa_unit src)" "pl_W pl"]
    layout_ok_C [of pl] by (simp add: unit_pos_def layout_ok_def)

lemma frame_no_overflow:
  assumes "layout_ok pl" "unat (sa_unit src) < pl_W pl"
  shows "unat (sa_group src) div unat (pl_C pl) * unat (pl_L pl) + unit_pos pl src div pl_P pl
           \<le> unat (sa_group src)"
proof -
  have "unit_pos pl src div pl_P pl \<le> unat (sa_group src) mod unat (pl_C pl)"
    using tile_row_le [of "unat (sa_unit src)" "pl_W pl" "pl_P pl"] assms by (simp add: unit_pos_def layout_ok_def)
  moreover have "unat (sa_group src) div unat (pl_C pl) * unat (pl_L pl)
      \<le> unat (sa_group src) div unat (pl_C pl) * unat (pl_C pl)"
    using layout_ok_L_le_C [OF assms(1)] by (intro mult_le_mono2)
  ultimately show ?thesis using div_mult_mod_eq [of "unat (sa_group src)" "unat (pl_C pl)"] by linarith
qed

lemma instance_map_eval:
  assumes ok: "cache_ok pi" and lok: "layout_ok (pi_layout pi)"
    and u: "unat (sa_unit src) < pl_W (pi_layout pi)"
    and tp: "tile_perm (pi_attr pi) (pi_gfid pi) (sa_group src div ucast (pl_C (pi_layout pi))) = Some (s, r)"
  shows "\<exists>pi' tgt. m0_pdclust_instance_map pi src = Some (pi', tgt) \<and> cache_ok pi' \<and>
     pi_layout pi' = pi_layout pi \<and> pi_gfid pi' = pi_gfid pi \<and>
     unat (ta_frame tgt) = unat (sa_group src) div unat (pl_C (pi_layout pi)) * unat (pl_L (pi_layout pi)) +
       unit_pos (pi_layout pi) src div pi_P pi \<and>
     unat (ta_obj tgt) = s ! (unit_pos (pi_layout pi) src mod pi_P pi)"
proof -
  let ?pl = "pi_layout pi" and ?A = "pi_attr pi"
  let ?W = "ucast (pa_N ?A + pa_K ?A + pa_S ?A) :: u64" and ?C = "ucast (pl_C ?pl) :: u64"
  let ?L = "ucast (pl_L ?pl) :: u64" and ?P = "ucast (pa_P ?A) :: u64"
  let ?omega = "sa_group src div ?C" and ?j = "sa_group src mod ?C"
  have P0: "0 < pl_P ?pl" using lok by (simp add: layout_ok_def)
  have "unit_pos ?pl src < 2 ^ 64"
    using unit_pos_lt [OF lok u] unat_ucast_mult_lt [of "pl_L ?pl" "pa_P ?A"] by linarith
  then obtain pos where pos: "m_enc ?W ?j (sa_unit src) = Some pos" "unat pos = unit_pos ?pl src"
    using m_enc_unat [of "sa_unit src" ?W ?j] u by (auto simp: unit_pos_def unat_mod)
  have t: "unat (pos mod ?P) < pi_P pi" "unat (pos mod ?P) = unit_pos ?pl src mod pi_P pi"
    using P0 pos(2) by (simp_all add: unat_mod)
  obtain pi' c where col: "permute_column pi ?omega (pos mod ?P) = Some (pi', c)"
    using tile.col_defined [OF ok, of ?omega "pos mod ?P"] tp t by (auto simp: tile_fun_def)
  have k: "cache_ok pi'" "pi_layout pi' = ?pl" "pi_gfid pi' = pi_gfid pi"
    using tile.col_keeps [OF ok col] by simp_all
  have c: "unat c = s ! (unit_pos ?pl src mod pi_P pi)"
    using tile.col_value [OF ok col] tp t by (simp add: tile_fun_def)
  have r: "unat (pos div ?P) < unat ?L" "unat (pos div ?P) = unit_pos ?pl src div pi_P pi"
    using tile_row_lt [OF unit_pos_lt [OF lok u]] pos(2) by (simp_all add: unat_div)
  have "unat ?omega * unat ?L + unat (pos div ?P) < 2 ^ 64"
    using frame_no_overflow [OF lok u] r(2) unat_lt_u64 [of "sa_group src"] by (simp add: unat_div)
  then obtain frame where "m_enc ?L ?omega (pos div ?P) = Some frame"
    "unat frame = unat ?omega * unat ?L + unat (pos div ?P)" using m_enc_unat [OF r(1)] by auto
  then show ?thesis
    using cache_ok_invariant [OF ok lok] pos(1) col k c r(2)
    by (simp add: m0_pdclust_instance_map_def layout_m_dec [OF lok] Let_def bind_M0_ASSERT_True unat_div)
qed

lemma frame_pos_lt:
  "layout_ok pl \<Longrightarrow> r ! unat (ta_obj tgt) < pl_P pl \<Longrightarrow> frame_pos pl r tgt < unat (pl_C pl) * pl_W pl"
  using tile_pos_lt [of "unat (ta_frame tgt) mod unat (pl_L pl)" "unat (pl_L pl)" "r ! unat (ta_obj tgt)" "pl_P pl"]
  by (simp add: frame_pos_def layout_ok_def)

lemma instance_inv_eval:
  assumes ok: "cache_ok pi" and lok: "layout_ok (pi_layout pi)"
    and obj: "unat (ta_obj tgt) < pi_P pi"
    and tp: "tile_perm (pi_attr pi) (pi_gfid pi) (ta_frame tgt div ucast (pl_L (pi_layout pi))) = Some (s, r)"
    and room: "unat (ta_frame tgt) div unat (pl_L (pi_layout pi)) * unat (pl_C (pi_layout pi)) +
       frame_pos (pi_layout pi) r tgt div pl_W (pi_layout pi) < 2 ^ 64"
  shows "\<exists>pi' src. m0_pdclust_instance_inv pi tgt = Some (pi', src) \<and> cache_ok pi' \<and>
     pi_layout pi' = pi_layout pi \<and> pi_gfid pi' = pi_gfid pi \<and>
     unat (sa_group src) = unat (ta_frame tgt) div unat (pl_L (pi_layout pi)) * unat (pl_C (pi_layout pi)) +
       frame_pos (pi_layout pi) r tgt div pl_W (pi_layout pi) \<and>
     unat (sa_unit src) = frame_pos (pi_layout pi) r tgt mod pl_W (pi_layout pi)"
proof -
  let ?pl = "pi_layout pi" and ?A = "pi_attr pi"
  let ?W = "ucast (pa_N ?A + pa_K ?A + pa_S ?A) :: u64" and ?C = "ucast (pl_C ?pl) :: u64"
  let ?L = "ucast (pl_L ?pl) :: u64" and ?P = "ucast (pa_P ?A) :: u64"
  let ?omega = "ta_frame tgt div ?L" and ?row = "ta_frame tgt mod ?L"
  obtain pi' c where col: "permute_column pi ?omega (ta_obj tgt) = Some (pi', c)"
    using tile.col_defined [OF ok, of ?omega "ta_obj tgt"] tp obj by (auto simp: tile_fun_def)
  have k: "cache_ok pi'" "pi_layout pi' = ?pl" "pi_gfid pi' = pi_gfid pi"
    using tile.col_keeps [OF ok col] by simp_all
  have inv: "tc_inverse (pi_tile_cache pi') = r"
    using permute_column_cases [OF ok col] tp
    by (metis (no_types, lifting) m0_pdclust_instance.select_convs(3) m0_pdclust_instance.surjective
      m0_pdclust_instance.update_convs(3) option.inject prod.inject tile_cache.select_convs(3))
  have b: "r ! unat (ta_obj tgt) < pi_P pi" using tile_perm_inverse(4) [OF tp] obj by simp
  let ?t = "of_nat (r ! unat (ta_obj tgt)) :: u64"
  have t: "unat ?t = r ! unat (ta_obj tgt)" using unat_of_nat_P [OF b] .
  have plt: "frame_pos ?pl r tgt < unat (pl_C ?pl) * pl_W ?pl" using frame_pos_lt [OF lok] b by simp
  then have "frame_pos ?pl r tgt < 2 ^ 64"
    using unat_ucast_mult_lt [of "pl_C ?pl" "pa_N ?A + pa_K ?A + pa_S ?A"] by linarith
  then obtain pos where pos: "m_enc ?P ?row ?t = Some pos" "unat pos = frame_pos ?pl r tgt"
    using m_enc_unat [of ?t ?P ?row] t b by (auto simp: frame_pos_def unat_mod)
  have j: "unat (pos div ?W) < unat ?C" "unat (pos div ?W) = frame_pos ?pl r tgt div pl_W ?pl"
    using tile_row_lt [OF plt] pos(2) by (simp_all add: unat_div)
  have "unat ?omega * unat ?C + unat (pos div ?W) < 2 ^ 64"
    using room j(2) by (simp add: unat_div)
  then obtain group where "m_enc ?C ?omega (pos div ?W) = Some group"
    "unat group = unat ?omega * unat ?C + unat (pos div ?W)" using m_enc_unat [OF j(1)] by auto
  then show ?thesis
    using cache_ok_invariant [OF ok lok] pos col k j(2) inv
    by (simp add: m0_pdclust_instance_inv_def layout_m_dec [OF lok] Let_def bind_M0_ASSERT_True unat_div unat_mod)
qed

text \<open>A call that returns had a unit of the group and a permutation of its tile.\<close>

lemma instance_map_defined:
  assumes ok: "cache_ok pi" and map: "m0_pdclust_instance_map pi src = Some (pi', tgt)"
  obtains s r where "unat (sa_unit src) < pl_W (pi_layout pi)"
    "tile_perm (pi_attr pi) (pi_gfid pi) (sa_group src div ucast (pl_C (pi_layout pi))) = Some (s, r)"
proof -
  from map obtain t res where "unat (sa_unit src) < pl_W (pi_layout pi)"
    and "permute_column pi (sa_group src div ucast (pl_C (pi_layout pi))) t = Some res"
    by (auto simp: m0_pdclust_instance_map_def m_dec_def m_enc_def Let_def bind_eq_Some_conv word_less_nat_alt split: if_splits)
  then show ?thesis
    using that permute_column_cases [OF ok] by (metis surj_pair)
qed

lemma instance_inv_defined:
  assumes ok: "cache_ok pi" and inv: "m0_pdclust_instance_inv pi tgt = Some (pi', src)"
  obtains s r where "unat (ta_obj tgt) < pi_P pi"
    "tile_perm (pi_attr pi) (pi_gfid pi) (ta_frame tgt div ucast (pl_L (pi_layout pi))) = Some (s, r)"
proof -
  from inv obtain res where "permute_column pi (ta_frame tgt div ucast (pl_L (pi_layout pi))) (ta_obj tgt) = Some res"
    by (auto simp: m0_pdclust_instance_inv_def m_dec_def Let_def bind_eq_Some_conv split: if_splits)
  then show ?thesis
    using that permute_column_cases [OF ok] by (metis surj_pair)
qed

lemma instance_mapD:
  assumes ok: "cache_ok pi" and lok: "layout_ok (pi_layout pi)"
    and map: "m0_pdclust_instance_map pi src = Some (pi', tgt)"
  obtains s r where "unat (sa_unit src) < pl_W (pi_layout pi)"
    "tile_perm (pi_attr pi) (pi_gfid pi) (sa_group src div ucast (pl_C (pi_layout pi))) = Some (s, r)"
    "cache_ok pi'" "pi_layout pi' = pi_layout pi" "pi_gfid pi' = pi_gfid pi"
    "unat (ta_frame tgt) = unat (sa_group src) div unat (pl_C (pi_layout pi)) * unat (pl_L (pi_layout pi)) +
       unit_pos (pi_layout pi) src div pi_P pi"
    "unat (ta_obj tgt) = s ! (unit_pos (pi_layout pi) src mod pi_P pi)"
  using instance_map_defined [OF ok map] instance_map_eval [OF ok lok] map
  by (smt (verit) option.inject prod.inject)

lemma src_addr_eqI:
  "unat (sa_group a) = unat (sa_group b) \<Longrightarrow> unat (sa_unit a) = unat (sa_unit b) \<Longrightarrow> a = (b :: m0_pdclust_src_addr)"
  by (simp add: word_unat_eq_iff [symmetric])

lemma tgt_addr_eqI:
  "unat (ta_frame a) = unat (ta_frame b) \<Longrightarrow> unat (ta_obj a) = unat (ta_obj b) \<Longrightarrow> a = (b :: m0_pdclust_tgt_addr)"
  by (simp add: word_unat_eq_iff [symmetric])

lemma mod_window_le:
  fixes P :: nat
  assumes "a < W" "b \<le> a" "W \<le> P" "(q + a) mod P = (q + b) mod P"
  shows "a = b"
proof -
  have "P dvd (q + a) - (q + b)" using assms(2,4) mod_eq_dvd_iff_nat [of "q + b" "q + a" P] by simp
  then have "P dvd a - b" by simp
  then show ?thesis using assms nat_dvd_not_less [of "a - b" P] by linarith
qed

lemma mod_window_inj:
  fixes P :: nat
  assumes "a < W" "b < W" "W \<le> P" "(q + a) mod P = (q + b) mod P"
  shows "a = b"
  using mod_window_le [of a W b P q] mod_window_le [of b W a P q] assms by (cases "b \<le> a") simp_all

lemma populate_arith:
  fixes P W :: nat
  assumes "0 < W" "0 < P"
  shows "P * W div gcd W P div W * W = lcm W P" "P * W div gcd W P div P * P = lcm W P"
    "P * W div gcd W P = lcm W P"
proof -
  show l: "P * W div gcd W P = lcm W P" by (simp add: lcm_nat_def mult.commute)
  show "P * W div gcd W P div W * W = lcm W P" "P * W div gcd W P div P * P = lcm W P"
    unfolding l by simp_all
qed


subsection \<open>A sample layout\<close>

definition sample_attr :: m0_pdclust_attr where
  "sample_attr = \<lparr>pa_N = 1, pa_K = 1, pa_S = 0, pa_P = 3, pa_unit_size = 4096,
     pa_seed = \<lparr>u_hi = 8458373622383010676, u_lo = 6868631190211297140\<rparr>\<rparr>"

definition sample_layout :: m0_pdclust_layout where
  "sample_layout = \<lparr>pl_attr = sample_attr, pl_C = 3, pl_L = 2, pl_enum_nr = 3\<rparr>"

definition sample_instance :: m0_pdclust_instance where
  "sample_instance = \<lparr>pi_layout = sample_layout, pi_gfid = \<lparr>f_container = 1, f_key = 9\<rparr>,
     pi_tile_cache = \<lparr>tc_tile_no = 0, tc_permute = [2, 1, 0], tc_inverse = [2, 1, 0], tc_lcode = [2, 1, 0]\<rparr>\<rparr>"

lemma sample_layout_ok: "layout_ok sample_layout"
  by code_simp

lemma sample_cache_ok: "cache_ok sample_instance"
  by code_simp

lemma sample_instance_layout: "pi_layout sample_instance = sample_layout"
  by (simp add: sample_instance_def)

section \<open>Properties\<close>

text \<open>
  C21. The layout mapping is invertible: whenever \<^verbatim>\<open>m0_pdclust_instance_map()\<close> places a unit of a
  parity group in a frame of a target object, \<^verbatim>\<open>m0_pdclust_instance_inv()\<close> of that frame returns
  (it fails no assertion) and yields the same group and unit, on any instance of the same layout
  and file and whatever tiles the two instances have cached.
\<close>

theorem instance_inv_map:
  assumes ok: "cache_ok pi" "cache_ok qi" and lok: "layout_ok (pi_layout pi)"
    and same: "pi_layout qi = pi_layout pi" "pi_gfid qi = pi_gfid pi"
    and map: "m0_pdclust_instance_map pi src = Some (pi', tgt)"
  shows "\<exists>qi'. m0_pdclust_instance_inv qi tgt = Some (qi', src)"
proof -
  let ?pl = "pi_layout pi" and ?pos = "unit_pos (pi_layout pi) src"
  obtain s r where u: "unat (sa_unit src) < pl_W ?pl"
    and tp: "tile_perm (pi_attr pi) (pi_gfid pi) (sa_group src div ucast (pl_C ?pl)) = Some (s, r)"
    and fr: "unat (ta_frame tgt) = unat (sa_group src) div unat (pl_C ?pl) * unat (pl_L ?pl) + ?pos div pl_P ?pl"
    and ob: "unat (ta_obj tgt) = s ! (?pos mod pl_P ?pl)"
    by (rule instance_mapD [OF ok(1) lok map])
  have P0: "0 < pl_P ?pl" using lok by (simp add: layout_ok_def)
  have row: "?pos div pl_P ?pl < unat (pl_L ?pl)" using tile_row_lt [OF unit_pos_lt [OF lok u]] .
  have omega: "unat (ta_frame tgt) div unat (pl_L ?pl) = unat (sa_group src) div unat (pl_C ?pl)"
    "unat (ta_frame tgt) mod unat (pl_L ?pl) = ?pos div pl_P ?pl" using fr row by simp_all
  have tile: "ta_frame tgt div ucast (pl_L ?pl) = sa_group src div ucast (pl_C ?pl)"
    using omega(1) by (simp add: word_unat_eq_iff unat_div)
  have inv: "r ! unat (ta_obj tgt) = ?pos mod pl_P ?pl" and obj: "unat (ta_obj tgt) < pl_P ?pl"
    using tile_perm_inverse [OF tp] ob P0 nth_mem [of "?pos mod pl_P ?pl" s] by (auto simp: perm_below_def)
  have pos: "frame_pos ?pl r tgt = ?pos" using inv omega(2) by (simp add: frame_pos_def)
  have du: "?pos div pl_W ?pl = unat (sa_group src) mod unat (pl_C ?pl)" "?pos mod pl_W ?pl = unat (sa_unit src)"
    using u by (simp_all add: unit_pos_def)
  have "\<exists>qi' src'. m0_pdclust_instance_inv qi tgt = Some (qi', src') \<and>
      unat (sa_group src') = unat (sa_group src) \<and> unat (sa_unit src') = unat (sa_unit src)"
    using instance_inv_eval [OF ok(2), of tgt s r] same lok obj tp tile omega pos du unat_lt_u64 [of "sa_group src"]
    by auto
  then show ?thesis using src_addr_eqI by blast
qed

theorem instance_inv_map_witness:
  "\<exists>pi' tgt qi'. m0_pdclust_instance_map sample_instance \<lparr>sa_group = 4, sa_unit = 1\<rparr> = Some (pi', tgt) \<and>
     m0_pdclust_instance_inv sample_instance tgt = Some (qi', \<lparr>sa_group = 4, sa_unit = 1\<rparr>)"
proof -
  have "m0_pdclust_instance_map sample_instance \<lparr>sa_group = 4, sa_unit = 1\<rparr> \<noteq> None" by code_simp
  then obtain pi' tgt where
    "m0_pdclust_instance_map sample_instance \<lparr>sa_group = 4, sa_unit = 1\<rparr> = Some (pi', tgt)" by auto
  with instance_inv_map [OF sample_cache_ok sample_cache_ok _ refl refl this] sample_layout_ok
  show ?thesis by (auto simp: sample_instance_layout)
qed

text \<open>
  C23. The mapping covers every frame: whenever \<^verbatim>\<open>m0_pdclust_instance_inv()\<close> names the unit stored
  in a frame of a target object and the group number does not run past 64 bits,
  \<^verbatim>\<open>m0_pdclust_instance_map()\<close> of that unit returns and yields the same frame and object.
\<close>

theorem instance_map_inv:
  assumes ok: "cache_ok pi" "cache_ok qi" and lok: "layout_ok (pi_layout pi)"
    and same: "pi_layout qi = pi_layout pi" "pi_gfid qi = pi_gfid pi"
    and room: "(unat (ta_frame tgt) div unat (pl_L (pi_layout pi)) + 1) * unat (pl_C (pi_layout pi)) \<le> 2 ^ 64"
    and inv: "m0_pdclust_instance_inv pi tgt = Some (pi', src)"
  shows "\<exists>qi'. m0_pdclust_instance_map qi src = Some (qi', tgt)"
proof -
  let ?pl = "pi_layout pi" and ?om = "unat (ta_frame tgt) div unat (pl_L (pi_layout pi))"
  obtain s r where obj: "unat (ta_obj tgt) < pl_P ?pl"
    and tp: "tile_perm (pi_attr pi) (pi_gfid pi) (ta_frame tgt div ucast (pl_L ?pl)) = Some (s, r)"
    by (rule instance_inv_defined [OF ok(1) inv])
  let ?pos = "frame_pos ?pl r tgt"
  have W0: "0 < pl_W ?pl" using lok by (simp add: layout_ok_def)
  have b: "r ! unat (ta_obj tgt) < pl_P ?pl" "s ! (r ! unat (ta_obj tgt)) = unat (ta_obj tgt)"
    using tile_perm_inverse(4) [OF tp] obj by simp_all
  have row: "?pos div pl_W ?pl < unat (pl_C ?pl)" using tile_row_lt [OF frame_pos_lt [OF lok]] b by simp
  have src: "unat (sa_group src) = ?om * unat (pl_C ?pl) + ?pos div pl_W ?pl" "unat (sa_unit src) = ?pos mod pl_W ?pl"
    using instance_inv_eval [OF ok(1) lok obj tp] room row inv by auto
  have om: "unat (sa_group src) div unat (pl_C ?pl) = ?om" "unat (sa_group src) mod unat (pl_C ?pl) = ?pos div pl_W ?pl"
    using src row by simp_all
  have tile: "sa_group src div ucast (pl_C ?pl) = ta_frame tgt div ucast (pl_L ?pl)"
    using om(1) by (simp add: word_unat_eq_iff unat_div)
  have pos: "unit_pos ?pl src = ?pos" using om(2) src(2) by (simp add: unit_pos_def)
  have df: "?pos div pl_P ?pl = unat (ta_frame tgt) mod unat (pl_L ?pl)" "?pos mod pl_P ?pl = r ! unat (ta_obj tgt)"
    using b by (simp_all add: frame_pos_def)
  have "\<exists>qi' tgt'. m0_pdclust_instance_map qi src = Some (qi', tgt') \<and>
      unat (ta_frame tgt') = unat (ta_frame tgt) \<and> unat (ta_obj tgt') = unat (ta_obj tgt)"
    using instance_map_eval [OF ok(2), of src s r] same lok W0 src tp tile om pos df b by auto
  then show ?thesis using tgt_addr_eqI by blast
qed

theorem instance_map_inv_witness:
  "\<exists>pi' src qi'. m0_pdclust_instance_inv sample_instance \<lparr>ta_frame = 3, ta_obj = 2\<rparr> = Some (pi', src) \<and>
     m0_pdclust_instance_map sample_instance src = Some (qi', \<lparr>ta_frame = 3, ta_obj = 2\<rparr>)"
proof -
  have "m0_pdclust_instance_inv sample_instance \<lparr>ta_frame = 3, ta_obj = 2\<rparr> \<noteq> None" by code_simp
  then obtain pi' src where inv:
    "m0_pdclust_instance_inv sample_instance \<lparr>ta_frame = 3, ta_obj = 2\<rparr> = Some (pi', src)" by auto
  have "(unat (ta_frame \<lparr>ta_frame = 3, ta_obj = 2\<rparr>) div unat (pl_L (pi_layout sample_instance)) + 1)
      * unat (pl_C (pi_layout sample_instance)) \<le> 2 ^ 64"
    by (simp add: sample_instance_layout sample_layout_def)
  from instance_map_inv [OF sample_cache_ok sample_cache_ok _ refl refl this inv] inv sample_layout_ok
  show ?thesis by (auto simp: sample_instance_layout)
qed

text \<open>
  C22. Two different units of one parity group are never placed on the same target object, so the
  loss of one object costs a group at most one unit.
\<close>

theorem instance_map_distinct_objects:
  assumes ok: "cache_ok pi" "cache_ok qi" and lok: "layout_ok (pi_layout pi)"
    and same: "pi_layout qi = pi_layout pi" "pi_gfid qi = pi_gfid pi"
    and map: "m0_pdclust_instance_map pi src = Some (pi', tgt)"
    and map': "m0_pdclust_instance_map qi src' = Some (qi', tgt')"
    and group: "sa_group src' = sa_group src" "sa_unit src' \<noteq> sa_unit src"
  shows "ta_obj tgt' \<noteq> ta_obj tgt"
proof
  let ?pl = "pi_layout pi"
  assume eq: "ta_obj tgt' = ta_obj tgt"
  obtain s r where u: "unat (sa_unit src) < pl_W ?pl"
    and tp: "tile_perm (pi_attr pi) (pi_gfid pi) (sa_group src div ucast (pl_C ?pl)) = Some (s, r)"
    and ob: "unat (ta_obj tgt) = s ! (unit_pos ?pl src mod pl_P ?pl)"
    by (rule instance_mapD [OF ok(1) lok map])
  obtain s' r' where u': "unat (sa_unit src') < pl_W ?pl"
    and tp': "tile_perm (pi_attr pi) (pi_gfid pi) (sa_group src div ucast (pl_C ?pl)) = Some (s', r')"
    and ob': "unat (ta_obj tgt') = s' ! (unit_pos ?pl src' mod pl_P ?pl)"
    using instance_mapD [OF ok(2) _ map'] lok same group(1) by metis
  have P: "0 < pl_P ?pl" "pl_W ?pl \<le> pl_P ?pl" using lok by (simp_all add: layout_ok_def)
  have "s ! (unit_pos ?pl src mod pl_P ?pl) = s ! (unit_pos ?pl src' mod pl_P ?pl)"
    using ob ob' tp tp' eq by simp
  then have "unit_pos ?pl src mod pl_P ?pl = unit_pos ?pl src' mod pl_P ?pl"
    using tile_perm_inverse(3) [OF tp] P(1) by (metis mod_less_divisor)
  then have "unat (sa_unit src) = unat (sa_unit src')"
    using mod_window_inj [OF u u' P(2)] group(1) by (simp add: unit_pos_def)
  then show False using group(2) by (simp add: word_unat_eq_iff)
qed

theorem instance_map_distinct_objects_witness:
  "\<exists>pi' tgt qi' tgt'. m0_pdclust_instance_map sample_instance \<lparr>sa_group = 4, sa_unit = 0\<rparr> = Some (pi', tgt) \<and>
     m0_pdclust_instance_map sample_instance \<lparr>sa_group = 4, sa_unit = 1\<rparr> = Some (qi', tgt') \<and>
     ta_obj tgt' \<noteq> ta_obj tgt"
proof -
  have "m0_pdclust_instance_map sample_instance \<lparr>sa_group = 4, sa_unit = 0\<rparr> \<noteq> None"
    "m0_pdclust_instance_map sample_instance \<lparr>sa_group = 4, sa_unit = 1\<rparr> \<noteq> None" by code_simp+
  then obtain pi' tgt qi' tgt' where m:
    "m0_pdclust_instance_map sample_instance \<lparr>sa_group = 4, sa_unit = 0\<rparr> = Some (pi', tgt)"
    "m0_pdclust_instance_map sample_instance \<lparr>sa_group = 4, sa_unit = 1\<rparr> = Some (qi', tgt')" by auto
  from instance_map_distinct_objects [OF sample_cache_ok sample_cache_ok _ refl refl m] sample_layout_ok m
  show ?thesis by (simp add: sample_instance_layout)
qed

text \<open>
  C24. The tile cache is transparent: where a unit is mapped to, and whether the call returns at
  all, depends on the layout and the file only and not on what the instance has cached, and every
  call leaves a cache for which this holds again. No frame number exceeds the group number, so
  the 64-bit arithmetic of the mapping never wraps.
\<close>

theorem instance_map_cache_transparent:
  assumes ok: "cache_ok pi" "cache_ok qi" and lok: "layout_ok (pi_layout pi)"
    and same: "pi_layout qi = pi_layout pi" "pi_gfid qi = pi_gfid pi"
    and map: "m0_pdclust_instance_map pi src = Some (pi', tgt)"
  shows "cache_ok pi' \<and> pi_layout pi' = pi_layout pi \<and> pi_gfid pi' = pi_gfid pi \<and>
         ta_frame tgt \<le> sa_group src \<and>
         (\<exists>qi'. m0_pdclust_instance_map qi src = Some (qi', tgt))"
proof -
  let ?pl = "pi_layout pi"
  obtain s r where u: "unat (sa_unit src) < pl_W ?pl"
    and tp: "tile_perm (pi_attr pi) (pi_gfid pi) (sa_group src div ucast (pl_C ?pl)) = Some (s, r)"
    and k: "cache_ok pi'" "pi_layout pi' = ?pl" "pi_gfid pi' = pi_gfid pi"
    and fr: "unat (ta_frame tgt) = unat (sa_group src) div unat (pl_C ?pl) * unat (pl_L ?pl) +
       unit_pos ?pl src div pl_P ?pl"
    and ob: "unat (ta_obj tgt) = s ! (unit_pos ?pl src mod pl_P ?pl)"
    by (rule instance_mapD [OF ok(1) lok map])
  have "\<exists>qi' tgt'. m0_pdclust_instance_map qi src = Some (qi', tgt') \<and>
      unat (ta_frame tgt') = unat (ta_frame tgt) \<and> unat (ta_obj tgt') = unat (ta_obj tgt)"
    using instance_map_eval [OF ok(2), of src s r] same lok u tp fr ob by auto
  then have "\<exists>qi'. m0_pdclust_instance_map qi src = Some (qi', tgt)" using tgt_addr_eqI by blast
  then show ?thesis using k frame_no_overflow [OF lok u] fr by (simp add: word_le_nat_alt)
qed

theorem instance_map_cache_transparent_witness:
  "\<exists>pi' tgt. m0_pdclust_instance_map sample_instance \<lparr>sa_group = 5, sa_unit = 0\<rparr> = Some (pi', tgt) \<and>
     cache_ok pi' \<and> ta_frame tgt \<le> 5"
proof -
  have "m0_pdclust_instance_map sample_instance \<lparr>sa_group = 5, sa_unit = 0\<rparr> \<noteq> None" by code_simp
  then obtain pi' tgt where m:
    "m0_pdclust_instance_map sample_instance \<lparr>sa_group = 5, sa_unit = 0\<rparr> = Some (pi', tgt)" by auto
  from instance_map_cache_transparent [OF sample_cache_ok sample_cache_ok _ refl refl m] sample_layout_ok m
  show ?thesis by (simp add: sample_instance_layout)
qed

text \<open>
  C25. A layout whose \<open>N + K + S\<close> units fit in the pool of \<open>P\<close> targets and for which \<open>P (N + K + S)\<close>
  fits in 32 bits is accepted by \<^verbatim>\<open>pdclust_populate()\<close>, and the tile it computes has
  \<open>lcm (N + K + S) P\<close> units, which fill its groups and its rows exactly.
\<close>

theorem pdclust_populate_tile:
  assumes fit: "unat (pa_N attr) + unat (pa_K attr) + unat (pa_S attr) \<le> unat (pa_P attr)"
    and pos: "0 < unat (pa_N attr) + unat (pa_K attr) + unat (pa_S attr)"
    and small: "unat (pa_P attr) * (unat (pa_N attr) + unat (pa_K attr) + unat (pa_S attr)) < 2 ^ 32"
  shows "\<exists>pl'. pdclust_populate pl attr (pa_P attr) = Some (0, pl') \<and> layout_ok pl' \<and> pl_attr pl' = attr \<and>
      unat (pl_C pl') * pl_W pl' = lcm (pl_W pl') (pl_P pl') \<and>
      unat (pl_L pl') * pl_P pl' = lcm (pl_W pl') (pl_P pl')"
proof -
  let ?w = "pa_N attr + pa_K attr + pa_S attr" and ?P = "unat (pa_P attr)"
  let ?W = "unat (pa_N attr) + unat (pa_K attr) + unat (pa_S attr)"
  have W: "unat ?w = ?W" using fit unat_lt_u32 [of "pa_P attr"] by (simp add: unat_word_ariths)
  have P0: "0 < ?P" using fit pos by linarith
  let ?g = "m0_gcd64 (ucast ?w) (ucast (pa_P attr))"
  have g: "unat ?g = gcd ?W ?P" using gcd64_eq_gcd W by simp
  have g0: "?g \<noteq> 0" using g pos by auto
  have lcm_le: "lcm ?W ?P < 2 ^ 32"
    using small populate_arith(3) [OF pos P0] div_le_dividend [of "?P * ?W" "gcd ?W ?P"] by linarith
  let ?B = "ucast (ucast (pa_P attr * ?w) div ?g) :: u32"
  have B: "unat ?B = lcm ?W ?P"
    using small W g lcm_le populate_arith(3) [OF pos P0] by (simp add: unat_ucast_64_32 unat_div unat_mult_noof)
  have C: "unat (?B div ?w) * ?W = lcm ?W ?P" and L: "unat (?B div pa_P attr) * ?P = lcm ?W ?P"
    using B W by (simp_all add: unat_div)
  have L0: "0 < unat (?B div pa_P attr)" using L pos P0 by (metis gr0I lcm_pos_nat mult_0 less_irrefl)
  let ?pl = "pl\<lparr>pl_enum_nr := pa_P attr, pl_attr := attr, pl_C := ?B div ?w, pl_L := ?B div pa_P attr\<rparr>"
  have ok: "layout_ok ?pl" using W C L L0 fit pos by (simp add: layout_ok_def)
  have "\<not> ?w > pa_P attr" "?w \<noteq> 0" "pa_P attr \<noteq> 0"
    using fit W pos P0 by (auto simp: word_less_nat_alt)
  then have "pdclust_populate pl attr (pa_P attr) = Some (0, ?pl)"
    using g0 layout_ok_invariant [OF ok] by (simp add: pdclust_populate_def Let_def bind_M0_ASSERT_True)
  then show ?thesis using ok C L W by simp
qed

theorem pdclust_populate_tile_witness:
  "\<exists>pl'. pdclust_populate sample_layout sample_attr 3 = Some (0, pl') \<and> layout_ok pl' \<and>
     unat (pl_C pl') * 2 = lcm 2 3"
  using pdclust_populate_tile [of sample_attr sample_layout] by (auto simp: sample_attr_def)



end
