(* ===== verification/Motr_Vec.thy ===== *)
theory Motr_Vec
  imports Motr_Misc
begin

text \<open>
  Vectors, buffer vectors and index vectors of \<^verbatim>\<open>src/lib/vec.c\<close>, and the cursors that walk them.

  A \<^verbatim>\<open>void *\<close> is a 64-bit address, memory a function from addresses to bytes, so that copies
  between aliasing buffers behave as \<^verbatim>\<open>memmove()\<close> does. An array pointer is the list of its
  elements and \<^verbatim>\<open>NULL\<close> the empty list; the answers of the allocator are arguments, 0 being a
  failed allocation, and what an operation hands back to \<^verbatim>\<open>m0_free()\<close> is part of its result.
  Segment numbers are natural numbers, cut where the code adds them in 32 bits; byte counts and offsets are 64-bit words that wrap. The
  checks of \<^verbatim>\<open>M0_ASSERT_EX\<close> are those of a build with expensive checks and are left out, as is
  fault injection.
\<close>

section \<open>Model\<close>

definition min64u :: "u64 \<Rightarrow> u64 \<Rightarrow> u64" where
  "min64u a b = (if a < b then a else b)"

subsection \<open>Vectors and their cursors\<close>

record m0_vec =
  v_nr :: nat
  v_count :: "u64 list"

record m0_vec_cursor =
  vc_vec :: m0_vec
  vc_seg :: nat
  vc_offset :: u64

fun vec_count_loop :: "u64 list \<Rightarrow> u64 \<Rightarrow> u64" where
  "vec_count_loop [] cnt = cnt"
| "vec_count_loop (c # cs) cnt = vec_count_loop cs (cnt + c)"

definition vec_count :: "m0_vec \<Rightarrow> nat \<Rightarrow> u64" where
  "vec_count vec i = vec_count_loop (drop i (take (v_nr vec) (v_count vec))) 0"

definition m0_vec_count :: "m0_vec \<Rightarrow> u64" where
  "m0_vec_count vec = vec_count vec 0"

definition m0_vec_is_empty :: "m0_vec \<Rightarrow> bool" where
  "m0_vec_is_empty vec = list_all (\<lambda>i. \<not> v_count vec ! i > 0) [0..<v_nr vec]"

definition m0_vec_cursor_invariant :: "m0_vec_cursor \<Rightarrow> bool" where
  "m0_vec_cursor_invariant cur \<longleftrightarrow>
     vc_seg cur \<le> v_nr (vc_vec cur) \<and>
     (vc_seg cur < v_nr (vc_vec cur) \<longrightarrow> vc_offset cur < v_count (vc_vec cur) ! vc_seg cur) \<and>
     (vc_seg cur = v_nr (vc_vec cur) \<longrightarrow> vc_offset cur = 0)"

function m0_vec_cursor_normalize :: "m0_vec_cursor \<Rightarrow> m0_vec_cursor" where
  "m0_vec_cursor_normalize cur =
     (if vc_seg cur < v_nr (vc_vec cur) \<and> v_count (vc_vec cur) ! vc_seg cur = 0
      then m0_vec_cursor_normalize (cur\<lparr>vc_seg := vc_seg cur + 1, vc_offset := 0\<rparr>)
      else cur)"
  by pat_completeness auto
termination
  by (relation "measure (\<lambda>cur. v_nr (vc_vec cur) - vc_seg cur)") auto

declare m0_vec_cursor_normalize.simps [simp del]

definition m0_vec_cursor_init :: "m0_vec \<Rightarrow> m0_vec_cursor option" where
  "m0_vec_cursor_init vec = do {
     let cur = m0_vec_cursor_normalize \<lparr>vc_vec = vec, vc_seg = 0, vc_offset = 0\<rparr>;
     M0_ASSERT (m0_vec_cursor_invariant cur);
     Some cur
   }"

definition m0_vec_cursor_step :: "m0_vec_cursor \<Rightarrow> u64 option" where
  "m0_vec_cursor_step cur = do {
     M0_ASSERT (vc_seg cur < v_nr (vc_vec cur));
     M0_ASSERT (m0_vec_cursor_invariant cur);
     Some (v_count (vc_vec cur) ! vc_seg cur - vc_offset cur)
   }"

lemma normalize_frame [simp]:
  "vc_vec (m0_vec_cursor_normalize cur) = vc_vec cur"
  "vc_seg cur \<le> vc_seg (m0_vec_cursor_normalize cur)"
proof (induction cur rule: m0_vec_cursor_normalize.induct)
  case (1 cur)
  {
    case 1
    then show ?case using "1.IH"(1) by (simp add: m0_vec_cursor_normalize.simps [of cur])
  next
    case 2
    then show ?case using "1.IH"(2) by (auto simp: m0_vec_cursor_normalize.simps [of cur])
  }
qed

function vec_cursor_move_loop :: "m0_vec_cursor \<Rightarrow> u64 \<Rightarrow> m0_vec_cursor option" where
  "vec_cursor_move_loop cur n =
     (if n > 0 \<and> vc_seg cur < v_nr (vc_vec cur)
      then do {
        step \<leftarrow> m0_vec_cursor_step cur;
        if n \<ge> step
        then vec_cursor_move_loop
               (m0_vec_cursor_normalize (cur\<lparr>vc_seg := vc_seg cur + 1, vc_offset := 0\<rparr>)) (n - step)
        else vec_cursor_move_loop
               (m0_vec_cursor_normalize (cur\<lparr>vc_offset := vc_offset cur + n\<rparr>)) 0
      }
      else Some cur)"
  by pat_completeness auto
termination
proof (relation "measures [\<lambda>(cur, n). v_nr (vc_vec cur) - vc_seg cur, \<lambda>(cur, n). unat n]", goal_cases)
  case (2 cur n step)
  have "v_nr (vc_vec cur) - vc_seg (m0_vec_cursor_normalize (cur\<lparr>vc_seg := vc_seg cur + 1, vc_offset := 0\<rparr>))
      < v_nr (vc_vec cur) - vc_seg cur"
    using normalize_frame(2) [of "cur\<lparr>vc_seg := vc_seg cur + 1, vc_offset := 0\<rparr>"] 2
    by simp (metis Suc_le_lessD diff_less_mono2)
  then show ?case using 2 by simp
next
  case (3 cur n step)
  have "vc_seg cur \<le> vc_seg (m0_vec_cursor_normalize (cur\<lparr>vc_offset := vc_offset cur + n\<rparr>))"
    using normalize_frame(2) [of "cur\<lparr>vc_offset := vc_offset cur + n\<rparr>"] by simp
  then show ?case using 3 by (auto simp: word_less_nat_alt)
qed simp

declare vec_cursor_move_loop.simps [simp del]

definition m0_vec_cursor_move :: "m0_vec_cursor \<Rightarrow> u64 \<Rightarrow> (m0_vec_cursor \<times> bool) option" where
  "m0_vec_cursor_move cur n = do {
     M0_ASSERT (m0_vec_cursor_invariant cur);
     cur \<leftarrow> vec_cursor_move_loop cur n;
     M0_ASSERT (m0_vec_cursor_invariant cur);
     Some (cur, vc_seg cur = v_nr (vc_vec cur))
   }"

definition m0_vec_cursor_end :: "m0_vec_cursor \<Rightarrow> u64 option" where
  "m0_vec_cursor_end cur = do {
     step \<leftarrow> m0_vec_cursor_step cur;
     Some (step + vec_count (vc_vec cur) (vc_seg cur + 1))
   }"

subsection \<open>Buffer vectors\<close>

record m0_bufvec =
  ov_vec :: m0_vec
  ov_buf :: "u64 list"

definition bufvec_zero :: m0_bufvec where
  "bufvec_zero = \<lparr>ov_vec = \<lparr>v_nr = 0, v_count = []\<rparr>, ov_buf = []\<rparr>"

text \<open>What \<^verbatim>\<open>m0_free()\<close> of a list of pointers releases: it ignores \<^verbatim>\<open>NULL\<close>.\<close>

definition free_all :: "u64 list \<Rightarrow> u64 list" where
  "free_all ps = filter (\<lambda>p. p \<noteq> 0) ps"

text \<open>The freed buffers, and the zeroed vector.\<close>

definition m0_bufvec__free :: "m0_bufvec \<Rightarrow> bool \<Rightarrow> u64 list \<times> m0_bufvec" where
  "m0_bufvec__free bufvec free_bufs =
     (if ov_buf bufvec \<noteq> [] \<and> free_bufs then free_all (take (v_nr (ov_vec bufvec)) (ov_buf bufvec)) else [],
      bufvec_zero)"

definition m0_bufvec_free :: "m0_bufvec \<Rightarrow> u64 list \<times> m0_bufvec" where
  "m0_bufvec_free bufvec = m0_bufvec__free bufvec True"

definition m0_bufvec_free2 :: "m0_bufvec \<Rightarrow> u64 list \<times> m0_bufvec" where
  "m0_bufvec_free2 bufvec = m0_bufvec__free bufvec False"

text \<open>
  The loop of \<^verbatim>\<open>bufvec_alloc()\<close> over the answers of the allocator, one for each segment; it
  stops at the first failed allocation. A packed vector takes its segments from one area.
\<close>

fun bufvec_alloc_loop ::
  "nat \<Rightarrow> u64 list \<Rightarrow> u64 \<Rightarrow> bool \<Rightarrow> u64 \<Rightarrow> m0_bufvec \<Rightarrow> bool \<times> m0_bufvec"
where
  "bufvec_alloc_loop i [] seg_size pack addr bufvec = (True, bufvec)"
| "bufvec_alloc_loop i (a # as) seg_size pack addr bufvec =
     (let p = (if pack then addr + of_nat i * seg_size else a);
          bufvec = bufvec\<lparr>ov_buf := (ov_buf bufvec)[i := p]\<rparr>
      in if p = 0 then (False, bufvec)
         else bufvec_alloc_loop (i + 1) as seg_size pack addr
                (bufvec\<lparr>ov_vec := (ov_vec bufvec)\<lparr>v_count := (v_count (ov_vec bufvec))[i := seg_size]\<rparr>\<rparr>))"

text \<open>
  \<open>cnt_ok\<close> and \<open>buf_ok\<close> say whether the two arrays can be allocated, \<open>answers i\<close> is the
  memory the allocator returns for segment \<open>i\<close> and \<open>area\<close> the area of a packed vector.
\<close>

definition bufvec_alloc ::
  "bool \<Rightarrow> bool \<Rightarrow> (nat \<Rightarrow> u64) \<Rightarrow> u64 \<Rightarrow> nat \<Rightarrow> u64 \<Rightarrow> nat \<Rightarrow> bool \<Rightarrow> (int \<times> u64 list \<times> m0_bufvec) option"
where
  "bufvec_alloc cnt_ok buf_ok answers area num_segs seg_size shift pack = do {
     M0_ASSERT (num_segs > 0);
     M0_ASSERT (shift \<noteq> 0 \<longrightarrow> seg_size > 0);
     (let bufvec = \<lparr>ov_vec = \<lparr>v_nr = num_segs, v_count = if cnt_ok then replicate num_segs 0 else []\<rparr>,
                    ov_buf = if cnt_ok \<and> buf_ok then replicate num_segs 0 else []\<rparr>;
          fail = (\<lambda>bufvec. let (freed, bufvec) = (if seg_size \<noteq> 0 then m0_bufvec_free bufvec
                                                 else m0_bufvec_free2 bufvec)
                           in (- ENOMEM, freed, bufvec))
      in if \<not> cnt_ok then Some (fail bufvec)
         else if \<not> buf_ok then Some (fail bufvec)
         else if seg_size \<noteq> 0 then do {
           M0_ASSERT (pack \<longrightarrow> shift \<noteq> 0);
           (let (ok, bufvec) = bufvec_alloc_loop 0 (map answers [0..<num_segs]) seg_size pack area bufvec
            in if ok then Some (0, [], bufvec) else Some (fail bufvec))
         }
         else Some (0, [], bufvec))
   }"

definition m0__bufvec_alloc ::
  "bool \<Rightarrow> bool \<Rightarrow> (nat \<Rightarrow> u64) \<Rightarrow> nat \<Rightarrow> u64 \<Rightarrow> nat \<Rightarrow> (int \<times> u64 list \<times> m0_bufvec) option"
where
  "m0__bufvec_alloc cnt_ok buf_ok answers num_segs seg_size shift =
     bufvec_alloc cnt_ok buf_ok answers 0 num_segs seg_size shift False"

definition m0_bufvec_empty_alloc :: "bool \<Rightarrow> bool \<Rightarrow> nat \<Rightarrow> (int \<times> u64 list \<times> m0_bufvec) option" where
  "m0_bufvec_empty_alloc cnt_ok buf_ok num_segs = m0__bufvec_alloc cnt_ok buf_ok (\<lambda>i. 0) num_segs 0 0"

definition m0_bufvec_alloc ::
  "bool \<Rightarrow> bool \<Rightarrow> (nat \<Rightarrow> u64) \<Rightarrow> nat \<Rightarrow> u64 \<Rightarrow> (int \<times> u64 list \<times> m0_bufvec) option"
where
  "m0_bufvec_alloc cnt_ok buf_ok answers num_segs seg_size = do {
     M0_ASSERT (seg_size > 0);
     m0__bufvec_alloc cnt_ok buf_ok answers num_segs seg_size 0
   }"

definition m0_bufvec_alloc_aligned ::
  "bool \<Rightarrow> bool \<Rightarrow> (nat \<Rightarrow> u64) \<Rightarrow> nat \<Rightarrow> u64 \<Rightarrow> nat \<Rightarrow> (int \<times> u64 list \<times> m0_bufvec) option"
where
  "m0_bufvec_alloc_aligned cnt_ok buf_ok answers num_segs seg_size shift =
     m0__bufvec_alloc cnt_ok buf_ok answers num_segs seg_size shift"

definition m0_bufvec_alloc_aligned_packed ::
  "bool \<Rightarrow> bool \<Rightarrow> u64 \<Rightarrow> nat \<Rightarrow> u64 \<Rightarrow> nat \<Rightarrow> (int \<times> u64 list \<times> m0_bufvec) option"
where
  "m0_bufvec_alloc_aligned_packed cnt_ok buf_ok area num_segs seg_size shift =
     bufvec_alloc cnt_ok buf_ok (\<lambda>i. 0) area num_segs seg_size shift True"

text \<open>
  \<^verbatim>\<open>m0_bufvec_extend()\<close>. The new number of segments is a 32-bit sum. If it wraps around, the new arrays
  are shorter than the old ones and \<^verbatim>\<open>memcpy()\<close> leaves them; if it is \<open>2 ^ 31\<close> or more, the index, an
  \<^verbatim>\<open>int\<close>, overflows. Both are failures of the process. The loop fills the new arrays from \<^verbatim>\<open>v_nr\<close> on; on a
  failed allocation at segment \<open>i\<close> the exit path frees \<^verbatim>\<open>new_buf_arr[0..i-1]\<close>. When one of the new arrays cannot be
  allocated \<open>i\<close> is still 0 and nothing but the other array is freed.
\<close>

fun extend_loop ::
  "nat \<Rightarrow> u64 list \<Rightarrow> u64 \<Rightarrow> u64 list \<Rightarrow> u64 list \<Rightarrow> bool \<times> nat \<times> u64 list \<times> u64 list"
where
  "extend_loop i [] seg_size buf cnt = (True, i, buf, cnt)"
| "extend_loop i (a # as) seg_size buf cnt =
     (let buf = buf[i := a]
      in if a = 0 then (False, i, buf, cnt)
         else extend_loop (i + 1) as seg_size buf (cnt[i := seg_size]))"

definition m0_bufvec_extend ::
  "bool \<Rightarrow> bool \<Rightarrow> (nat \<Rightarrow> u64) \<Rightarrow> m0_bufvec \<Rightarrow> nat \<Rightarrow> (int \<times> u64 list \<times> m0_bufvec) option"
where
  "m0_bufvec_extend cnt_ok buf_ok answers bufvec num_segs = do {
     M0_ASSERT (num_segs > 0);
     M0_ASSERT (ov_buf bufvec \<noteq> []);
     M0_ASSERT (v_nr (ov_vec bufvec) > 0);
     (let nr = v_nr (ov_vec bufvec);
          seg_size = v_count (ov_vec bufvec) ! 0;
          new_num_segs = wrap_u32 (nr + num_segs)
      in if \<not> cnt_ok then Some (- ENOMEM, [], bufvec)
         else do {
           M0_ASSERT (nr \<le> new_num_segs);
           if \<not> buf_ok then Some (- ENOMEM, [], bufvec)
           else do {
             M0_ASSERT (new_num_segs < 2 ^ 31);
             (let (ok, i, buf, cnt) =
                    extend_loop nr (map answers [0..<new_num_segs - nr]) seg_size
                      (take nr (ov_buf bufvec) @ replicate (new_num_segs - nr) 0)
                      (take nr (v_count (ov_vec bufvec)) @ replicate (new_num_segs - nr) 0)
              in if ok then Some (0, [], \<lparr>ov_vec = \<lparr>v_nr = new_num_segs, v_count = cnt\<rparr>, ov_buf = buf\<rparr>)
                 else Some (- ENOMEM, free_all (rev (take i buf)), bufvec))
           }
         })
   }"

text \<open>The 32-bit sum in \<^verbatim>\<open>m0_bufvec_merge()\<close>: if it wraps around, the loops leave the new arrays.\<close>

definition m0_bufvec_merge ::
  "bool \<Rightarrow> bool \<Rightarrow> m0_bufvec \<Rightarrow> m0_bufvec \<Rightarrow> (int \<times> m0_bufvec) option"
where
  "m0_bufvec_merge cnt_ok buf_ok dst_bufvec src_bufvec = do {
     M0_ASSERT (ov_buf dst_bufvec \<noteq> []);
     M0_ASSERT (ov_buf src_bufvec \<noteq> []);
     M0_ASSERT (v_nr (ov_vec dst_bufvec) > 0);
     M0_ASSERT (v_nr (ov_vec src_bufvec) > 0);
     (let dnr = v_nr (ov_vec dst_bufvec); snr = v_nr (ov_vec src_bufvec);
          new_v_nr = wrap_u32 (dnr + snr)
      in if \<not> cnt_ok then Some (- ENOMEM, dst_bufvec)
         else if \<not> buf_ok then Some (- ENOMEM, dst_bufvec)
         else do {
           M0_ASSERT (dnr + snr \<le> new_v_nr);
           Some (0, \<lparr>ov_vec = \<lparr>v_nr = new_v_nr,
                                v_count = map (\<lambda>i. v_count (ov_vec dst_bufvec) ! i) [0..<dnr] @
                                          map (\<lambda>i. v_count (ov_vec src_bufvec) ! i) [0..<snr]\<rparr>,
                      ov_buf = map (\<lambda>i. ov_buf dst_bufvec ! i) [0..<dnr] @
                               map (\<lambda>i. ov_buf src_bufvec ! i) [0..<snr]\<rparr>)
         })
   }"

fun bufvec_dont_dump_loop :: "(u64 \<Rightarrow> u64 \<Rightarrow> int) \<Rightarrow> (u64 \<times> u64) list \<Rightarrow> int" where
  "bufvec_dont_dump_loop m0_dont_dump [] = 0"
| "bufvec_dont_dump_loop m0_dont_dump ((buf, cnt) # segs) =
     (let rc = m0_dont_dump buf cnt
      in if rc \<noteq> 0 then rc else bufvec_dont_dump_loop m0_dont_dump segs)"

definition m0__bufvec_dont_dump :: "(u64 \<Rightarrow> u64 \<Rightarrow> int) \<Rightarrow> m0_bufvec \<Rightarrow> int option" where
  "m0__bufvec_dont_dump m0_dont_dump bufvec = do {
     M0_ASSERT (v_nr (ov_vec bufvec) > 0);
     Some (bufvec_dont_dump_loop m0_dont_dump
             (map (\<lambda>i. (ov_buf bufvec ! i, v_count (ov_vec bufvec) ! i)) [0..<v_nr (ov_vec bufvec)]))
   }"

text \<open>The freed areas of an aligned vector, with the size each is freed with.\<close>

definition bufvec_free_aligned :: "m0_bufvec \<Rightarrow> nat \<Rightarrow> bool \<Rightarrow> (u64 \<times> u64) list \<times> m0_bufvec" where
  "bufvec_free_aligned bufvec shift pack =
     (if shift = 0 then (map (\<lambda>p. (p, 0)) (fst (m0_bufvec_free bufvec)), snd (m0_bufvec_free bufvec))
      else (if ov_buf bufvec \<noteq> []
            then (if pack then [(ov_buf bufvec ! 0, vec_count (ov_vec bufvec) 0)]
                  else map (\<lambda>i. (ov_buf bufvec ! i, v_count (ov_vec bufvec) ! i)) [0..<v_nr (ov_vec bufvec)])
            else [],
            bufvec_zero))"

definition m0_bufvec_free_aligned :: "m0_bufvec \<Rightarrow> nat \<Rightarrow> (u64 \<times> u64) list \<times> m0_bufvec" where
  "m0_bufvec_free_aligned bufvec shift = bufvec_free_aligned bufvec shift False"

definition m0_bufvec_free_aligned_packed :: "m0_bufvec \<Rightarrow> nat \<Rightarrow> (u64 \<times> u64) list \<times> m0_bufvec" where
  "m0_bufvec_free_aligned_packed bufvec shift = bufvec_free_aligned bufvec shift True"

text \<open>
  \<^verbatim>\<open>vec_pack()\<close> merges in place, \<open>i\<close> being the segment under construction and \<open>j\<close> the one looked at.
\<close>

function vec_pack_loop ::
  "nat \<Rightarrow> nat \<Rightarrow> nat \<Rightarrow> u64 list \<Rightarrow> u64 list \<Rightarrow> nat \<times> u64 list \<times> u64 list"
where
  "vec_pack_loop nr j i cnt idx =
     (if j < nr
      then (let seg_end = idx ! i + cnt ! i
            in if idx ! j \<le> seg_end
               then vec_pack_loop nr (j + 1) i
                      (if cnt ! j > seg_end - idx ! j
                       then cnt[i := cnt ! i + (cnt ! j - (seg_end - idx ! j))] else cnt) idx
               else (let i = i + 1
                     in if i \<noteq> j
                        then vec_pack_loop nr (j + 1) i (cnt[i := cnt ! j]) (idx[i := idx ! j])
                        else vec_pack_loop nr (j + 1) i cnt idx))
      else (i, cnt, idx))"
  by pat_completeness auto
termination
  by (relation "measure (\<lambda>(nr, j, i, cnt, idx). nr - j)") auto

declare vec_pack_loop.simps [simp del]

definition vec_pack :: "nat \<Rightarrow> u64 list \<Rightarrow> u64 list \<Rightarrow> nat \<times> u64 list \<times> u64 list" where
  "vec_pack nr cnt idx =
     (if nr = 0 then (0, cnt, idx)
      else (let (i, cnt, idx) = vec_pack_loop nr 1 0 cnt idx in (i + 1, cnt, idx)))"

definition m0_bufvec_pack :: "m0_bufvec \<Rightarrow> nat \<times> m0_bufvec" where
  "m0_bufvec_pack bv =
     (let (new_nr, cnt, buf) = vec_pack (v_nr (ov_vec bv)) (v_count (ov_vec bv)) (ov_buf bv);
          diff = v_nr (ov_vec bv) - new_nr
      in (diff, \<lparr>ov_vec = \<lparr>v_nr = new_nr, v_count = cnt\<rparr>, ov_buf = buf\<rparr>))"

subsection \<open>Memory\<close>

type_synonym mem = "u64 \<Rightarrow> u8"

definition memmove :: "mem \<Rightarrow> u64 \<Rightarrow> u64 \<Rightarrow> u64 \<Rightarrow> mem" where
  "memmove m dst src n = (\<lambda>a. if a - dst < n then m (src + (a - dst)) else m a)"

text \<open>\<^verbatim>\<open>memcmp()\<close>: the sign is that of the first bytes that differ.\<close>

fun memcmp_loop :: "u8 list \<Rightarrow> u8 list \<Rightarrow> int" where
  "memcmp_loop (x # xs) (y # ys) = (if x = y then memcmp_loop xs ys else if x < y then - 1 else 1)"
| "memcmp_loop xs ys = 0"

definition mem_bytes :: "mem \<Rightarrow> u64 \<Rightarrow> nat \<Rightarrow> u8 list" where
  "mem_bytes m a n = map (\<lambda>i. m (a + of_nat i)) [0..<n]"

definition memcmp :: "mem \<Rightarrow> u64 \<Rightarrow> u64 \<Rightarrow> u64 \<Rightarrow> int" where
  "memcmp m a b n = memcmp_loop (mem_bytes m a (unat n)) (mem_bytes m b (unat n))"

record buf_ref =
  b_nob :: u64
  b_addr :: u64

text \<open>
  \<^verbatim>\<open>m0_bufvec_splice()\<close>; \<open>area\<close> is what the allocator answers. The loop moves the rest of
  \<open>nob\<close> bytes and the final state must have none left.
\<close>

fun bufvec_splice_loop :: "mem \<Rightarrow> u64 \<Rightarrow> u64 \<Rightarrow> u64 \<Rightarrow> (u64 \<times> u64) list \<Rightarrow> mem \<times> u64" where
  "bufvec_splice_loop m area k nob [] = (m, nob)"
| "bufvec_splice_loop m area k nob ((cnt, buf) # segs) =
     (let moved = min64u cnt nob
      in bufvec_splice_loop (memmove m (area + k) buf moved) area (k + moved) (nob - moved) segs)"

definition m0_bufvec_splice :: "u64 \<Rightarrow> mem \<Rightarrow> m0_bufvec \<Rightarrow> u64 \<Rightarrow> buf_ref \<Rightarrow> (int \<times> mem \<times> buf_ref) option" where
  "m0_bufvec_splice area m bvec nr buf =
     (let nob = m0_vec_count (ov_vec bvec) in do {
        M0_ASSERT (nr \<le> nob);
        (let nob = (if nr \<noteq> 0 then nr else nob)
         in if nob = 0 then Some (0, m, \<lparr>b_nob = 0, b_addr = 0\<rparr>)
            else do {
              M0_ASSERT (\<not> (b_nob buf > 0 \<and> b_addr buf \<noteq> 0));
              (if area = 0 then Some (- ENOMEM, m, buf\<lparr>b_addr := 0\<rparr>)
               else (let nr = v_nr (ov_vec bvec);
                         (m, nob') = bufvec_splice_loop m area 0 nob
                                       (zip (take nr (v_count (ov_vec bvec))) (take nr (ov_buf bvec)))
                     in do {
                       M0_ASSERT (nob' = 0);
                       Some (0, m, \<lparr>b_nob = nob, b_addr = area\<rparr>)
                     }))
            })
      })"

subsection \<open>Cursors of buffer vectors\<close>

text \<open>\<^verbatim>\<open>container_of()\<close> of the cursor's vector is the buffer vector it was initialised with.\<close>

record m0_bufvec_cursor =
  bc_vc :: m0_vec_cursor
  bc_bv :: m0_bufvec

definition m0_bufvec_cursor_init :: "m0_bufvec \<Rightarrow> m0_bufvec_cursor option" where
  "m0_bufvec_cursor_init bvec = do {
     M0_ASSERT (v_nr (ov_vec bvec) \<noteq> 0 \<and> v_count (ov_vec bvec) \<noteq> [] \<and> ov_buf bvec \<noteq> []);
     vc \<leftarrow> m0_vec_cursor_init (ov_vec bvec);
     Some \<lparr>bc_vc = vc, bc_bv = bvec\<rparr>
   }"

definition m0_bufvec_cursor_move :: "m0_bufvec_cursor \<Rightarrow> u64 \<Rightarrow> (m0_bufvec_cursor \<times> bool) option" where
  "m0_bufvec_cursor_move cur n = do {
     (vc, e) \<leftarrow> m0_vec_cursor_move (bc_vc cur) n;
     Some (cur\<lparr>bc_vc := vc\<rparr>, e)
   }"

definition m0_bufvec_cursor_step :: "m0_bufvec_cursor \<Rightarrow> u64 option" where
  "m0_bufvec_cursor_step cur = m0_vec_cursor_step (bc_vc cur)"

definition bufvec_cursor_addr :: "m0_bufvec_cursor \<Rightarrow> u64 option" where
  "bufvec_cursor_addr cur = do {
     (cur, e) \<leftarrow> m0_bufvec_cursor_move cur 0;
     M0_ASSERT (\<not> e);
     Some (ov_buf (bc_bv cur) ! vc_seg (bc_vc cur) + vc_offset (bc_vc cur))
   }"

definition m0_bufvec_cursor_addr :: "m0_bufvec_cursor \<Rightarrow> u64 option" where
  "m0_bufvec_cursor_addr cur = do {
     (cur, e) \<leftarrow> m0_bufvec_cursor_move cur 0;
     M0_ASSERT (\<not> e);
     bufvec_cursor_addr cur
   }"

definition m0_bufvec_cursor_align :: "m0_bufvec_cursor \<Rightarrow> u64 \<Rightarrow> (m0_bufvec_cursor \<times> bool) option" where
  "m0_bufvec_cursor_align cur alignment = do {
     (cur, e) \<leftarrow> m0_bufvec_cursor_move cur 0;
     if e then Some (cur, True)
     else do {
       addr \<leftarrow> m0_bufvec_cursor_addr cur;
       aligned \<leftarrow> m0_align addr alignment;
       m0_bufvec_cursor_move cur (aligned - addr)
     }
   }"

text \<open>
  The loops under \<^verbatim>\<open>M0_BUFVEC_FOR2\<close>: both cursors move by the last fragment, then the fragment is
  the shorter of the two steps. Not returning is \<open>None\<close>, as is a failed assertion.
\<close>

partial_function (option) bufvec_cursor_copy_loop ::
  "mem \<Rightarrow> m0_bufvec_cursor \<Rightarrow> m0_bufvec_cursor \<Rightarrow> u64 \<Rightarrow> u64 \<Rightarrow> u64 \<Rightarrow>
   (mem \<times> m0_bufvec_cursor \<times> m0_bufvec_cursor \<times> u64) option"
where
  "bufvec_cursor_copy_loop m dcur scur frag num_bytes bytes_copied = do {
     (dcur, de) \<leftarrow> m0_bufvec_cursor_move dcur frag;
     (scur, se) \<leftarrow> m0_bufvec_cursor_move scur frag;
     if de \<or> se then Some (m, dcur, scur, bytes_copied)
     else do {
       dstep \<leftarrow> m0_bufvec_cursor_step dcur;
       sstep \<leftarrow> m0_bufvec_cursor_step scur;
       if num_bytes = 0 then Some (m, dcur, scur, bytes_copied)
       else do {
         let frag = min64u (min64u dstep sstep) num_bytes;
         daddr \<leftarrow> bufvec_cursor_addr dcur;
         saddr \<leftarrow> bufvec_cursor_addr scur;
         bufvec_cursor_copy_loop (memmove m daddr saddr frag) dcur scur frag
           (num_bytes - frag) (bytes_copied + frag)
       }
     }
   }"

declare bufvec_cursor_copy_loop.simps [simp del]

definition m0_bufvec_cursor_copy ::
  "mem \<Rightarrow> m0_bufvec_cursor \<Rightarrow> m0_bufvec_cursor \<Rightarrow> u64 \<Rightarrow>
   (mem \<times> m0_bufvec_cursor \<times> m0_bufvec_cursor \<times> u64) option"
where
  "m0_bufvec_cursor_copy m dcur scur num_bytes = bufvec_cursor_copy_loop m dcur scur 0 num_bytes 0"

partial_function (option) bufvec_cursor_cmp_loop ::
  "mem \<Rightarrow> m0_bufvec_cursor \<Rightarrow> m0_bufvec_cursor \<Rightarrow> u64 \<Rightarrow> int \<Rightarrow>
   (int \<times> m0_bufvec_cursor \<times> m0_bufvec_cursor) option"
where
  "bufvec_cursor_cmp_loop m c0 c1 frag result = do {
     (c0, e0) \<leftarrow> m0_bufvec_cursor_move c0 frag;
     (c1, e1) \<leftarrow> m0_bufvec_cursor_move c1 frag;
     if e0 \<or> e1 then Some (result, c0, c1)
     else do {
       step0 \<leftarrow> m0_bufvec_cursor_step c0;
       step1 \<leftarrow> m0_bufvec_cursor_step c1;
       a0 \<leftarrow> bufvec_cursor_addr c0;
       a1 \<leftarrow> bufvec_cursor_addr c1;
       let frag = min64u step0 step1;
       let result = memcmp m a0 a1 frag;
       if result \<noteq> 0 then Some (result, c0, c1)
       else bufvec_cursor_cmp_loop m c0 c1 frag result
     }
   }"

declare bufvec_cursor_cmp_loop.simps [simp del]

definition m0_bufvec_cursor_cmp ::
  "mem \<Rightarrow> m0_bufvec_cursor \<Rightarrow> m0_bufvec_cursor \<Rightarrow> (int \<times> m0_bufvec_cursor \<times> m0_bufvec_cursor) option"
where
  "m0_bufvec_cursor_cmp m c0 c1 = bufvec_cursor_cmp_loop m c0 c1 0 0"

fun common_prefix :: "u8 list \<Rightarrow> u8 list \<Rightarrow> nat" where
  "common_prefix (x # xs) (y # ys) = (if x \<noteq> y then 0 else 1 + common_prefix xs ys)"
| "common_prefix xs ys = 0"

partial_function (option) bufvec_cursor_prefix_loop ::
  "mem \<Rightarrow> m0_bufvec_cursor \<Rightarrow> m0_bufvec_cursor \<Rightarrow> u64 \<Rightarrow> u64 \<Rightarrow>
   (u64 \<times> m0_bufvec_cursor \<times> m0_bufvec_cursor) option"
where
  "bufvec_cursor_prefix_loop m c0 c1 frag prefix = do {
     (c0, e0) \<leftarrow> m0_bufvec_cursor_move c0 frag;
     (c1, e1) \<leftarrow> m0_bufvec_cursor_move c1 frag;
     if e0 \<or> e1 then Some (prefix, c0, c1)
     else do {
       step0 \<leftarrow> m0_bufvec_cursor_step c0;
       step1 \<leftarrow> m0_bufvec_cursor_step c1;
       a0 \<leftarrow> bufvec_cursor_addr c0;
       a1 \<leftarrow> bufvec_cursor_addr c1;
       let frag = min64u step0 step1;
       let i = common_prefix (mem_bytes m a0 (unat frag)) (mem_bytes m a1 (unat frag));
       if i < unat frag then Some (prefix + of_nat i, c0, c1)
       else bufvec_cursor_prefix_loop m c0 c1 frag (prefix + frag)
     }
   }"

declare bufvec_cursor_prefix_loop.simps [simp del]

definition m0_bufvec_cursor_prefix ::
  "mem \<Rightarrow> m0_bufvec_cursor \<Rightarrow> m0_bufvec_cursor \<Rightarrow> (u64 \<times> m0_bufvec_cursor \<times> m0_bufvec_cursor) option"
where
  "m0_bufvec_cursor_prefix m c0 c1 = bufvec_cursor_prefix_loop m c0 c1 0 0"

definition M0_BUFVEC_INIT_BUF :: "u64 \<Rightarrow> u64 \<Rightarrow> m0_bufvec" where
  "M0_BUFVEC_INIT_BUF addr cnt = \<lparr>ov_vec = \<lparr>v_nr = 1, v_count = [cnt]\<rparr>, ov_buf = [addr]\<rparr>"

definition m0_bufvec_cursor_copyto ::
  "mem \<Rightarrow> m0_bufvec_cursor \<Rightarrow> u64 \<Rightarrow> u64 \<Rightarrow> (mem \<times> m0_bufvec_cursor \<times> u64) option"
where
  "m0_bufvec_cursor_copyto m dcur sdata num_bytes = do {
     M0_ASSERT (sdata \<noteq> 0);
     scur \<leftarrow> m0_bufvec_cursor_init (M0_BUFVEC_INIT_BUF sdata num_bytes);
     (m, dcur, scur, n) \<leftarrow> m0_bufvec_cursor_copy m dcur scur num_bytes;
     Some (m, dcur, n)
   }"

definition m0_bufvec_cursor_copyfrom ::
  "mem \<Rightarrow> m0_bufvec_cursor \<Rightarrow> u64 \<Rightarrow> u64 \<Rightarrow> (mem \<times> m0_bufvec_cursor \<times> u64) option"
where
  "m0_bufvec_cursor_copyfrom m scur ddata num_bytes = do {
     M0_ASSERT (ddata \<noteq> 0);
     dcur \<leftarrow> m0_bufvec_cursor_init (M0_BUFVEC_INIT_BUF ddata num_bytes);
     (m, dcur, scur, n) \<leftarrow> m0_bufvec_cursor_copy m dcur scur num_bytes;
     Some (m, scur, n)
   }"

definition data_to_bufvec :: "u64 \<Rightarrow> u64 \<Rightarrow> m0_bufvec" where
  "data_to_bufvec data len = \<lparr>ov_vec = \<lparr>v_nr = 1, v_count = [len]\<rparr>, ov_buf = [data]\<rparr>"

definition m0_data_to_bufvec_copy ::
  "mem \<Rightarrow> m0_bufvec_cursor \<Rightarrow> u64 \<Rightarrow> u64 \<Rightarrow> (int \<times> mem \<times> m0_bufvec_cursor) option"
where
  "m0_data_to_bufvec_copy m cur data len = do {
     M0_ASSERT (data \<noteq> 0);
     src_cur \<leftarrow> m0_bufvec_cursor_init (data_to_bufvec data len);
     (m, cur, src_cur, n) \<leftarrow> m0_bufvec_cursor_copy m cur src_cur len;
     if n \<noteq> len then Some (- EFAULT, m, cur) else Some (0, m, cur)
   }"

definition m0_bufvec_to_data_copy ::
  "mem \<Rightarrow> m0_bufvec_cursor \<Rightarrow> u64 \<Rightarrow> u64 \<Rightarrow> (int \<times> mem \<times> m0_bufvec_cursor) option"
where
  "m0_bufvec_to_data_copy m cur data len = do {
     M0_ASSERT (data \<noteq> 0);
     M0_ASSERT (len \<noteq> 0);
     dcur \<leftarrow> m0_bufvec_cursor_init (data_to_bufvec data len);
     (m, dcur, cur, n) \<leftarrow> m0_bufvec_cursor_copy m dcur cur len;
     if n \<noteq> len then Some (- EFAULT, m, cur) else Some (0, m, cur)
   }"

definition m0_bufvec_copy :: "mem \<Rightarrow> m0_bufvec \<Rightarrow> m0_bufvec \<Rightarrow> u64 \<Rightarrow> (mem \<times> u64) option" where
  "m0_bufvec_copy m dst src num_bytes = do {
     s_cur \<leftarrow> m0_bufvec_cursor_init src;
     d_cur \<leftarrow> m0_bufvec_cursor_init dst;
     (m, d_cur, s_cur, n) \<leftarrow> m0_bufvec_cursor_copy m d_cur s_cur num_bytes;
     Some (m, n)
   }"

definition m0_bufvec_to_buf_copy :: "mem \<Rightarrow> buf_ref \<Rightarrow> m0_bufvec \<Rightarrow> (int \<times> mem) option" where
  "m0_bufvec_to_buf_copy m buf bvec = do {
     cursor \<leftarrow> m0_bufvec_cursor_init bvec;
     (rc, m, cursor) \<leftarrow> m0_bufvec_to_data_copy m cursor (b_addr buf) (b_nob buf);
     Some (rc, m)
   }"

definition m0_buf_to_bufvec_copy :: "mem \<Rightarrow> m0_bufvec \<Rightarrow> buf_ref \<Rightarrow> (int \<times> mem) option" where
  "m0_buf_to_bufvec_copy m bvec buf = do {
     cursor \<leftarrow> m0_bufvec_cursor_init bvec;
     (rc, m, cursor) \<leftarrow> m0_data_to_bufvec_copy m cursor (b_addr buf) (b_nob buf);
     Some (rc, m)
   }"

subsection \<open>Index vectors and their cursors\<close>

record m0_indexvec =
  iv_vec :: m0_vec
  iv_index :: "u64 list"

definition m0_indexvec_pack :: "m0_indexvec \<Rightarrow> nat \<times> m0_indexvec" where
  "m0_indexvec_pack iv =
     (let (new_nr, cnt, idx) = vec_pack (v_nr (iv_vec iv)) (v_count (iv_vec iv)) (iv_index iv);
          diff = v_nr (iv_vec iv) - new_nr
      in (diff, \<lparr>iv_vec = \<lparr>v_nr = new_nr, v_count = cnt\<rparr>, iv_index = idx\<rparr>))"

definition m0_indexvec_alloc :: "bool \<Rightarrow> bool \<Rightarrow> m0_indexvec \<Rightarrow> nat \<Rightarrow> (int \<times> m0_indexvec) option" where
  "m0_indexvec_alloc idx_ok cnt_ok ivec len = do {
     M0_ASSERT (len > 0);
     (if \<not> idx_ok then Some (- ENOMEM, ivec\<lparr>iv_index := []\<rparr>)
      else if \<not> cnt_ok then Some (- ENOMEM, \<lparr>iv_vec = (iv_vec ivec)\<lparr>v_count := []\<rparr>, iv_index = []\<rparr>)
      else Some (0, \<lparr>iv_vec = \<lparr>v_nr = len, v_count = replicate len 0\<rparr>, iv_index = replicate len 0\<rparr>))
   }"

definition m0_indexvec_free :: "m0_indexvec \<Rightarrow> m0_indexvec" where
  "m0_indexvec_free ivec = \<lparr>iv_vec = \<lparr>v_nr = 0, v_count = []\<rparr>, iv_index = []\<rparr>"

text \<open>With no segments the last index is out of range: the read is undefined.\<close>

definition m0_indexvec_end :: "m0_indexvec \<Rightarrow> u64 option" where
  "m0_indexvec_end ivec =
     (if v_nr (iv_vec ivec) = 0 then None
      else (let i = v_nr (iv_vec ivec) - 1 in Some (iv_index ivec ! i + v_count (iv_vec ivec) ! i)))"

record m0_ivec_cursor =
  ic_cur :: m0_vec_cursor
  ic_ivec :: m0_indexvec

definition m0_ivec_cursor_init :: "m0_indexvec \<Rightarrow> m0_ivec_cursor option" where
  "m0_ivec_cursor_init ivec = do {
     M0_ASSERT (v_nr (iv_vec ivec) > 0);
     M0_ASSERT (v_count (iv_vec ivec) \<noteq> [] \<and> iv_index ivec \<noteq> []);
     vc \<leftarrow> m0_vec_cursor_init (iv_vec ivec);
     Some \<lparr>ic_cur = vc, ic_ivec = ivec\<rparr>
   }"

definition m0_ivec_cursor_move :: "m0_ivec_cursor \<Rightarrow> u64 \<Rightarrow> (m0_ivec_cursor \<times> bool) option" where
  "m0_ivec_cursor_move cur n = do {
     (vc, e) \<leftarrow> m0_vec_cursor_move (ic_cur cur) n;
     Some (cur\<lparr>ic_cur := vc\<rparr>, e)
   }"

definition m0_ivec_cursor_step :: "m0_ivec_cursor \<Rightarrow> u64 option" where
  "m0_ivec_cursor_step cur = m0_vec_cursor_step (ic_cur cur)"

definition m0_ivec_cursor_index :: "m0_ivec_cursor \<Rightarrow> u64 option" where
  "m0_ivec_cursor_index cur = do {
     M0_ASSERT (vc_seg (ic_cur cur) < v_nr (vc_vec (ic_cur cur)));
     Some (iv_index (ic_ivec cur) ! vc_seg (ic_cur cur) + vc_offset (ic_cur cur))
   }"

partial_function (option) ivec_cursor_move_to_loop ::
  "m0_ivec_cursor \<Rightarrow> u64 \<Rightarrow> (m0_ivec_cursor \<times> bool) option"
where
  "ivec_cursor_move_to_loop cur dest = do {
     idx \<leftarrow> m0_ivec_cursor_index cur;
     if idx \<noteq> dest then do {
       step \<leftarrow> m0_ivec_cursor_step cur;
       (cur, ret) \<leftarrow> m0_ivec_cursor_move cur (min64u dest (idx + step) - idx);
       if ret then Some (cur, True) else ivec_cursor_move_to_loop cur dest
     }
     else Some (cur, False)
   }"

declare ivec_cursor_move_to_loop.simps [simp del]

definition m0_ivec_cursor_move_to :: "m0_ivec_cursor \<Rightarrow> u64 \<Rightarrow> (m0_ivec_cursor \<times> bool) option" where
  "m0_ivec_cursor_move_to cur dest = do {
     idx \<leftarrow> m0_ivec_cursor_index cur;
     M0_ASSERT (dest \<ge> idx);
     ivec_cursor_move_to_loop cur dest
   }"

fun ivec_conti_loop :: "u64 \<Rightarrow> u64 \<Rightarrow> (u64 \<times> u64) list \<Rightarrow> u64" where
  "ivec_conti_loop dest max_seg_end [] = max_seg_end"
| "ivec_conti_loop dest max_seg_end ((idx, cnt) # segs) =
     (if idx \<ge> dest \<or> idx > max_seg_end then max_seg_end
      else ivec_conti_loop dest (if idx + cnt > max_seg_end then idx + cnt else max_seg_end) segs)"

definition m0_ivec_cursor_conti :: "m0_ivec_cursor \<Rightarrow> u64 \<Rightarrow> u64 option" where
  "m0_ivec_cursor_conti cur dest = do {
     idx \<leftarrow> m0_ivec_cursor_index cur;
     M0_ASSERT (dest \<ge> idx);
     (let ivec = ic_ivec cur; i = vc_seg (ic_cur cur);
          max_seg_end = iv_index ivec ! i + v_count (iv_vec ivec) ! i
      in Some (min64u (ivec_conti_loop dest max_seg_end
                 (map (\<lambda>i. (iv_index ivec ! i, v_count (iv_vec ivec) ! i))
                    [i + 1..<v_nr (iv_vec ivec)])) dest))
   }"

text \<open>
  \<^verbatim>\<open>ivec_nr_or_prepare()\<close>: \<open>req\<close> is a signed 32-bit number from which 64-bit steps are taken.
  With \<open>out = None\<close> it only counts the segments.
\<close>

partial_function (option) ivec_nr_or_prepare_loop ::
  "m0_ivec_cursor \<Rightarrow> u64 \<Rightarrow> u32 \<Rightarrow> nat \<Rightarrow> nat \<Rightarrow> m0_indexvec option \<Rightarrow> (nat \<times> m0_indexvec option) option"
where
  "ivec_nr_or_prepare_loop cursor offset req bshift nr out = do {
     (cursor, e) \<leftarrow> m0_ivec_cursor_move cursor offset;
     if \<not> e \<and> 0 <s req then do {
       offset \<leftarrow> m0_ivec_cursor_step cursor;
       idx \<leftarrow> m0_ivec_cursor_index cursor;
       let cnt = min64u offset (scast req);
       let out = map_option (\<lambda>out.
             \<lparr>iv_vec = (iv_vec out)\<lparr>v_count := (v_count (iv_vec out))[nr := drop_bit bshift cnt]\<rparr>,
              iv_index = (iv_index out)[nr := drop_bit bshift idx]\<rparr>) out;
       ivec_nr_or_prepare_loop cursor offset (ucast (scast req - offset)) bshift (nr + 1) out
     }
     else Some (nr, out)
   }"

declare ivec_nr_or_prepare_loop.simps [simp del]

definition ivec_nr_or_prepare ::
  "m0_indexvec \<Rightarrow> u64 \<Rightarrow> u32 \<Rightarrow> nat \<Rightarrow> m0_indexvec option \<Rightarrow> (nat \<times> m0_indexvec option) option"
where
  "ivec_nr_or_prepare ivec offset req bshift out = do {
     cursor \<leftarrow> m0_ivec_cursor_init ivec;
     ivec_nr_or_prepare_loop cursor offset req bshift 0 out
   }"

definition m0_indexvec_split ::
  "bool \<Rightarrow> bool \<Rightarrow> m0_indexvec \<Rightarrow> u64 \<Rightarrow> u64 \<Rightarrow> nat \<Rightarrow> m0_indexvec \<Rightarrow> (int \<times> m0_indexvec) option"
where
  "m0_indexvec_split idx_ok cnt_ok ivec curr_pos nb_len bshift out = do {
     (nr, _) \<leftarrow> ivec_nr_or_prepare ivec curr_pos (ucast nb_len) bshift None;
     (rc, out) \<leftarrow> m0_indexvec_alloc idx_ok cnt_ok out nr;
     if rc = 0 then do {
       (_, out') \<leftarrow> ivec_nr_or_prepare ivec curr_pos (ucast nb_len) bshift (Some out);
       Some (rc, the out')
     }
     else Some (rc, out)
   }"

record m0_ioseg =
  ci_index :: u64
  ci_count :: u64

text \<open>The wire form of an index vector is the list of its \<^verbatim>\<open>ci_nr\<close> segments.\<close>

record m0_io_indexvec =
  ci_iosegs :: "m0_ioseg list"

fun io_count_loop :: "m0_ioseg list \<Rightarrow> u64 \<Rightarrow> u64" where
  "io_count_loop [] n = n"
| "io_count_loop (seg # segs) n = io_count_loop segs (n + ci_count seg)"

definition m0_io_count :: "m0_io_indexvec \<Rightarrow> u64" where
  "m0_io_count io_info = io_count_loop (ci_iosegs io_info) 0"

text \<open>More wire segments than \<open>max_frags_nr\<close> would be written past the arrays.\<close>

definition m0_indexvec_wire2mem ::
  "bool \<Rightarrow> bool \<Rightarrow> m0_io_indexvec \<Rightarrow> nat \<Rightarrow> nat \<Rightarrow> m0_indexvec \<Rightarrow> (int \<times> m0_indexvec) option"
where
  "m0_indexvec_wire2mem idx_ok cnt_ok wire_ivec max_frags_nr bshift mem_ivec = do {
     (rc, mem_ivec) \<leftarrow> m0_indexvec_alloc idx_ok cnt_ok mem_ivec max_frags_nr;
     if rc \<noteq> 0 then Some (rc, mem_ivec)
     else (let segs = ci_iosegs wire_ivec; nr = length segs
           in if nr > max_frags_nr then None
              else Some (0, \<lparr>iv_vec = \<lparr>v_nr = nr,
                               v_count = map (\<lambda>s. drop_bit bshift (ci_count s)) segs @
                                         drop nr (v_count (iv_vec mem_ivec))\<rparr>,
                             iv_index = map (\<lambda>s. drop_bit bshift (ci_index s)) segs @
                                        drop nr (iv_index mem_ivec)\<rparr>))
   }"

definition m0_indexvec_mem2wire ::
  "bool \<Rightarrow> m0_indexvec \<Rightarrow> nat \<Rightarrow> nat \<Rightarrow> m0_io_indexvec \<Rightarrow> int \<times> m0_io_indexvec"
where
  "m0_indexvec_mem2wire alloc_ok mem_ivec max_frags_nr bshift wire_ivec =
     (if \<not> alloc_ok then (- ENOMEM, wire_ivec\<lparr>ci_iosegs := []\<rparr>)
      else (0, \<lparr>ci_iosegs =
                  map (\<lambda>i. \<lparr>ci_index = drop_bit bshift (iv_index mem_ivec ! i),
                            ci_count = drop_bit bshift (v_count (iv_vec mem_ivec) ! i)\<rparr>)
                    [0..<v_nr (iv_vec mem_ivec)]\<rparr>))"

definition m0_indexvec_universal_set :: "bool \<Rightarrow> bool \<Rightarrow> m0_indexvec \<Rightarrow> (int \<times> m0_indexvec) option" where
  "m0_indexvec_universal_set idx_ok cnt_ok iv = do {
     (rc, iv) \<leftarrow> m0_indexvec_alloc idx_ok cnt_ok iv 1;
     if rc \<noteq> 0 then Some (rc, iv)
     else Some (0, \<lparr>iv_vec = (iv_vec iv)\<lparr>v_count := (v_count (iv_vec iv))[0 := NOT 0]\<rparr>,
                    iv_index = (iv_index iv)[0 := 0]\<rparr>)
   }"

definition m0_indexvec_is_universal :: "m0_indexvec \<Rightarrow> bool" where
  "m0_indexvec_is_universal iv \<longleftrightarrow> m0_vec_count (iv_vec iv) = NOT 0"

subsection \<open>Zero-copy vectors\<close>

record m0_0vec =
  z_bvec :: m0_bufvec
  z_index :: "u64 list"
  z_last_buf_idx :: u64
  z_count :: u64

definition M0_0VEC_MASK :: u64 where
  "M0_0VEC_MASK = 2 ^ 12 - 1"

definition addr_is_4k_aligned :: "u64 \<Rightarrow> bool" where
  "addr_is_4k_aligned addr \<longleftrightarrow> addr AND M0_0VEC_MASK = 0"

definition m0_0vec_invariant :: "m0_0vec \<Rightarrow> bool" where
  "m0_0vec_invariant zvec \<longleftrightarrow>
     (let bvec = z_bvec zvec
      in z_index zvec \<noteq> [] \<and> ov_buf bvec \<noteq> [] \<and> v_count (ov_vec bvec) \<noteq> [] \<and> v_nr (ov_vec bvec) \<noteq> 0 \<and>
         list_all (\<lambda>i. addr_is_4k_aligned (ov_buf bvec ! i) \<and>
                       (i < v_nr (ov_vec bvec) - 1 \<longrightarrow> v_count (ov_vec bvec) ! i AND M0_0VEC_MASK = 0))
           [0..<v_nr (ov_vec bvec)])"

text \<open>On failure the arrays are freed and the pointers to them stay as they are.\<close>

definition m0_0vec_init :: "bool \<Rightarrow> bool \<Rightarrow> bool \<Rightarrow> nat \<Rightarrow> (int \<times> m0_0vec) option" where
  "m0_0vec_init idx_ok cnt_ok buf_ok segs_nr = do {
     M0_ASSERT (segs_nr \<noteq> 0);
     (let arr = (\<lambda>ok. if ok then replicate segs_nr 0 else [])
      in if \<not> idx_ok
         then Some (- ENOMEM, \<lparr>z_bvec = bufvec_zero, z_index = [], z_last_buf_idx = 0, z_count = 0\<rparr>)
         else Some (if cnt_ok \<and> buf_ok then 0 else - ENOMEM,
                    \<lparr>z_bvec = \<lparr>ov_vec = \<lparr>v_nr = if cnt_ok then segs_nr else 0, v_count = arr cnt_ok\<rparr>,
                               ov_buf = arr (cnt_ok \<and> buf_ok)\<rparr>,
                     z_index = arr True, z_last_buf_idx = 0, z_count = 0\<rparr>))
   }"

fun zvec_fill :: "nat \<Rightarrow> (u64 \<times> u64 \<times> u64) list \<Rightarrow> m0_0vec \<Rightarrow> m0_0vec option" where
  "zvec_fill i [] zvec = Some zvec"
| "zvec_fill i ((idx, cnt, buf) # segs) zvec = do {
     M0_ASSERT (ov_buf (z_bvec zvec) ! i = 0);
     zvec_fill (i + 1) segs
       (zvec\<lparr>z_index := (z_index zvec)[i := idx],
             z_bvec := \<lparr>ov_vec = (ov_vec (z_bvec zvec))\<lparr>v_count := (v_count (ov_vec (z_bvec zvec)))[i := cnt]\<rparr>,
                        ov_buf = (ov_buf (z_bvec zvec))[i := buf]\<rparr>\<rparr>)
   }"

definition m0_0vec_bvec_init :: "m0_0vec \<Rightarrow> m0_bufvec \<Rightarrow> u64 list \<Rightarrow> m0_0vec option" where
  "m0_0vec_bvec_init zvec src index = do {
     M0_ASSERT (index \<noteq> []);
     M0_ASSERT (v_nr (ov_vec src) \<le> v_nr (ov_vec (z_bvec zvec)));
     zvec \<leftarrow> zvec_fill 0 (map (\<lambda>i. (index ! i, v_count (ov_vec src) ! i, ov_buf src ! i))
                            [0..<v_nr (ov_vec src)]) zvec;
     M0_ASSERT (m0_0vec_invariant zvec);
     Some zvec
   }"

definition m0_0vec_bufs_init ::
  "m0_0vec \<Rightarrow> u64 list \<Rightarrow> u64 list \<Rightarrow> u64 list \<Rightarrow> nat \<Rightarrow> m0_0vec option"
where
  "m0_0vec_bufs_init zvec bufs index counts segs_nr = do {
     M0_ASSERT (bufs \<noteq> []);
     M0_ASSERT (index \<noteq> []);
     M0_ASSERT (counts \<noteq> []);
     M0_ASSERT (segs_nr \<noteq> 0);
     M0_ASSERT (segs_nr \<le> v_nr (ov_vec (z_bvec zvec)));
     zvec \<leftarrow> zvec_fill 0 (map (\<lambda>i. (index ! i, counts ! i, bufs ! i)) [0..<segs_nr]) zvec;
     M0_ASSERT (m0_0vec_invariant zvec);
     Some zvec
   }"

definition m0_0vec_cbuf_add :: "m0_0vec \<Rightarrow> buf_ref \<Rightarrow> u64 \<Rightarrow> (int \<times> m0_0vec) option" where
  "m0_0vec_cbuf_add zvec buf index =
     (let bvec = z_bvec zvec; curr_seg = unat (ucast (z_last_buf_idx zvec) :: u32)
      in if curr_seg = v_nr (ov_vec bvec) then Some (- EMSGSIZE, zvec)
         else do {
           M0_ASSERT (ov_buf bvec ! curr_seg = 0);
           Some (0, zvec\<lparr>z_bvec := \<lparr>ov_vec = (ov_vec bvec)\<lparr>v_count := (v_count (ov_vec bvec))[curr_seg := b_nob buf]\<rparr>,
                                    ov_buf = (ov_buf bvec)[curr_seg := b_addr buf]\<rparr>,
                         z_index := (z_index zvec)[curr_seg := index],
                         z_last_buf_idx := z_last_buf_idx zvec + 1,
                         z_count := z_count zvec + b_nob buf\<rparr>)
         })"


section \<open>Cursors as positions\<close>

text \<open>
  A vector of which the counts array holds at least \<^verbatim>\<open>v_nr\<close> elements. The abstract state of a
  cursor is its distance from the start of the vector, over the natural numbers.
\<close>

definition vec_wf :: "m0_vec \<Rightarrow> bool" where
  "vec_wf vec \<longleftrightarrow> v_nr vec \<le> length (v_count vec)"

definition seg_start :: "m0_vec \<Rightarrow> nat \<Rightarrow> nat" where
  "seg_start vec i = (\<Sum>k < i. unat (v_count vec ! k))"

abbreviation vec_total :: "m0_vec \<Rightarrow> nat" where
  "vec_total vec \<equiv> seg_start vec (v_nr vec)"

definition vec_pos :: "m0_vec_cursor \<Rightarrow> nat" where
  "vec_pos cur = seg_start (vc_vec cur) (vc_seg cur) + unat (vc_offset cur)"

lemma seg_start_Suc: "seg_start vec (Suc i) = seg_start vec i + unat (v_count vec ! i)"
  by (simp add: seg_start_def)

lemma seg_start_mono: "i \<le> j \<Longrightarrow> seg_start vec i \<le> seg_start vec j"
  by (induction j) (auto simp: seg_start_Suc le_Suc_eq)

text \<open>Normalisation keeps the position and restores the invariant.\<close>

lemma normalize_correct:
  assumes "vc_seg cur \<le> v_nr (vc_vec cur)"
    "vc_seg cur < v_nr (vc_vec cur) \<longrightarrow> vc_offset cur < v_count (vc_vec cur) ! vc_seg cur \<or> vc_offset cur = 0"
    "vc_seg cur = v_nr (vc_vec cur) \<longrightarrow> vc_offset cur = 0"
  shows "m0_vec_cursor_invariant (m0_vec_cursor_normalize cur)"
    "vec_pos (m0_vec_cursor_normalize cur) = vec_pos cur"
  using assms
proof (induction cur rule: m0_vec_cursor_normalize.induct)
  case (1 cur)
  let ?c = "cur\<lparr>vc_seg := vc_seg cur + 1, vc_offset := 0\<rparr>"
  have pos: "vec_pos ?c = vec_pos cur" if "v_count (vc_vec cur) ! vc_seg cur = 0" "vc_offset cur = 0"
    using that by (simp add: vec_pos_def seg_start_Suc)
  {
    case 1
    show ?case
      using "1.IH"(1) 1 by (subst m0_vec_cursor_normalize.simps) (auto simp: m0_vec_cursor_invariant_def word_gt_0)
  next
    case 2
    show ?case
      using "1.IH"(2) 2 pos by (subst m0_vec_cursor_normalize.simps) (auto simp: m0_vec_cursor_invariant_def)
  }
qed

text \<open>The invariant leaves one cursor for each position.\<close>

lemma vec_pos_less_seg:
  assumes "m0_vec_cursor_invariant c" "vc_seg c < v_nr (vc_vec c)"
  shows "vec_pos c < seg_start (vc_vec c) (Suc (vc_seg c))"
  using assms by (simp add: m0_vec_cursor_invariant_def vec_pos_def seg_start_Suc word_less_nat_alt)

lemma vec_pos_seg_inj:
  assumes "m0_vec_cursor_invariant c" "m0_vec_cursor_invariant d" "vc_vec c = vc_vec d" "vec_pos c = vec_pos d"
  shows "\<not> vc_seg c < vc_seg d"
proof
  assume less: "vc_seg c < vc_seg d"
  have d: "vc_seg d \<le> v_nr (vc_vec d)" using assms(2) by (simp add: m0_vec_cursor_invariant_def)
  have "vec_pos c < seg_start (vc_vec c) (Suc (vc_seg c))"
    using vec_pos_less_seg [OF assms(1)] less d assms(3) by simp
  also have "\<dots> \<le> seg_start (vc_vec d) (vc_seg d)" using less assms(3) seg_start_mono [of "Suc (vc_seg c)"] by simp
  also have "\<dots> \<le> vec_pos d" by (simp add: vec_pos_def)
  finally show False using assms(4) by simp
qed

lemma vec_pos_inj:
  assumes "m0_vec_cursor_invariant c" "m0_vec_cursor_invariant d" "vc_vec c = vc_vec d" "vec_pos c = vec_pos d"
  shows "c = d"
proof -
  have "vc_seg c = vc_seg d"
    using vec_pos_seg_inj [OF assms] vec_pos_seg_inj [OF assms(2,1)] assms(3,4) by (metis linorder_neqE_nat)
  moreover from this have "vc_offset c = vc_offset d" using assms by (simp add: vec_pos_def word_unat_eq_iff)
  ultimately show ?thesis using assms(3) by (cases c; cases d) simp
qed

lemma vec_pos_end_iff:
  assumes "m0_vec_cursor_invariant c"
  shows "vec_pos c \<le> vec_total (vc_vec c)" "vc_seg c = v_nr (vc_vec c) \<longleftrightarrow> vec_pos c = vec_total (vc_vec c)"
proof -
  have "vec_pos c < vec_total (vc_vec c)" if "vc_seg c < v_nr (vc_vec c)"
    using vec_pos_less_seg [OF assms that] seg_start_mono [of "Suc (vc_seg c)" "v_nr (vc_vec c)" "vc_vec c"] that by simp
  moreover have "vec_pos c = vec_total (vc_vec c)" if "vc_seg c = v_nr (vc_vec c)"
    using that assms by (simp add: vec_pos_def m0_vec_cursor_invariant_def)
  moreover have "vc_seg c \<le> v_nr (vc_vec c)" using assms by (simp add: m0_vec_cursor_invariant_def)
  ultimately show "vec_pos c \<le> vec_total (vc_vec c)" "vc_seg c = v_nr (vc_vec c) \<longleftrightarrow> vec_pos c = vec_total (vc_vec c)"
    by force+
qed

lemma vec_cursor_step_correct:
  assumes "m0_vec_cursor_invariant c" "vc_seg c < v_nr (vc_vec c)"
  shows "\<exists>s. m0_vec_cursor_step c = Some s \<and> s = v_count (vc_vec c) ! vc_seg c - vc_offset c \<and>
     0 < unat s \<and> vec_pos c + unat s = seg_start (vc_vec c) (Suc (vc_seg c)) \<and>
     vec_pos c + unat s \<le> vec_total (vc_vec c)"
proof -
  have lt: "vc_offset c < v_count (vc_vec c) ! vc_seg c" using assms by (simp add: m0_vec_cursor_invariant_def)
  let ?s = "v_count (vc_vec c) ! vc_seg c - vc_offset c"
  have s: "unat ?s = unat (v_count (vc_vec c) ! vc_seg c) - unat (vc_offset c)"
    using lt by (intro unat_sub_noof) simp
  have "vec_pos c + unat ?s = seg_start (vc_vec c) (Suc (vc_seg c))"
    using s lt by (simp add: vec_pos_def seg_start_Suc word_less_nat_alt)
  moreover have "seg_start (vc_vec c) (Suc (vc_seg c)) \<le> vec_total (vc_vec c)"
    using assms(2) by (intro seg_start_mono) simp
  ultimately show ?thesis using assms s lt by (simp add: m0_vec_cursor_step_def bind_M0_ASSERT_True word_less_nat_alt)
qed

lemma vec_cursor_move_loop_correct:
  assumes "m0_vec_cursor_invariant c"
  shows "\<exists>c'. vec_cursor_move_loop c n = Some c' \<and> m0_vec_cursor_invariant c' \<and> vc_vec c' = vc_vec c \<and>
     vec_pos c' = min (vec_total (vc_vec c)) (vec_pos c + unat n)"
  using assms
proof (induction c n rule: vec_cursor_move_loop.induct)
  case (1 c n)
  show ?case
  proof (cases "n > 0 \<and> vc_seg c < v_nr (vc_vec c)")
    case False
    then show ?thesis
      using vec_pos_end_iff [OF 1(3)] 1(3)
      by (subst vec_cursor_move_loop.simps) (auto simp: word_gt_0 min_def m0_vec_cursor_invariant_def)
  next
    case True
    then obtain s where s: "m0_vec_cursor_step c = Some s" "s = v_count (vc_vec c) ! vc_seg c - vc_offset c"
      "0 < unat s" "vec_pos c + unat s = seg_start (vc_vec c) (Suc (vc_seg c))"
      "vec_pos c + unat s \<le> vec_total (vc_vec c)"
      using vec_cursor_step_correct [OF 1(3)] by blast
    show ?thesis
    proof (cases "n \<ge> s")
      case ge: True
      let ?c = "c\<lparr>vc_seg := vc_seg c + 1, vc_offset := 0\<rparr>"
      have n: "m0_vec_cursor_invariant (m0_vec_cursor_normalize ?c)" "vec_pos (m0_vec_cursor_normalize ?c) = vec_pos c + unat s"
        using normalize_correct [of ?c] True s(4) by (simp_all add: vec_pos_def)
      have "vec_pos (m0_vec_cursor_normalize ?c) + unat (n - s) = vec_pos c + unat n"
        using ge n(2) by (simp add: unat_sub_noof word_le_nat_alt)
      then show ?thesis
        using 1(1) [OF True s(1) ge n(1)] True s(1) ge by (subst vec_cursor_move_loop.simps) simp
    next
      case lt: False
      let ?c = "c\<lparr>vc_offset := vc_offset c + n\<rparr>"
      have off: "unat (vc_offset c + n) = unat (vc_offset c) + unat n"
        "unat (vc_offset c) + unat n < unat (v_count (vc_vec c) ! vc_seg c)"
        using lt s(2) True 1(3) unat_lt_u64 [of "v_count (vc_vec c) ! vc_seg c"]
        by (auto simp: m0_vec_cursor_invariant_def word_le_nat_alt word_less_nat_alt unat_sub_noof unat_add_noof)
      have n: "m0_vec_cursor_invariant (m0_vec_cursor_normalize ?c)" "vec_pos (m0_vec_cursor_normalize ?c) = vec_pos c + unat n"
        using normalize_correct [of ?c] True off by (simp_all add: vec_pos_def word_less_nat_alt)
      then show ?thesis
        using 1(2) [OF True s(1) lt n(1)] True s(1) lt by (subst vec_cursor_move_loop.simps) simp
    qed
  qed
qed

section \<open>The cursor interface\<close>

text \<open>
  What the users of a cursor rely on: moving advances the position by the given number of bytes
  or to the end, reporting the end exactly when it is reached; a step stays within the vector;
  and the position determines the cursor.
\<close>

locale byte_cursor =
  fixes move :: "'c \<Rightarrow> u64 \<Rightarrow> ('c \<times> bool) option"
    and step :: "'c \<Rightarrow> u64 option"
    and pos :: "'c \<Rightarrow> nat"
    and base :: "'c \<Rightarrow> 'v"
    and total :: "'v \<Rightarrow> nat"
    and ok :: "'c \<Rightarrow> bool"
  assumes move_law: "ok c \<Longrightarrow> \<exists>c'. move c n = Some (c', total (base c) \<le> pos c + unat n) \<and> ok c' \<and>
                       base c' = base c \<and> pos c' = min (total (base c)) (pos c + unat n)"
    and step_law: "ok c \<Longrightarrow> pos c < total (base c) \<Longrightarrow>
                     \<exists>s. step c = Some s \<and> 0 < unat s \<and> pos c + unat s \<le> total (base c)"
    and pos_bound: "ok c \<Longrightarrow> pos c \<le> total (base c)"
    and pos_unique: "ok c \<Longrightarrow> ok d \<Longrightarrow> base c = base d \<Longrightarrow> pos c = pos d \<Longrightarrow> c = d"
begin

text \<open>A move by zero bytes changes nothing and tells whether the cursor is at the end.\<close>

lemma move_zero: "ok c \<Longrightarrow> move c 0 = Some (c, pos c = total (base c))"
  using move_law [of c 0] pos_bound [of c] pos_unique [of _ c] by (auto simp: min_def)

text \<open>Two moves are one move by the sum, when the sum does not wrap.\<close>

lemma move_move:
  assumes "ok c" "move c a = Some (c', e)" "unat a + unat b < 2 ^ 64"
  shows "move c' b = move c (a + b)"
proof -
  have ab: "unat (a + b) = unat a + unat b" using assms(3) by (simp add: unat_add_noof)
  have c': "ok c'" "base c' = base c" "pos c' = min (total (base c)) (pos c + unat a)"
    using move_law [OF assms(1), of a] assms(2) by auto
  obtain c1 where c1: "move c' b = Some (c1, total (base c) \<le> pos c' + unat b)" "ok c1" "base c1 = base c"
    "pos c1 = min (total (base c)) (pos c' + unat b)" using move_law [OF c'(1), of b] c'(2) by auto
  obtain c2 where c2: "move c (a + b) = Some (c2, total (base c) \<le> pos c + unat a + unat b)" "ok c2"
    "base c2 = base c" "pos c2 = min (total (base c)) (pos c + unat a + unat b)"
    using move_law [OF assms(1), of "a + b"] ab by (auto simp: add.assoc)
  have "c1 = c2" using pos_unique [OF c1(2) c2(2)] c1 c2 c'(3) by (auto simp: min_def)
  moreover have "(total (base c) \<le> pos c' + unat b) = (total (base c) \<le> pos c + unat a + unat b)"
    using c'(3) by (auto simp: min_def)
  ultimately show ?thesis using c1(1) c2(1) by simp
qed

text \<open>Moving by a step never overshoots, and moving by less than what is left stays inside.\<close>

lemma move_step:
  assumes "ok c" "step c = Some s" "pos c < total (base c)" "n \<le> s"
  shows "\<exists>c'. move c n = Some (c', total (base c) = pos c + unat n) \<and> ok c' \<and> base c' = base c \<and>
           pos c' = pos c + unat n"
proof -
  have "pos c + unat n \<le> total (base c)" using step_law [OF assms(1,3)] assms(2,4) by (auto simp: word_le_nat_alt)
  then show ?thesis using move_law [OF assms(1), of n] by (auto simp: min_def)
qed

end

interpretation vc: byte_cursor m0_vec_cursor_move m0_vec_cursor_step vec_pos vc_vec vec_total m0_vec_cursor_invariant
proof
  fix c n assume c: "m0_vec_cursor_invariant c"
  obtain c' where c': "vec_cursor_move_loop c n = Some c'" "m0_vec_cursor_invariant c'" "vc_vec c' = vc_vec c"
    "vec_pos c' = min (vec_total (vc_vec c)) (vec_pos c + unat n)"
    using vec_cursor_move_loop_correct [OF c] by blast
  have "(vc_seg c' = v_nr (vc_vec c')) = (vec_total (vc_vec c) \<le> vec_pos c + unat n)"
    using vec_pos_end_iff(2) [OF c'(2)] c'(3,4) by (auto simp: min_def)
  then show "\<exists>c'. m0_vec_cursor_move c n = Some (c', vec_total (vc_vec c) \<le> vec_pos c + unat n) \<and>
      m0_vec_cursor_invariant c' \<and> vc_vec c' = vc_vec c \<and>
      vec_pos c' = min (vec_total (vc_vec c)) (vec_pos c + unat n)"
    using c c' by (simp add: m0_vec_cursor_move_def bind_M0_ASSERT_True)
next
  fix c assume c: "m0_vec_cursor_invariant c" and "vec_pos c < vec_total (vc_vec c)"
  then have "vc_seg c < v_nr (vc_vec c)"
    using vec_pos_end_iff [OF c] c by (auto simp: m0_vec_cursor_invariant_def le_less)
  from vec_cursor_step_correct [OF c this]
  show "\<exists>s. m0_vec_cursor_step c = Some s \<and> 0 < unat s \<and> vec_pos c + unat s \<le> vec_total (vc_vec c)" by blast
next
  show "vec_pos c \<le> vec_total (vc_vec c)" if "m0_vec_cursor_invariant c" for c
    using vec_pos_end_iff(1) [OF that] .
next
  show "c = d" if "m0_vec_cursor_invariant c" "m0_vec_cursor_invariant d" "vc_vec c = vc_vec d" "vec_pos c = vec_pos d" for c d
    using vec_pos_inj that by blast
qed

lemma vec_cursor_init_correct:
  "\<exists>c. m0_vec_cursor_init vec = Some c \<and> m0_vec_cursor_invariant c \<and> vc_vec c = vec \<and> vec_pos c = 0"
  using normalize_correct [of "\<lparr>vc_vec = vec, vc_seg = 0, vc_offset = 0\<rparr>"]
  by (simp add: m0_vec_cursor_init_def Let_def bind_M0_ASSERT_True vec_pos_def seg_start_def)

text \<open>The count of a vector is the length of its position space, up to the width of the counter.\<close>

lemma vec_count_loop_eq: "vec_count_loop cs n = n + sum_list cs"
  by (induction cs n rule: vec_count_loop.induct) (simp_all add: algebra_simps)

lemma sum_list_seg_start:
  "vec_wf vec \<Longrightarrow> i \<le> v_nr vec \<Longrightarrow> sum_list (take i (v_count vec)) = of_nat (seg_start vec i)"
proof (induction i)
  case (Suc i)
  then show ?case by (simp add: take_Suc_conv_app_nth vec_wf_def seg_start_Suc)
qed (simp add: seg_start_def)

lemma vec_count_total:
  assumes "vec_wf vec" shows "m0_vec_count vec = of_nat (vec_total vec)"
  using sum_list_seg_start [OF assms] by (simp add: m0_vec_count_def vec_count_def vec_count_loop_eq)

lemma vec_cursor_end_correct:
  assumes "m0_vec_cursor_invariant c" "vec_wf (vc_vec c)" "vc_seg c < v_nr (vc_vec c)"
  shows "m0_vec_cursor_end c = Some (of_nat (vec_total (vc_vec c) - vec_pos c))"
proof -
  let ?vec = "vc_vec c" and ?cs = "take (v_nr (vc_vec c)) (v_count (vc_vec c))" and ?i = "Suc (vc_seg c)"
  obtain s where s: "m0_vec_cursor_step c = Some s" "vec_pos c + unat s = seg_start ?vec ?i"
    using vec_cursor_step_correct [OF assms(1,3)] by blast
  have le: "seg_start ?vec ?i \<le> vec_total ?vec" using assms(3) by (intro seg_start_mono) simp
  have "sum_list ?cs = sum_list (take ?i ?cs) + sum_list (drop ?i ?cs)" by (metis append_take_drop_id sum_list_append)
  then have "sum_list (drop ?i ?cs) = of_nat (vec_total ?vec) - of_nat (seg_start ?vec ?i)"
    using sum_list_seg_start [OF assms(2), of ?i] sum_list_seg_start [OF assms(2), of "v_nr ?vec"] assms(3)
    by (simp add: min_def algebra_simps)
  also have "\<dots> = of_nat (vec_total ?vec - seg_start ?vec ?i)" using le by simp
  finally have "s + vec_count ?vec ?i = of_nat (unat s) + of_nat (vec_total ?vec - seg_start ?vec ?i)"
    by (simp add: vec_count_def vec_count_loop_eq)
  also have "\<dots> = of_nat (vec_total ?vec - vec_pos c)"
    unfolding of_nat_add [symmetric] using s(2) le by (intro arg_cong [of _ _ of_nat]) linarith
  finally show ?thesis using s(1) by (simp add: m0_vec_cursor_end_def)
qed

section \<open>Copying between buffer vectors\<close>

text \<open>
  The bytes of a buffer vector as the list of their addresses, and the copy between two such
  lists that reads everything before it writes.
\<close>

definition addr_range :: "u64 \<Rightarrow> nat \<Rightarrow> u64 list" where
  "addr_range a n = map (\<lambda>i. a + of_nat i) [0..<n]"

definition bv_addrs :: "m0_bufvec \<Rightarrow> u64 list" where
  "bv_addrs bv = concat (map (\<lambda>i. addr_range (ov_buf bv ! i) (unat (v_count (ov_vec bv) ! i))) [0..<v_nr (ov_vec bv)])"

definition copy_bytes :: "mem \<Rightarrow> u64 list \<Rightarrow> u64 list \<Rightarrow> mem" where
  "copy_bytes m ds ss = (\<lambda>a. case map_of (zip ds ss) a of None \<Rightarrow> m a | Some b \<Rightarrow> m b)"

lemma length_addr_range [simp]: "length (addr_range a n) = n"
  by (simp add: addr_range_def)

lemma nth_addr_range [simp]: "i < n \<Longrightarrow> addr_range a n ! i = a + of_nat i"
  by (simp add: addr_range_def)

lemma addr_range_split: "i \<le> n \<Longrightarrow> drop i (addr_range a n) = addr_range (a + of_nat i) (n - i)"
  by (rule nth_equalityI) (simp_all add: algebra_simps)

lemma take_addr_range: "i \<le> n \<Longrightarrow> take i (addr_range a n) = addr_range a i"
  by (rule nth_equalityI) simp_all

text \<open>The part of the address list from a cursor's position on starts with the rest of its segment.\<close>

lemma upt_split_at: "i < n \<Longrightarrow> [0..<n] = [0..<i] @ i # [Suc i..<n]"
  by (metis less_imp_le_nat upt_add_eq_append upt_conv_Cons le0 le_add_diff_inverse)

lemma concat_upt_nth:
  assumes "i < n" "off \<le> length (f i)"
  shows "drop ((\<Sum>k < i. length (f k)) + off) (concat (map f [0..<n])) = drop off (f i) @ concat (map f [Suc i..<n])"
proof -
  have "concat (map f [0..<n]) = concat (map f [0..<i]) @ f i @ concat (map f [Suc i..<n])"
    using upt_split_at [OF assms(1)] by simp
  moreover have "length (concat (map f [0..<i])) = (\<Sum>k < i. length (f k))"
    by (simp add: length_concat sum_list_sum_nth atLeast0LessThan)
  ultimately show ?thesis using assms(2) by simp
qed

lemma length_bv_addrs: "length (bv_addrs bv) = vec_total (ov_vec bv)"
  by (simp add: bv_addrs_def length_concat seg_start_def sum_list_sum_nth atLeast0LessThan)

definition bcur_ok :: "m0_bufvec_cursor \<Rightarrow> bool" where
  "bcur_ok cur \<longleftrightarrow> m0_vec_cursor_invariant (bc_vc cur) \<and> vc_vec (bc_vc cur) = ov_vec (bc_bv cur)"

definition bcur_pos :: "m0_bufvec_cursor \<Rightarrow> nat" where
  "bcur_pos cur = vec_pos (bc_vc cur)"

definition cur_addrs :: "m0_bufvec_cursor \<Rightarrow> u64 list" where
  "cur_addrs cur = drop (bcur_pos cur) (bv_addrs (bc_bv cur))"

interpretation bc: byte_cursor m0_bufvec_cursor_move m0_bufvec_cursor_step bcur_pos bc_bv
  "\<lambda>bv. vec_total (ov_vec bv)" bcur_ok
proof
  fix c n assume c: "bcur_ok c"
  then have vc: "m0_vec_cursor_invariant (bc_vc c)" "vc_vec (bc_vc c) = ov_vec (bc_bv c)" by (simp_all add: bcur_ok_def)
  from vc.move_law [OF vc(1), of n] vc(2)
  show "\<exists>c'. m0_bufvec_cursor_move c n = Some (c', vec_total (ov_vec (bc_bv c)) \<le> bcur_pos c + unat n) \<and>
      bcur_ok c' \<and> bc_bv c' = bc_bv c \<and> bcur_pos c' = min (vec_total (ov_vec (bc_bv c))) (bcur_pos c + unat n)"
    by (auto simp: m0_bufvec_cursor_move_def bcur_ok_def bcur_pos_def)
next
  fix c assume "bcur_ok c" "bcur_pos c < vec_total (ov_vec (bc_bv c))"
  then show "\<exists>s. m0_bufvec_cursor_step c = Some s \<and> 0 < unat s \<and> bcur_pos c + unat s \<le> vec_total (ov_vec (bc_bv c))"
    using vc.step_law [of "bc_vc c"] by (simp add: m0_bufvec_cursor_step_def bcur_ok_def bcur_pos_def)
next
  show "bcur_pos c \<le> vec_total (ov_vec (bc_bv c))" if "bcur_ok c" for c
    using that vc.pos_bound [of "bc_vc c"] by (simp add: bcur_ok_def bcur_pos_def)
next
  fix c d assume "bcur_ok c" "bcur_ok d" "bc_bv c = bc_bv d" "bcur_pos c = bcur_pos d"
  then have "bc_vc c = bc_vc d" using vc.pos_unique [of "bc_vc c" "bc_vc d"] by (simp add: bcur_ok_def bcur_pos_def)
  then show "c = d" using \<open>bc_bv c = bc_bv d\<close> by (cases c; cases d) simp
qed

lemma bufvec_cursor_segment:
  assumes "bcur_ok cur" "bcur_pos cur < vec_total (ov_vec (bc_bv cur))"
  shows "\<exists>s a. m0_bufvec_cursor_step cur = Some s \<and> bufvec_cursor_addr cur = Some a \<and> 0 < unat s \<and>
    bcur_pos cur + unat s \<le> vec_total (ov_vec (bc_bv cur)) \<and> unat s \<le> length (cur_addrs cur) \<and>
    take (unat s) (cur_addrs cur) = addr_range a (unat s)"
proof -
  let ?c = "bc_vc cur" and ?bv = "bc_bv cur"
  have inv: "m0_vec_cursor_invariant ?c" "vc_vec ?c = ov_vec ?bv" using assms(1) by (simp_all add: bcur_ok_def)
  have seg: "vc_seg ?c < v_nr (ov_vec ?bv)"
    using vec_pos_end_iff [OF inv(1)] inv assms(2) by (auto simp: m0_vec_cursor_invariant_def le_less bcur_pos_def)
  obtain s where s: "m0_vec_cursor_step ?c = Some s" "s = v_count (ov_vec ?bv) ! vc_seg ?c - vc_offset ?c" "0 < unat s"
    "vec_pos ?c + unat s \<le> vec_total (ov_vec ?bv)"
    using vec_cursor_step_correct [OF inv(1)] seg inv(2) by metis
  have off: "vc_offset ?c < v_count (ov_vec ?bv) ! vc_seg ?c"
    using inv seg by (simp add: m0_vec_cursor_invariant_def)
  then have us: "unat s = unat (v_count (ov_vec ?bv) ! vc_seg ?c) - unat (vc_offset ?c)"
    using s(2) by (simp add: unat_sub_noof)
  let ?a = "ov_buf ?bv ! vc_seg ?c + vc_offset ?c"
  let ?f = "\<lambda>i. addr_range (ov_buf ?bv ! i) (unat (v_count (ov_vec ?bv) ! i))"
  have "cur_addrs cur = drop (unat (vc_offset ?c)) (?f (vc_seg ?c)) @ concat (map ?f [Suc (vc_seg ?c)..<v_nr (ov_vec ?bv)])"
    using concat_upt_nth [of "vc_seg ?c" "v_nr (ov_vec ?bv)" "unat (vc_offset ?c)" ?f] seg off inv(2)
    by (simp add: cur_addrs_def bcur_pos_def bv_addrs_def vec_pos_def seg_start_def word_less_nat_alt)
  also have "drop (unat (vc_offset ?c)) (?f (vc_seg ?c)) = addr_range ?a (unat s)"
    using addr_range_split [of "unat (vc_offset ?c)"] off us by (simp add: word_less_nat_alt)
  finally have "cur_addrs cur = addr_range ?a (unat s) @ concat (map ?f [Suc (vc_seg ?c)..<v_nr (ov_vec ?bv)])" .
  moreover have "bufvec_cursor_addr cur = Some ?a"
    using bc.move_zero [OF assms(1)] assms(2) by (simp add: bufvec_cursor_addr_def)
  ultimately show ?thesis using s by (simp add: m0_bufvec_cursor_step_def bcur_pos_def)
qed

lemma bufvec_cursor_init_correct:
  assumes "v_nr (ov_vec bv) \<noteq> 0" "v_count (ov_vec bv) \<noteq> []" "ov_buf bv \<noteq> []"
  shows "\<exists>c. m0_bufvec_cursor_init bv = Some c \<and> bcur_ok c \<and> bc_bv c = bv \<and> bcur_pos c = 0"
  using vec_cursor_init_correct [of "ov_vec bv"] assms
  by (auto simp: m0_bufvec_cursor_init_def bcur_ok_def bcur_pos_def bind_M0_ASSERT_True)

lemma of_nat_u64_inj: "x < 2 ^ 64 \<Longrightarrow> y < 2 ^ 64 \<Longrightarrow> (of_nat x :: u64) = of_nat y \<longleftrightarrow> x = y"
  by (simp add: word_unat_eq_iff unat_of_nat)

lemma distinct_addr_range: "n < 2 ^ 64 \<Longrightarrow> distinct (addr_range a n)"
  by (auto simp: addr_range_def distinct_map inj_on_def of_nat_u64_inj)

lemma map_of_zip_None: "length xs = length ys \<Longrightarrow> a \<notin> set xs \<Longrightarrow> map_of (zip xs ys) a = None"
  by simp

lemma memmove_copy_bytes: "memmove m d s n = copy_bytes m (addr_range d (unat n)) (addr_range s (unat n))"
proof
  fix a
  have n: "unat n < 2 ^ 64" using unat_lt_u64 [of n] by simp
  show "memmove m d s n a = copy_bytes m (addr_range d (unat n)) (addr_range s (unat n)) a"
  proof (cases "a - d < n")
    case True
    let ?i = "unat (a - d)"
    have i: "?i < unat n" using True by (simp add: word_less_nat_alt)
    have "zip (addr_range d (unat n)) (addr_range s (unat n)) ! ?i = (a, s + (a - d))" using i by simp
    then have "(a, s + (a - d)) \<in> set (zip (addr_range d (unat n)) (addr_range s (unat n)))"
      using i by (metis length_addr_range length_zip min.idem nth_mem)
    then have "map_of (zip (addr_range d (unat n)) (addr_range s (unat n))) a = Some (s + (a - d))"
      using distinct_addr_range [OF n] by (intro map_of_is_SomeI) simp_all
    then show ?thesis using True by (simp add: memmove_def copy_bytes_def)
  next
    case False
    have "a \<notin> set (addr_range d (unat n))"
    proof
      assume "a \<in> set (addr_range d (unat n))"
      then obtain i where "i < unat n" "a = d + of_nat i" by (auto simp: addr_range_def)
      then have "a - d < n" using n by (simp add: word_less_nat_alt unat_of_nat)
      with False show False by simp
    qed
    then show ?thesis using False by (simp add: memmove_def copy_bytes_def map_of_zip_None)
  qed
qed

lemma copy_bytes_append:
  assumes "length ds = length ss" "distinct (ds @ ds')" "set ds \<inter> set ss' = {}"
  shows "copy_bytes (copy_bytes m ds ss) ds' ss' = copy_bytes m (ds @ ds') (ss @ ss')"
proof
  fix a
  have zip: "zip (ds @ ds') (ss @ ss') = zip ds ss @ zip ds' ss'" using assms(1) by simp
  show "copy_bytes (copy_bytes m ds ss) ds' ss' a = copy_bytes m (ds @ ds') (ss @ ss') a"
  proof (cases "map_of (zip ds' ss') a")
    case None
    then show ?thesis unfolding copy_bytes_def zip by (simp add: map_add_def split: option.splits)
  next
    case (Some b)
    then have b: "b \<in> set ss'" "a \<in> set ds'" by (auto dest: map_of_SomeD set_zip_leftD set_zip_rightD)
    then have "map_of (zip ds ss) b = None" "map_of (zip ds ss) a = None"
      using assms by (auto simp: map_of_eq_None_iff dest: set_zip_leftD)
    then show ?thesis unfolding copy_bytes_def zip using Some by (simp add: map_add_def)
  qed
qed


text \<open>
  The copy loop, from cursors that have still to move by the last fragment. It moves the bytes of
  the two streams one to one until one stream or the count runs out.
\<close>

lemma copy_bytes_take_add:
  assumes "distinct D" "set D \<inter> set S = {}" "i + k \<le> length D" "i + k \<le> length S"
  shows "copy_bytes (copy_bytes m (take i D) (take i S)) (take k (drop i D)) (take k (drop i S)) =
         copy_bytes m (take (i + k) D) (take (i + k) S)"
proof -
  have "distinct (take i D @ take k (drop i D))" using assms(1) by (metis distinct_take take_add)
  moreover have "set (take i D) \<inter> set (take k (drop i S)) = {}"
    using assms(2) by (meson disjoint_iff in_set_dropD in_set_takeD)
  ultimately show ?thesis using assms copy_bytes_append [of "take i D" "take i S"] by (simp add: take_add)
qed

lemma cur_addrs_move:
  assumes "bcur_ok c" "bcur_pos c + unat frag \<le> vec_total (ov_vec (bc_bv c))"
  shows "\<exists>c1. m0_bufvec_cursor_move c frag = Some (c1, length (drop (unat frag) (cur_addrs c)) = 0) \<and> bcur_ok c1 \<and>
     bc_bv c1 = bc_bv c \<and> bcur_pos c1 = bcur_pos c + unat frag \<and> cur_addrs c1 = drop (unat frag) (cur_addrs c)"
proof -
  obtain c1 where "m0_bufvec_cursor_move c frag = Some (c1, vec_total (ov_vec (bc_bv c)) = bcur_pos c + unat frag)"
    "bcur_ok c1" "bc_bv c1 = bc_bv c" "bcur_pos c1 = bcur_pos c + unat frag"
    using bc.move_law [OF assms(1), of frag] assms(2) by (auto simp: min_def)
  then show ?thesis using assms(2) by (auto simp: cur_addrs_def length_bv_addrs add.commute)
qed

lemma cur_addrs_pos: "bcur_ok c \<Longrightarrow> length (cur_addrs c) \<noteq> 0 \<Longrightarrow> bcur_pos c < vec_total (ov_vec (bc_bv c))"
  by (simp add: cur_addrs_def length_bv_addrs)

lemma fragment_move:
  assumes "take (unat ds) D = addr_range da (unat ds)" "take (unat ss) S = addr_range sa (unat ss)"
    "unat f \<le> unat ds" "unat f \<le> unat ss"
  shows "memmove m da sa f = copy_bytes m (take (unat f) D) (take (unat f) S)"
proof -
  have "take (unat f) D = addr_range da (unat f)" "take (unat f) S = addr_range sa (unat f)"
    using assms take_addr_range by (metis min.absorb1 take_take)+
  then show ?thesis by (simp add: memmove_copy_bytes)
qed

lemma min_peel:
  fixes f :: nat
  assumes "f \<le> n" "f \<le> a" "f \<le> b"
  shows "min n (min a b) = f + min (n - f) (min (a - f) (b - f))"
  using assms by linarith

lemma copy_loop_end:
  assumes "m0_bufvec_cursor_move d frag = Some (d1, de)" "m0_bufvec_cursor_move s frag = Some (s1, se)" "de \<or> se"
  shows "bufvec_cursor_copy_loop m d s frag n copied = Some (m, d1, s1, copied)"
  using assms(3) by (subst bufvec_cursor_copy_loop.simps) (simp add: assms(1,2))

lemma copy_loop_next:
  assumes "m0_bufvec_cursor_move d frag = Some (d1, False)" "m0_bufvec_cursor_move s frag = Some (s1, False)"
    "m0_bufvec_cursor_step d1 = Some ds" "m0_bufvec_cursor_step s1 = Some ss"
    "bufvec_cursor_addr d1 = Some da" "bufvec_cursor_addr s1 = Some sa" "f = min64u (min64u ds ss) n"
  shows "bufvec_cursor_copy_loop m d s frag n copied =
    (if n = 0 then Some (m, d1, s1, copied)
     else bufvec_cursor_copy_loop (memmove m da sa f) d1 s1 f (n - f) (copied + f))"
  by (subst bufvec_cursor_copy_loop.simps) (simp add: assms Let_def)

lemma bufvec_cursor_copy_loop_correct:
  assumes "bcur_ok d" "bcur_ok s"
    and "bcur_pos d + unat frag \<le> vec_total (ov_vec (bc_bv d))"
    and "bcur_pos s + unat frag \<le> vec_total (ov_vec (bc_bv s))"
    and "distinct (drop (unat frag) (cur_addrs d))"
    and "set (drop (unat frag) (cur_addrs d)) \<inter> set (drop (unat frag) (cur_addrs s)) = {}"
    and "k = min (unat n) (min (length (drop (unat frag) (cur_addrs d))) (length (drop (unat frag) (cur_addrs s))))"
  shows "\<exists>d' s'. bufvec_cursor_copy_loop m d s frag n copied =
       Some (copy_bytes m (take k (drop (unat frag) (cur_addrs d))) (take k (drop (unat frag) (cur_addrs s))),
             d', s', copied + of_nat k) \<and>
     bcur_ok d' \<and> bc_bv d' = bc_bv d \<and> bcur_pos d' = bcur_pos d + unat frag + k \<and>
     bcur_ok s' \<and> bc_bv s' = bc_bv s \<and> bcur_pos s' = bcur_pos s + unat frag + k"
  using assms
proof (induction "unat n" arbitrary: n m d s frag k copied rule: less_induct)
  case less
  let ?D = "drop (unat frag) (cur_addrs d)" and ?S = "drop (unat frag) (cur_addrs s)"
  obtain d1 where d1: "m0_bufvec_cursor_move d frag = Some (d1, length ?D = 0)" "bcur_ok d1"
    "bc_bv d1 = bc_bv d" "bcur_pos d1 = bcur_pos d + unat frag" "cur_addrs d1 = ?D"
    using cur_addrs_move [OF less.prems(1,3)] by blast
  obtain s1 where s1: "m0_bufvec_cursor_move s frag = Some (s1, length ?S = 0)" "bcur_ok s1"
    "bc_bv s1 = bc_bv s" "bcur_pos s1 = bcur_pos s + unat frag" "cur_addrs s1 = ?S"
    using cur_addrs_move [OF less.prems(2,4)] by blast
  show ?case
  proof (cases "length ?D = 0 \<or> length ?S = 0")
    case True
    then have k: "k = 0" using less.prems(7) by auto
    have "bufvec_cursor_copy_loop m d s frag n copied = Some (m, d1, s1, copied)"
      by (rule copy_loop_end [OF d1(1) s1(1) True])
    then show ?thesis using d1 s1 k by (simp add: copy_bytes_def)
  next
    case False
    obtain ds da where ds: "m0_bufvec_cursor_step d1 = Some ds" "bufvec_cursor_addr d1 = Some da" "0 < unat ds"
      "bcur_pos d1 + unat ds \<le> vec_total (ov_vec (bc_bv d1))" "unat ds \<le> length ?D"
      "take (unat ds) ?D = addr_range da (unat ds)"
      using bufvec_cursor_segment [OF d1(2) cur_addrs_pos] d1 False by metis
    obtain ss sa where ss: "m0_bufvec_cursor_step s1 = Some ss" "bufvec_cursor_addr s1 = Some sa" "0 < unat ss"
      "bcur_pos s1 + unat ss \<le> vec_total (ov_vec (bc_bv s1))" "unat ss \<le> length ?S"
      "take (unat ss) ?S = addr_range sa (unat ss)"
      using bufvec_cursor_segment [OF s1(2) cur_addrs_pos] s1 False by metis
    have mvs: "m0_bufvec_cursor_move d frag = Some (d1, False)" "m0_bufvec_cursor_move s frag = Some (s1, False)"
      using d1(1) s1(1) False by simp_all
    note nxt = copy_loop_next [OF mvs ds(1) ss(1) ds(2) ss(2) refl, of m n copied]
    show ?thesis
    proof (cases "n = 0")
      case True
      have "bufvec_cursor_copy_loop m d s frag n copied = Some (m, d1, s1, copied)"
        using nxt True by simp
      then show ?thesis using d1 s1 True less.prems(7) by (simp add: copy_bytes_def)
    next
      case n: False
      define f where "f = min64u (min64u ds ss) n"
      have uf: "unat f = min (min (unat ds) (unat ss)) (unat n)"
        by (simp add: f_def min64u_def min_def word_less_nat_alt)
      have f0: "0 < unat f" "unat f \<le> unat n" using uf ds(3) ss(3) n by (auto simp: unat_gt_0)
      have nf: "unat (n - f) = unat n - unat f" using f0(2) by (simp add: unat_sub_noof word_le_nat_alt)
      have mv: "memmove m da sa f = copy_bytes m (take (unat f) ?D) (take (unat f) ?S)"
        using fragment_move [OF ds(6) ss(6)] uf by simp
      define k' where "k' = min (unat (n - f)) (min (length (drop (unat f) ?D)) (length (drop (unat f) ?S)))"
      have le: "unat f \<le> length ?D" "unat f \<le> length ?S" using uf ds(5) ss(5) by simp_all
      have k: "k = unat f + k'"
        unfolding k'_def nf length_drop [of "unat f" ?D] length_drop [of "unat f" ?S] less.prems(7)
        by (rule min_peel [OF f0(2) le])
      have kle: "unat f + k' \<le> length ?D" "unat f + k' \<le> length ?S"
        unfolding k [symmetric] less.prems(7) by simp_all
      have lt: "unat (n - f) < unat n" using nf f0 by simp
      have posd: "bcur_pos d1 + unat f \<le> vec_total (ov_vec (bc_bv d1))" using ds(4) uf by simp
      have poss: "bcur_pos s1 + unat f \<le> vec_total (ov_vec (bc_bv s1))" using ss(4) uf by simp
      have dd: "distinct (drop (unat f) (cur_addrs d1))" using less.prems(5) unfolding d1(5) by (rule distinct_drop)
      have disj: "set (drop (unat f) (cur_addrs d1)) \<inter> set (drop (unat f) (cur_addrs s1)) = {}"
        using less.prems(6) set_drop_subset unfolding d1(5) s1(5) by fast
      have "\<exists>d' s'. bufvec_cursor_copy_loop (memmove m da sa f) d1 s1 f (n - f) (copied + f) =
          Some (copy_bytes (memmove m da sa f) (take k' (drop (unat f) ?D)) (take k' (drop (unat f) ?S)),
             d', s', copied + f + of_nat k') \<and>
          bcur_ok d' \<and> bc_bv d' = bc_bv d \<and> bcur_pos d' = bcur_pos d1 + unat f + k' \<and>
          bcur_ok s' \<and> bc_bv s' = bc_bv s \<and> bcur_pos s' = bcur_pos s1 + unat f + k'"
        using less.hyps [OF lt d1(2) s1(2) posd poss dd disj, of k' "memmove m da sa f" "copied + f"]
        unfolding d1(3,5) s1(3,5) k'_def by blast
      moreover have "copy_bytes (memmove m da sa f) (take k' (drop (unat f) ?D)) (take k' (drop (unat f) ?S)) =
          copy_bytes m (take k ?D) (take k ?S)"
        unfolding mv k by (rule copy_bytes_take_add [OF less.prems(5,6) kle])
      moreover have "bufvec_cursor_copy_loop m d s frag n copied =
          bufvec_cursor_copy_loop (memmove m da sa f) d1 s1 f (n - f) (copied + f)"
        using nxt n unfolding f_def by simp
      ultimately show ?thesis using k d1(4) s1(4) by (auto simp: add.assoc)
    qed
  qed
qed

lemma bufvec_cursor_copy_correct:
  fixes n :: u64
  assumes "bcur_ok d" "bcur_ok s" "distinct (cur_addrs d)" "set (cur_addrs d) \<inter> set (cur_addrs s) = {}"
  defines "k \<equiv> min (unat n) (min (length (cur_addrs d)) (length (cur_addrs s)))"
  shows "\<exists>d' s'. m0_bufvec_cursor_copy m d s n =
       Some (copy_bytes m (take k (cur_addrs d)) (take k (cur_addrs s)), d', s', of_nat k) \<and>
     bcur_ok d' \<and> bc_bv d' = bc_bv d \<and> bcur_pos d' = bcur_pos d + k \<and>
     bcur_ok s' \<and> bc_bv s' = bc_bv s \<and> bcur_pos s' = bcur_pos s + k"
  using bufvec_cursor_copy_loop_correct [of d s 0 k n m 0] assms bc.pos_bound [of d] bc.pos_bound [of s]
  by (simp add: m0_bufvec_cursor_copy_def)

lemma copy_bytes_nth:
  assumes "distinct ds" "length ds = length ss" "i < length ds"
  shows "copy_bytes m ds ss (ds ! i) = m (ss ! i)"
proof -
  have "map_of (zip ds ss) (ds ! i) = Some (ss ! i)"
    using assms by (intro map_of_is_SomeI) (auto simp: set_zip)
  then show ?thesis by (simp add: copy_bytes_def)
qed

lemma copy_bytes_frame:
  "length ds = length ss \<Longrightarrow> a \<notin> set ds \<Longrightarrow> copy_bytes m ds ss a = m a"
  by (simp add: copy_bytes_def map_of_zip_None)

text \<open>The bytes of a list of addresses after the copy are the bytes of the source.\<close>

lemma copy_bytes_map:
  assumes "distinct ds" "length ds = length ss"
  shows "map (copy_bytes m ds ss) ds = map m ss"
  using assms by (intro nth_equalityI) (simp_all add: copy_bytes_nth)

section \<open>Packing\<close>

text \<open>The indices a range of segments covers.\<close>

definition seg_set :: "u64 list \<Rightarrow> u64 list \<Rightarrow> nat \<Rightarrow> nat set" where
  "seg_set cnt idx i = {unat (idx ! i)..<unat (idx ! i) + unat (cnt ! i)}"

definition segs_cover :: "u64 list \<Rightarrow> u64 list \<Rightarrow> nat set \<Rightarrow> nat set" where
  "segs_cover cnt idx I = (\<Union>i \<in> I. seg_set cnt idx i)"

text \<open>
  The state of the packing loop: segments up to \<open>i\<close> are final, those from \<open>j\<close> on untouched and in
  order, and no segment runs past the end of the index space.
\<close>

definition pack_inv :: "nat \<Rightarrow> nat \<Rightarrow> nat \<Rightarrow> u64 list \<Rightarrow> u64 list \<Rightarrow> bool" where
  "pack_inv nr j i cnt idx \<longleftrightarrow>
     i < j \<and> j \<le> nr \<and> nr \<le> length cnt \<and> nr \<le> length idx \<and>
     (\<forall>k. k \<le> i \<or> (j \<le> k \<and> k < nr) \<longrightarrow> unat (idx ! k) + unat (cnt ! k) < 2 ^ 64) \<and>
     (\<forall>k. j \<le> k \<and> k < nr \<longrightarrow> idx ! i \<le> idx ! k) \<and>
     (\<forall>k l. j \<le> k \<and> k \<le> l \<and> l < nr \<longrightarrow> idx ! k \<le> idx ! l) \<and>
     (\<forall>k < i. unat (idx ! k) + unat (cnt ! k) < unat (idx ! Suc k))"

lemma pack_inv_end: "pack_inv nr j i cnt idx \<Longrightarrow> unat (idx ! i + cnt ! i) = unat (idx ! i) + unat (cnt ! i)"
  by (simp add: pack_inv_def unat_add_noof)

lemma pack_inv_merge:
  assumes inv: "pack_inv nr j i cnt idx" and j: "j < nr" and le: "idx ! j \<le> idx ! i + cnt ! i"
  defines "e \<equiv> idx ! i + cnt ! i"
  defines "cnt' \<equiv> (if cnt ! j > e - idx ! j then cnt[i := cnt ! i + (cnt ! j - (e - idx ! j))] else cnt)"
  shows "pack_inv nr (Suc j) i cnt' idx"
    "segs_cover cnt' idx ({..i} \<union> {Suc j..<nr}) = segs_cover cnt idx ({..i} \<union> {j..<nr})"
proof -
  have ue: "unat e = unat (idx ! i) + unat (cnt ! i)" using pack_inv_end [OF inv] by (simp add: e_def)
  have ij: "i < j" "i < length cnt" "idx ! i \<le> idx ! j" using inv j by (auto simp: pack_inv_def)
  have ed: "unat (e - idx ! j) = unat e - unat (idx ! j)" using le by (simp add: e_def unat_sub_noof)
  have jb: "unat (idx ! j) + unat (cnt ! j) < 2 ^ 64" using inv j by (simp add: pack_inv_def)
  have lei: "unat (idx ! j) \<le> unat e" "unat (idx ! i) \<le> unat (idx ! j)"
    using le ij by (simp_all add: e_def word_le_nat_alt)
  have ci: "unat (cnt' ! i) = max (unat (cnt ! i)) (unat (idx ! j) + unat (cnt ! j) - unat (idx ! i))"
  proof (cases "cnt ! j > e - idx ! j")
    case True
    then have gt: "unat (cnt ! j) > unat e - unat (idx ! j)" using ed by (simp add: word_less_nat_alt)
    have d: "unat (cnt ! j - (e - idx ! j)) = unat (cnt ! j) - (unat e - unat (idx ! j))"
      using True ed by (subst unat_sub_noof) simp_all
    have "unat (cnt ! i + (cnt ! j - (e - idx ! j))) = unat (cnt ! i) + (unat (cnt ! j) - (unat e - unat (idx ! j)))"
      using d jb gt lei ue by (subst unat_add_noof) simp_all
    then have "unat (cnt' ! i) = unat (cnt ! i) + (unat (cnt ! j) - (unat e - unat (idx ! j)))"
      using True ij(2) by (simp add: cnt'_def)
    then show ?thesis using gt lei ue by linarith
  next
    case False
    then have "unat (cnt ! j) \<le> unat e - unat (idx ! j)" using ed by (simp add: word_less_nat_alt)
    then have "unat (idx ! j) + unat (cnt ! j) - unat (idx ! i) \<le> unat (cnt ! i)" using lei ue by linarith
    moreover have "cnt' ! i = cnt ! i" using False by (simp add: cnt'_def)
    ultimately show ?thesis by simp
  qed
  have frame: "k \<noteq> i \<Longrightarrow> cnt' ! k = cnt ! k" for k by (simp add: cnt'_def)
  have len: "length cnt' = length cnt" by (simp add: cnt'_def)
  have bi: "unat (idx ! i) + unat (cnt' ! i) < 2 ^ 64"
    using ci inv jb lei by (simp add: pack_inv_def max_def)
  show "pack_inv nr (Suc j) i cnt' idx"
    unfolding pack_inv_def
  proof (intro conjI allI impI)
    show "i < Suc j" "Suc j \<le> nr" "nr \<le> length cnt'" "nr \<le> length idx"
      using inv j len by (auto simp: pack_inv_def)
    fix k assume "k \<le> i \<or> Suc j \<le> k \<and> k < nr"
    then show "unat (idx ! k) + unat (cnt' ! k) < 2 ^ 64"
      using bi frame [of k] inv by (cases "k = i") (auto simp: pack_inv_def)
  next
    fix k assume "Suc j \<le> k \<and> k < nr"
    then show "idx ! i \<le> idx ! k" using inv by (simp add: pack_inv_def)
  next
    fix k l assume "Suc j \<le> k \<and> k \<le> l \<and> l < nr"
    then show "idx ! k \<le> idx ! l" using inv by (simp add: pack_inv_def)
  next
    fix k assume "k < i"
    then show "unat (idx ! k) + unat (cnt' ! k) < unat (idx ! Suc k)"
      using frame [of k] inv by (simp add: pack_inv_def)
  qed
  have seti: "seg_set cnt' idx i = seg_set cnt idx i \<union> seg_set cnt idx j"
    using ci lei ue by (auto simp: seg_set_def max_def)
  have setk: "k \<noteq> i \<Longrightarrow> seg_set cnt' idx k = seg_set cnt idx k" for k by (simp add: seg_set_def frame)
  have "{j..<nr} = insert j {Suc j..<nr}" using j by auto
  moreover have "segs_cover cnt' idx ({..i} \<union> {Suc j..<nr}) =
      seg_set cnt' idx i \<union> segs_cover cnt' idx ({..<i} \<union> {Suc j..<nr})"
    by (auto simp: segs_cover_def) (metis lessThan_iff order_le_imp_less_or_eq)
  moreover have "segs_cover cnt' idx ({..<i} \<union> {Suc j..<nr}) = segs_cover cnt idx ({..<i} \<union> {Suc j..<nr})"
    unfolding segs_cover_def using setk ij(1) by (intro SUP_cong) auto
  ultimately show "segs_cover cnt' idx ({..i} \<union> {Suc j..<nr}) = segs_cover cnt idx ({..i} \<union> {j..<nr})"
    unfolding seti by (auto simp: segs_cover_def) (metis lessThan_iff order_le_imp_less_or_eq)
qed

lemma pack_inv_advance:
  assumes inv: "pack_inv nr j i cnt idx" and j: "j < nr" and gt: "\<not> idx ! j \<le> idx ! i + cnt ! i"
  defines "cnt' \<equiv> cnt[Suc i := cnt ! j]" and "idx' \<equiv> idx[Suc i := idx ! j]"
  shows "pack_inv nr (Suc j) (Suc i) cnt' idx'"
    "segs_cover cnt' idx' ({..Suc i} \<union> {Suc j..<nr}) = segs_cover cnt idx ({..i} \<union> {j..<nr})"
proof -
  have ij: "Suc i \<le> j" "Suc i < length cnt" "Suc i < length idx" using inv j by (auto simp: pack_inv_def)
  have frame: "k \<noteq> Suc i \<Longrightarrow> cnt' ! k = cnt ! k" "k \<noteq> Suc i \<Longrightarrow> idx' ! k = idx ! k" for k
    by (simp_all add: cnt'_def idx'_def)
  have new: "cnt' ! Suc i = cnt ! j" "idx' ! Suc i = idx ! j" using ij by (simp_all add: cnt'_def idx'_def)
  have sep: "unat (idx ! i) + unat (cnt ! i) < unat (idx ! j)"
    using gt pack_inv_end [OF inv] by (simp add: word_le_nat_alt)
  show "pack_inv nr (Suc j) (Suc i) cnt' idx'"
    unfolding pack_inv_def
  proof (intro conjI allI impI)
    show "Suc i < Suc j" "Suc j \<le> nr" "nr \<le> length cnt'" "nr \<le> length idx'"
      using inv j ij by (auto simp: pack_inv_def cnt'_def idx'_def)
    fix k assume k: "k \<le> Suc i \<or> Suc j \<le> k \<and> k < nr"
    show "unat (idx' ! k) + unat (cnt' ! k) < 2 ^ 64"
    proof (cases "k = Suc i")
      case True
      then show ?thesis using new inv j by (simp add: pack_inv_def)
    next
      case False
      then show ?thesis using frame k inv by (auto simp: pack_inv_def)
    qed
  next
    fix k assume k: "Suc j \<le> k \<and> k < nr"
    then have "idx ! j \<le> idx ! k" using inv j by (simp add: pack_inv_def)
    then show "idx' ! Suc i \<le> idx' ! k" using new frame k ij by simp
  next
    fix k l assume kl: "Suc j \<le> k \<and> k \<le> l \<and> l < nr"
    then have "idx ! k \<le> idx ! l" using inv by (simp add: pack_inv_def)
    then show "idx' ! k \<le> idx' ! l" using frame kl ij by simp
  next
    fix k assume k: "k < Suc i"
    show "unat (idx' ! k) + unat (cnt' ! k) < unat (idx' ! Suc k)"
    proof (cases "k = i")
      case True
      then show ?thesis using sep new frame by simp
    next
      case False
      then show ?thesis using k inv frame by (simp add: pack_inv_def)
    qed
  qed
  have setj: "seg_set cnt' idx' (Suc i) = seg_set cnt idx j" using new by (simp add: seg_set_def)
  have "segs_cover cnt' idx' ({..i} \<union> {Suc j..<nr}) = segs_cover cnt idx ({..i} \<union> {Suc j..<nr})"
    unfolding segs_cover_def using frame ij(1) by (intro SUP_cong) (auto simp: seg_set_def)
  moreover have "{..Suc i} = insert (Suc i) {..i}" "{j..<nr} = insert j {Suc j..<nr}" using j by auto
  ultimately show "segs_cover cnt' idx' ({..Suc i} \<union> {Suc j..<nr}) = segs_cover cnt idx ({..i} \<union> {j..<nr})"
    using setj by (simp add: segs_cover_def)
qed

lemma vec_pack_loop_correct:
  assumes "pack_inv nr j i cnt idx" "vec_pack_loop nr j i cnt idx = (i', cnt', idx')"
  shows "pack_inv nr nr i' cnt' idx' \<and>
         segs_cover cnt' idx' {..i'} = segs_cover cnt idx ({..i} \<union> {j..<nr})"
  using assms
proof (induction nr j i cnt idx rule: vec_pack_loop.induct)
  case (1 nr j i cnt idx)
  show ?case
  proof (cases "j < nr")
    case False
    then have "j = nr" using 1(4) by (simp add: pack_inv_def)
    then show ?thesis using 1(4,5) by (simp add: vec_pack_loop.simps [of nr nr])
  next
    case True
    show ?thesis
    proof (cases "idx ! j \<le> idx ! i + cnt ! i")
      case le: True
      show ?thesis
        using 1(1) [OF True refl le] pack_inv_merge [OF 1(4) True le] 1(5) True le
        by (simp add: vec_pack_loop.simps [of nr j] Let_def)
    next
      case gt: False
      note adv = pack_inv_advance [OF 1(4) True gt]
      show ?thesis
      proof (cases "i + 1 = j")
        case eq: True
        then have "cnt[Suc i := cnt ! j] = cnt" "idx[Suc i := idx ! j] = idx" by auto
        then show ?thesis
          using 1(3) [OF True refl gt refl] adv 1(5) True gt eq
          by (simp add: vec_pack_loop.simps [of nr j] Let_def)
      next
        case neq: False
        then show ?thesis
          using 1(2) [OF True refl gt refl neq] adv 1(5) True gt
          by (simp add: vec_pack_loop.simps [of nr j] Let_def)
      qed
    qed
  qed
qed

lemma vec_pack_correct:
  assumes "nr \<le> length cnt" "nr \<le> length idx" "0 < nr"
    and nw: "\<forall>k < nr. unat (idx ! k) + unat (cnt ! k) < 2 ^ 64"
    and sorted: "\<forall>k l. k \<le> l \<and> l < nr \<longrightarrow> idx ! k \<le> idx ! l"
    and pack: "vec_pack nr cnt idx = (nr', cnt', idx')"
  shows "0 < nr' \<and> nr' \<le> nr \<and> nr' \<le> length cnt' \<and> nr' \<le> length idx' \<and>
    segs_cover cnt' idx' {..<nr'} = segs_cover cnt idx {..<nr} \<and>
    (\<forall>k. Suc k < nr' \<longrightarrow> unat (idx' ! k) + unat (cnt' ! k) < unat (idx' ! Suc k))"
proof -
  obtain i where i: "vec_pack_loop nr 1 0 cnt idx = (i, cnt', idx')" "nr' = Suc i"
    using pack assms(3) by (auto simp: vec_pack_def split: prod.splits)
  have "pack_inv nr 1 0 cnt idx" using assms by (auto simp: pack_inv_def)
  from vec_pack_loop_correct [OF this i(1)]
  have r: "pack_inv nr nr i cnt' idx'" "segs_cover cnt' idx' {..i} = segs_cover cnt idx ({..0} \<union> {1..<nr})" by simp_all
  have "{..0} \<union> {1..<nr} = {..<nr}" using assms(3) by auto
  then show ?thesis using r i(2) by (auto simp: pack_inv_def lessThan_Suc_atMost)
qed

section \<open>Allocation\<close>

text \<open>The allocation loop on fresh arrays of which the first part is already filled.\<close>

abbreviation fresh_bv :: "nat \<Rightarrow> u64 list \<Rightarrow> nat \<Rightarrow> u64 \<Rightarrow> m0_bufvec" where
  "fresh_bv n xs k sz \<equiv>
     \<lparr>ov_vec = \<lparr>v_nr = n, v_count = replicate (length xs) sz @ replicate k 0\<rparr>, ov_buf = xs @ replicate k 0\<rparr>"

lemma fresh_bv_step:
  "(fresh_bv n xs (Suc k) sz)\<lparr>ov_buf := (xs @ replicate (Suc k) 0)[length xs := a],
      ov_vec := \<lparr>v_nr = n, v_count = (replicate (length xs) sz @ replicate (Suc k) 0)[length xs := sz]\<rparr>\<rparr> =
   fresh_bv n (xs @ [a]) k sz"
proof -
  have "(replicate (length xs) sz @ replicate (Suc k) 0)[length xs := sz] = replicate (length (xs @ [a])) sz @ replicate k 0"
    by (simp add: list_update_append replicate_app_Cons_same)
  then show ?thesis by (simp add: list_update_append)
qed

lemma bufvec_alloc_loop_ok:
  assumes "0 \<notin> set as"
  shows "bufvec_alloc_loop (length xs) as sz False addr (fresh_bv n xs (length as) sz) =
    (True, fresh_bv n (xs @ as) 0 sz)"
  using assms
proof (induction as arbitrary: xs)
  case (Cons a as)
  then show ?case
    using Cons.IH [of "xs @ [a]"] fresh_bv_step [where n = n and xs = xs and k = "length as" and sz = sz and a = a] by (simp add: Let_def)
qed simp

lemma bufvec_alloc_loop_fail:
  assumes "as = p @ 0 # q" "0 \<notin> set p"
  shows "\<exists>bv. bufvec_alloc_loop (length xs) as sz False addr (fresh_bv n xs (length as) sz) = (False, bv) \<and>
    v_nr (ov_vec bv) = n \<and> ov_buf bv = xs @ p @ replicate (Suc (length q)) 0"
  using assms
proof (induction p arbitrary: xs as)
  case Nil
  then show ?case by (simp add: Let_def list_update_append)
next
  case (Cons a p)
  then show ?case
    using Cons.IH [of "p @ 0 # q" "xs @ [a]"] fresh_bv_step [where n = n and xs = xs and k = "length (p @ 0 # q)" and sz = sz and a = a]
    by (simp add: Let_def)
qed

lemma extend_loop_ok:
  assumes "0 \<notin> set as" "length cs = length xs"
  shows "extend_loop (length xs) as sz (xs @ replicate (length as) 0) (cs @ replicate (length as) 0) =
    (True, length xs + length as, xs @ as, cs @ replicate (length as) sz)"
  using assms
proof (induction as arbitrary: xs cs)
  case (Cons a as)
  then show ?case
    using Cons.IH [of "cs @ [sz]" "xs @ [a]"] by (simp add: Let_def list_update_append)
qed simp

lemma extend_loop_fail:
  assumes "as = p @ 0 # q" "0 \<notin> set p" "length cs = length xs"
  shows "\<exists>cnt. extend_loop (length xs) as sz (xs @ replicate (length as) 0) (cs @ replicate (length as) 0) =
    (False, length xs + length p, xs @ p @ replicate (Suc (length q)) 0, cnt)"
  using assms
proof (induction p arbitrary: xs cs as)
  case Nil
  then show ?case by (simp add: Let_def list_update_append)
next
  case (Cons a p)
  then show ?case
    using Cons.IH [of "p @ 0 # q" "cs @ [sz]" "xs @ [a]"] by (simp add: Let_def list_update_append)
qed

lemma free_all_append [simp]: "free_all (xs @ ys) = free_all xs @ free_all ys"
  by (simp add: free_all_def)

lemma free_all_nonzero: "0 \<notin> set xs \<Longrightarrow> free_all xs = xs"
  unfolding free_all_def by (rule filter_True) auto

lemma free_all_replicate [simp]: "free_all (replicate n 0) = []"
  by (simp add: free_all_def)

lemma first_failure:
  assumes "f < n" "answers f = 0 \<and> (\<forall>i < f. answers i \<noteq> 0)"
  shows "map answers [0..<n] = map answers [0..<f] @ 0 # map answers [Suc f..<n]" "0 \<notin> set (map answers [0..<f])"
  using assms upt_split_at [OF assms(1)] by (auto simp: image_iff)

section \<open>Properties\<close>

text \<open>
  C16. \<^verbatim>\<open>m0_vec_cursor_move()\<close> implements an abstract position: on a cursor that satisfies its invariant
  the call returns, keeps the invariant and the vector, advances the distance from the start by
  \<open>n\<close> bytes or to the end of the vector, and answers true exactly when the end is reached.
  Empty segments are skipped on the way. The loop and its assertions never fail.
\<close>

theorem vec_cursor_move_refines:
  assumes "m0_vec_cursor_invariant cur"
  shows "\<exists>cur'. m0_vec_cursor_move cur n = Some (cur', vec_total (vc_vec cur) \<le> vec_pos cur + unat n) \<and>
    m0_vec_cursor_invariant cur' \<and> vc_vec cur' = vc_vec cur \<and>
    vec_pos cur' = min (vec_total (vc_vec cur)) (vec_pos cur + unat n)"
  by (rule vc.move_law [OF assms])

definition sample_vec :: m0_vec where
  "sample_vec = \<lparr>v_nr = 4, v_count = [3, 0, 0, 5]\<rparr>"

theorem vec_cursor_move_refines_witness:
  "\<exists>cur'. m0_vec_cursor_move \<lparr>vc_vec = sample_vec, vc_seg = 0, vc_offset = 1\<rparr> 2 = Some (cur', False) \<and>
     m0_vec_cursor_invariant cur' \<and> vec_pos cur' = 3"
proof -
  have "m0_vec_cursor_invariant \<lparr>vc_vec = sample_vec, vc_seg = 0, vc_offset = 1\<rparr>" by code_simp
  from vec_cursor_move_refines [OF this, of 2] show ?thesis
    by (auto simp: sample_vec_def vec_pos_def seg_start_def lessThan_nat_numeral lessThan_Suc)
qed

text \<open>
  C17. Two moves of a cursor are one move by the sum: where the bytes of a walk are split into
  calls makes no difference, neither for the cursor nor for the answer of the last call, as long
  as the sum does not wrap around.
\<close>

theorem vec_cursor_move_additive:
  assumes "m0_vec_cursor_invariant cur" "m0_vec_cursor_move cur a = Some (cur', e)" "unat a + unat b < 2 ^ 64"
  shows "m0_vec_cursor_move cur' b = m0_vec_cursor_move cur (a + b)"
  by (rule vc.move_move [OF assms])

theorem vec_cursor_move_additive_witness:
  "\<exists>cur' e. m0_vec_cursor_move \<lparr>vc_vec = sample_vec, vc_seg = 0, vc_offset = 0\<rparr> 2 = Some (cur', e) \<and>
     m0_vec_cursor_move cur' 3 = m0_vec_cursor_move \<lparr>vc_vec = sample_vec, vc_seg = 0, vc_offset = 0\<rparr> 5"
proof -
  let ?c = "\<lparr>vc_vec = sample_vec, vc_seg = 0, vc_offset = 0\<rparr>"
  have i: "m0_vec_cursor_invariant ?c" by code_simp
  have "m0_vec_cursor_move ?c 2 \<noteq> None" by code_simp
  then obtain cur' e where m: "m0_vec_cursor_move ?c 2 = Some (cur', e)" by auto
  have "unat (2 :: u64) + unat (3 :: u64) < 2 ^ 64" by simp
  from vec_cursor_move_additive [OF i m this] m show ?thesis by simp
qed

text \<open>
  C15. \<^verbatim>\<open>m0_bufvec_copy()\<close> between buffer vectors whose areas do not overlap returns, whatever the
  segmentation of the two vectors: it copies as many bytes as asked for, or as the shorter vector has, it
  reports that number, the destination bytes are then the source bytes in order, and no other byte
  of memory changes.
\<close>

theorem bufvec_copy_exact:
  assumes dst: "v_nr (ov_vec dst) \<noteq> 0" "v_count (ov_vec dst) \<noteq> []" "ov_buf dst \<noteq> []"
    and src: "v_nr (ov_vec src) \<noteq> 0" "v_count (ov_vec src) \<noteq> []" "ov_buf src \<noteq> []"
    and sep: "distinct (bv_addrs dst)" "set (bv_addrs dst) \<inter> set (bv_addrs src) = {}"
    and k: "k = min (unat n) (min (length (bv_addrs dst)) (length (bv_addrs src)))"
  shows "\<exists>m'. m0_bufvec_copy m dst src n = Some (m', of_nat k) \<and>
    map m' (take k (bv_addrs dst)) = map m (take k (bv_addrs src)) \<and>
    (\<forall>a. a \<notin> set (take k (bv_addrs dst)) \<longrightarrow> m' a = m a)"
proof -
  obtain s d where s: "m0_bufvec_cursor_init src = Some s" "bcur_ok s" "bc_bv s = src" "bcur_pos s = 0"
    and d: "m0_bufvec_cursor_init dst = Some d" "bcur_ok d" "bc_bv d = dst" "bcur_pos d = 0"
    using bufvec_cursor_init_correct [OF src] bufvec_cursor_init_correct [OF dst] by blast
  have addrs: "cur_addrs d = bv_addrs dst" "cur_addrs s = bv_addrs src" using s d by (simp_all add: cur_addrs_def)
  let ?m = "copy_bytes m (take k (bv_addrs dst)) (take k (bv_addrs src))"
  have "m0_bufvec_copy m dst src n = Some (?m, of_nat k)"
    using bufvec_cursor_copy_correct [OF d(2) s(2), where n = n and m = m] s(1) d(1) addrs sep k
    by (auto simp: m0_bufvec_copy_def)
  moreover have "map ?m (take k (bv_addrs dst)) = map m (take k (bv_addrs src))"
    using sep(1) k by (intro copy_bytes_map) (simp_all add: distinct_take)
  moreover have "\<forall>a. a \<notin> set (take k (bv_addrs dst)) \<longrightarrow> ?m a = m a"
    using k copy_bytes_frame by simp
  ultimately show ?thesis by blast
qed

theorem bufvec_copy_exact_witness:
  "\<exists>m'. m0_bufvec_copy (\<lambda>a. ucast a) \<lparr>ov_vec = \<lparr>v_nr = 2, v_count = [2, 1]\<rparr>, ov_buf = [100, 200]\<rparr>
          \<lparr>ov_vec = \<lparr>v_nr = 2, v_count = [1, 4]\<rparr>, ov_buf = [10, 20]\<rparr> 7 = Some (m', 3) \<and>
     map m' [100, 101, 200] = [10, 20, 21]"
proof -
  let ?d = "\<lparr>ov_vec = \<lparr>v_nr = 2, v_count = [2, 1 :: u64]\<rparr>, ov_buf = [100, 200]\<rparr>"
  let ?s = "\<lparr>ov_vec = \<lparr>v_nr = 2, v_count = [1, 4 :: u64]\<rparr>, ov_buf = [10, 20]\<rparr>"
  have d: "bv_addrs ?d = [100, 101, 200]" by code_simp
  have s: "bv_addrs ?s = [10, 20, 21, 22, 23]" by code_simp
  show ?thesis
    using bufvec_copy_exact [of ?d ?s 3 7 "\<lambda>a. ucast a"] by (auto simp: d s)
qed

text \<open>
  C18. \<^verbatim>\<open>m0_indexvec_pack()\<close> of an index vector sorted by offset, with no extent past the end of the
  index space, keeps the set of covered indices, leaves a gap between any two consecutive extents,
  so that no two can be merged any more, and returns the number of extents saved.
\<close>

theorem indexvec_pack_normal:
  assumes wf: "v_nr (iv_vec iv) \<le> length (v_count (iv_vec iv))" "v_nr (iv_vec iv) \<le> length (iv_index iv)"
    and pos: "0 < v_nr (iv_vec iv)"
    and nw: "\<forall>k < v_nr (iv_vec iv). unat (iv_index iv ! k) + unat (v_count (iv_vec iv) ! k) < 2 ^ 64"
    and sorted: "\<forall>k l. k \<le> l \<and> l < v_nr (iv_vec iv) \<longrightarrow> iv_index iv ! k \<le> iv_index iv ! l"
    and pack: "m0_indexvec_pack iv = (diff, iv')"
  shows "segs_cover (v_count (iv_vec iv')) (iv_index iv') {..<v_nr (iv_vec iv')} =
           segs_cover (v_count (iv_vec iv)) (iv_index iv) {..<v_nr (iv_vec iv)} \<and>
         (\<forall>k. Suc k < v_nr (iv_vec iv') \<longrightarrow>
            unat (iv_index iv' ! k) + unat (v_count (iv_vec iv') ! k) < unat (iv_index iv' ! Suc k)) \<and>
         0 < v_nr (iv_vec iv') \<and> v_nr (iv_vec iv') + diff = v_nr (iv_vec iv)"
proof -
  obtain nr' cnt' idx' where v: "vec_pack (v_nr (iv_vec iv)) (v_count (iv_vec iv)) (iv_index iv) = (nr', cnt', idx')"
    by (cases "vec_pack (v_nr (iv_vec iv)) (v_count (iv_vec iv)) (iv_index iv)")
  have iv': "iv' = \<lparr>iv_vec = \<lparr>v_nr = nr', v_count = cnt'\<rparr>, iv_index = idx'\<rparr>" "diff = v_nr (iv_vec iv) - nr'"
    using pack v by (simp_all add: m0_indexvec_pack_def)
  show ?thesis using vec_pack_correct [OF wf pos nw sorted v] iv' by simp
qed

theorem indexvec_pack_normal_witness:
  "m0_indexvec_pack \<lparr>iv_vec = \<lparr>v_nr = 3, v_count = [2, 3, 1]\<rparr>, iv_index = [0, 1, 9]\<rparr> =
     (1, \<lparr>iv_vec = \<lparr>v_nr = 2, v_count = [4, 1, 1]\<rparr>, iv_index = [0, 9, 9]\<rparr>) \<and>
   segs_cover [4, 1, 1] [0, 9, 9] {..<2} = segs_cover [2, 3, 1] [0, 1, 9] {..<3}"
proof -
  let ?iv = "\<lparr>iv_vec = \<lparr>v_nr = 3, v_count = [2, 3, 1]\<rparr>, iv_index = [0, 1, 9 :: u64]\<rparr>"
  have p: "m0_indexvec_pack ?iv = (1, \<lparr>iv_vec = \<lparr>v_nr = 2, v_count = [4, 1, 1]\<rparr>, iv_index = [0, 9, 9]\<rparr>)" by code_simp
  have nw: "\<forall>k < v_nr (iv_vec ?iv). unat (iv_index ?iv ! k) + unat (v_count (iv_vec ?iv) ! k) < 2 ^ 64"
  proof (intro allI impI)
    fix k assume "k < v_nr (iv_vec ?iv)"
    then have "k = 0 \<or> k = 1 \<or> k = 2" by auto
    then show "unat (iv_index ?iv ! k) + unat (v_count (iv_vec ?iv) ! k) < 2 ^ 64" by auto
  qed
  have so: "\<forall>k l. k \<le> l \<and> l < v_nr (iv_vec ?iv) \<longrightarrow> iv_index ?iv ! k \<le> iv_index ?iv ! l"
    by (auto simp: less_Suc_eq numeral_3_eq_3 le_Suc_eq)
  show ?thesis using indexvec_pack_normal [OF _ _ _ nw so p] p by simp
qed

text \<open>
  C19. \<^verbatim>\<open>m0_bufvec_alloc()\<close> leaks nothing: when every allocation succeeds it returns 0 and a vector of
  \<open>num_segs\<close> segments of \<open>seg_size\<close> bytes at the addresses the allocator gave; when the allocation
  of some segment fails it returns \<^verbatim>\<open>-ENOMEM\<close>, frees exactly the segments it had obtained and
  leaves a zeroed vector.
\<close>

theorem bufvec_alloc_no_leak:
  assumes "0 < num_segs" "0 < seg_size"
  shows "((\<forall>i < num_segs. answers i \<noteq> 0) \<longrightarrow>
      m0_bufvec_alloc True True answers num_segs seg_size =
        Some (0, [], \<lparr>ov_vec = \<lparr>v_nr = num_segs, v_count = replicate num_segs seg_size\<rparr>,
                       ov_buf = map answers [0..<num_segs]\<rparr>)) \<and>
    (\<forall>f < num_segs. answers f = 0 \<and> (\<forall>i < f. answers i \<noteq> 0) \<longrightarrow>
      m0_bufvec_alloc True True answers num_segs seg_size =
        Some (- ENOMEM, map answers [0..<f], bufvec_zero))"
proof (intro conjI impI allI)
  let ?as = "map answers [0..<num_segs]"
  note defs = m0_bufvec_alloc_def m0__bufvec_alloc_def bufvec_alloc_def Let_def bind_M0_ASSERT_True
  assume "\<forall>i < num_segs. answers i \<noteq> 0"
  then have "0 \<notin> set ?as" by force
  from bufvec_alloc_loop_ok [OF this, of "[]" seg_size 0 num_segs]
  show "m0_bufvec_alloc True True answers num_segs seg_size =
      Some (0, [], \<lparr>ov_vec = \<lparr>v_nr = num_segs, v_count = replicate num_segs seg_size\<rparr>, ov_buf = ?as\<rparr>)"
    using assms by (simp add: defs)
next
  let ?as = "map answers [0..<num_segs]"
  fix f assume f: "f < num_segs" "answers f = 0 \<and> (\<forall>i < f. answers i \<noteq> 0)"
  note as = first_failure(1) [OF f] and nz = first_failure(2) [OF f]
  obtain bv where bv: "bufvec_alloc_loop 0 ?as seg_size False 0 (fresh_bv num_segs [] num_segs seg_size) = (False, bv)"
    "v_nr (ov_vec bv) = num_segs" "ov_buf bv = map answers [0..<f] @ replicate (Suc (num_segs - Suc f)) 0"
    using bufvec_alloc_loop_fail [OF as nz, of "[]" seg_size 0 num_segs] by auto
  have "free_all (take num_segs (ov_buf bv)) = map answers [0..<f]"
    using bv(3) f(1) free_all_nonzero [OF nz] free_all_replicate by (simp add: take_Cons' del: replicate_Suc)
  moreover have "ov_buf bv \<noteq> []" using bv(3) by simp
  ultimately show "m0_bufvec_alloc True True answers num_segs seg_size = Some (- ENOMEM, map answers [0..<f], bufvec_zero)"
    using assms bv(1,2)
    by (simp add: m0_bufvec_alloc_def m0__bufvec_alloc_def bufvec_alloc_def Let_def bind_M0_ASSERT_True
        m0_bufvec_free_def m0_bufvec__free_def)
qed

theorem bufvec_alloc_no_leak_witness:
  "m0_bufvec_alloc True True (\<lambda>i. if i = 2 then 0 else 4096 * of_nat (Suc i)) 4 512 =
     Some (- ENOMEM, [4096, 8192], bufvec_zero)"
proof -
  let ?a = "\<lambda>i. if i = 2 then 0 else 4096 * of_nat (Suc i) :: u64"
  have "?a 2 = 0 \<and> (\<forall>i < 2. ?a i \<noteq> 0)" by (auto simp: less_2_cases_iff)
  with bufvec_alloc_no_leak [of 4 512 ?a]
  have "m0_bufvec_alloc True True ?a 4 512 = Some (- ENOMEM, map ?a [0..<2], bufvec_zero)" by auto
  then show ?thesis by (simp add: upt_rec)
qed

text \<open>
  C20. \<^verbatim>\<open>m0_bufvec_extend()\<close> of a vector with non-null buffers, as long as there are less than \<open>2 ^ 31\<close> segments
  in the end: when every allocation succeeds the vector gets \<open>num_segs\<close> more segments of the size
  of its first one, after its own. When one of the two new arrays cannot be allocated it returns
  \<^verbatim>\<open>-ENOMEM\<close>, frees no buffer and leaves the vector as it was. When the allocation of a new
  segment fails it returns \<^verbatim>\<open>-ENOMEM\<close> and leaves the vector as it was, but the exit path frees the
  vector's own buffers along with the new ones: the vector is left with dangling pointers.
\<close>

theorem bufvec_extend_result:
  assumes bv: "v_nr (ov_vec bv) = length (ov_buf bv)" "length (v_count (ov_vec bv)) = length (ov_buf bv)"
    "ov_buf bv \<noteq> []" "0 \<notin> set (ov_buf bv)" and n: "0 < num_segs" "length (ov_buf bv) + num_segs < 2 ^ 31"
  shows "((\<forall>i < num_segs. answers i \<noteq> 0) \<longrightarrow>
      m0_bufvec_extend True True answers bv num_segs =
        Some (0, [], \<lparr>ov_vec = \<lparr>v_nr = length (ov_buf bv) + num_segs,
                               v_count = v_count (ov_vec bv) @ replicate num_segs (v_count (ov_vec bv) ! 0)\<rparr>,
                      ov_buf = ov_buf bv @ map answers [0..<num_segs]\<rparr>)) \<and>
    (\<forall>cnt_ok buf_ok. \<not> cnt_ok \<or> \<not> buf_ok \<longrightarrow>
      m0_bufvec_extend cnt_ok buf_ok answers bv num_segs = Some (- ENOMEM, [], bv)) \<and>
    (\<forall>f < num_segs. answers f = 0 \<and> (\<forall>i < f. answers i \<noteq> 0) \<longrightarrow>
      m0_bufvec_extend True True answers bv num_segs =
        Some (- ENOMEM, rev (ov_buf bv @ map answers [0..<f]), bv))"
proof (intro conjI impI allI)
  let ?as = "map answers [0..<num_segs]"
  have w: "wrap_u32 (length (ov_buf bv) + num_segs) = length (ov_buf bv) + num_segs"
    using n(2) by (intro wrap_u32_id) simp
  note eval = m0_bufvec_extend_def Let_def bind_M0_ASSERT_True w
  show "m0_bufvec_extend cnt_ok buf_ok answers bv num_segs = Some (- ENOMEM, [], bv)"
    if "\<not> cnt_ok \<or> \<not> buf_ok" for cnt_ok buf_ok using that assms by (auto simp: eval)
  show "m0_bufvec_extend True True answers bv num_segs =
      Some (0, [], \<lparr>ov_vec = \<lparr>v_nr = length (ov_buf bv) + num_segs,
                             v_count = v_count (ov_vec bv) @ replicate num_segs (v_count (ov_vec bv) ! 0)\<rparr>,
                    ov_buf = ov_buf bv @ ?as\<rparr>)" if "\<forall>i < num_segs. answers i \<noteq> 0"
  proof -
    have "0 \<notin> set ?as" using that by force
    from extend_loop_ok [OF this bv(2), of "v_count (ov_vec bv) ! 0"] show ?thesis using assms by (simp add: eval)
  qed
  fix f assume f: "f < num_segs" "answers f = 0 \<and> (\<forall>i < f. answers i \<noteq> 0)"
  note as = first_failure(1) [OF f] and nz = first_failure(2) [OF f]
  have "free_all (rev (ov_buf bv @ map answers [0..<f])) = rev (ov_buf bv @ map answers [0..<f])"
    using nz bv(4) by (intro free_all_nonzero) simp
  then show "m0_bufvec_extend True True answers bv num_segs = Some (- ENOMEM, rev (ov_buf bv @ map answers [0..<f]), bv)"
    using extend_loop_fail [OF as nz bv(2), of "v_count (ov_vec bv) ! 0"] assms
    by (auto simp: eval simp del: rev_append)
qed

theorem bufvec_extend_result_witness:
  "m0_bufvec_extend True True (\<lambda>i. 0) \<lparr>ov_vec = \<lparr>v_nr = 1, v_count = [512]\<rparr>, ov_buf = [4096]\<rparr> 1 =
     Some (- ENOMEM, [4096], \<lparr>ov_vec = \<lparr>v_nr = 1, v_count = [512]\<rparr>, ov_buf = [4096]\<rparr>)"
  using bufvec_extend_result [of "\<lparr>ov_vec = \<lparr>v_nr = 1, v_count = [512]\<rparr>, ov_buf = [4096]\<rparr>" 1 "\<lambda>i. 0"] by simp

end
