(* ===== verification/Motr_LongLock.thy ===== *)
theory Motr_LongLock
  imports Motr_Prelude
begin

text \<open>
  The reader-writer lock of request handlers, \<^verbatim>\<open>src/fop/fom_long_lock.c\<close>. Owners and waiters are
  lists of lock links in queue order. A link is known by \<open>lll_id\<close>, which stands for its address, a
  \<^verbatim>\<open>struct m0_fom\<close> by a number; the foms, of which the lock reads and writes the transition
  counters and the phase, are a map, and the foms handed to \<^verbatim>\<open>m0_fom_wakeup()\<close> a list in the
  order of the calls. The current time is an argument.

  Every entry point runs under the mutex of the lock, so an operation is one step. Magic numbers,
  the posting of telemetry records and the check of the phase transition by the fom's own state
  machine are not modelled.
\<close>

section \<open>Model\<close>

datatype m0_long_lock_state = M0_LONG_LOCK_UNLOCKED | M0_LONG_LOCK_RD_LOCKED | M0_LONG_LOCK_WR_LOCKED

datatype m0_long_lock_type = M0_LONG_LOCK_READER | M0_LONG_LOCK_WRITER

record m0_long_lock_addb2 =
  la_taken :: u64
  la_waiting :: bool
  la_wait :: u64

record m0_long_lock_link =
  lll_id :: nat
  lll_fom :: "nat option"
  lll_lock_type :: m0_long_lock_type
  lll_addb2 :: "m0_long_lock_addb2 option"

record m0_long_lock =
  l_owners :: "m0_long_lock_link list"
  l_waiters :: "m0_long_lock_link list"
  l_state :: m0_long_lock_state

record fom =
  fo_transitions :: u32
  fo_transitions_saved :: u32
  fo_phase :: int
  fo_state_epoch :: u64

record ll_world =
  ll_lock :: m0_long_lock
  ll_foms :: "nat \<Rightarrow> fom"
  ll_woken :: "nat list"

definition m0_long_lock_link_init ::
  "m0_long_lock_link \<Rightarrow> nat option \<Rightarrow> m0_long_lock_addb2 option \<Rightarrow> m0_long_lock_link option"
where
  "m0_long_lock_link_init link f addb2 = do {
     M0_ASSERT (f \<noteq> None);
     Some (link\<lparr>lll_fom := f, lll_addb2 := addb2\<rparr>)
   }"

definition tlist_contains :: "m0_long_lock_link list \<Rightarrow> m0_long_lock_link \<Rightarrow> bool" where
  "tlist_contains ls link \<longleftrightarrow> lll_id link \<in> set (map lll_id ls)"

definition tlink_is_in :: "m0_long_lock \<Rightarrow> m0_long_lock_link \<Rightarrow> bool" where
  "tlink_is_in lk link \<longleftrightarrow> tlist_contains (l_owners lk) link \<or> tlist_contains (l_waiters lk) link"

definition tlist_del :: "m0_long_lock_link list \<Rightarrow> m0_long_lock_link \<Rightarrow> m0_long_lock_link list" where
  "tlist_del ls link = filter (\<lambda>l. lll_id l \<noteq> lll_id link) ls"

definition m0_long_lock_link_fini :: "m0_long_lock \<Rightarrow> m0_long_lock_link \<Rightarrow> m0_long_lock_link option" where
  "m0_long_lock_link_fini lk link = do {
     M0_ASSERT (\<not> tlink_is_in lk link);
     Some (link\<lparr>lll_fom := None, lll_addb2 := None\<rparr>)
   }"

definition ll_addb2_reset :: "m0_long_lock_link \<Rightarrow> m0_long_lock_link" where
  "ll_addb2_reset link =
     link\<lparr>lll_addb2 := map_option (\<lambda>_. \<lparr>la_taken = 0, la_waiting = False, la_wait = 0\<rparr>) (lll_addb2 link)\<rparr>"

definition ll_addb2_wait_start :: "m0_long_lock_link \<Rightarrow> m0_long_lock_link" where
  "ll_addb2_wait_start link = link\<lparr>lll_addb2 := map_option (\<lambda>a. a\<lparr>la_waiting := True\<rparr>) (lll_addb2 link)\<rparr>"

definition ll_addb2_wait_finish :: "u64 \<Rightarrow> u64 \<Rightarrow> m0_long_lock_link \<Rightarrow> m0_long_lock_link" where
  "ll_addb2_wait_finish now epoch link =
     link\<lparr>lll_addb2 := map_option (\<lambda>a. a\<lparr>la_taken := now, la_wait := if la_waiting a then now - epoch else 0\<rparr>)
            (lll_addb2 link)\<rparr>"

definition link_invariant :: "m0_long_lock_link \<Rightarrow> bool" where
  "link_invariant link \<longleftrightarrow> lll_fom link \<noteq> None"

definition lock_invariant :: "m0_long_lock \<Rightarrow> bool" where
  "lock_invariant lk \<longleftrightarrow>
     list_all link_invariant (l_owners lk) \<and>
     list_all link_invariant (l_waiters lk) \<and>
     (l_state lk = M0_LONG_LOCK_UNLOCKED) = (l_owners lk = [] \<and> l_waiters lk = []) \<and>
     (l_state lk = M0_LONG_LOCK_RD_LOCKED) =
       (l_owners lk \<noteq> [] \<and> list_all (\<lambda>l. lll_lock_type l = M0_LONG_LOCK_READER) (l_owners lk)) \<and>
     (l_state lk = M0_LONG_LOCK_WR_LOCKED \<longrightarrow> length (l_owners lk) = 1) \<and>
     (l_waiters lk \<noteq> [] \<longrightarrow> l_owners lk \<noteq> []) \<and>
     (l_owners lk \<noteq> [] \<and> l_waiters lk \<noteq> [] \<longrightarrow>
        (lll_lock_type (last (l_owners lk)) = M0_LONG_LOCK_READER \<longrightarrow>
         lll_lock_type (hd (l_waiters lk)) = M0_LONG_LOCK_WRITER))"

definition can_lock :: "m0_long_lock \<Rightarrow> m0_long_lock_link \<Rightarrow> bool" where
  "can_lock lk link \<longleftrightarrow>
     (if lll_lock_type link = M0_LONG_LOCK_READER then l_state lk \<noteq> M0_LONG_LOCK_WR_LOCKED
      else l_state lk = M0_LONG_LOCK_UNLOCKED)"

definition grant :: "u64 \<Rightarrow> (nat \<Rightarrow> fom) \<Rightarrow> m0_long_lock \<Rightarrow> m0_long_lock_link \<Rightarrow> m0_long_lock" where
  "grant now foms lk link =
     (let lk = lk\<lparr>l_state := if lll_lock_type link = M0_LONG_LOCK_READER
                             then M0_LONG_LOCK_RD_LOCKED else M0_LONG_LOCK_WR_LOCKED\<rparr>;
          link = ll_addb2_wait_finish now (fo_state_epoch (foms (the (lll_fom link)))) link
      in lk\<lparr>l_waiters := tlist_del (l_waiters lk) link,
            l_owners := tlist_del (l_owners lk) link @ [link]\<rparr>)"

definition lock :: "u64 \<Rightarrow> ll_world \<Rightarrow> m0_long_lock_link \<Rightarrow> int \<Rightarrow> (ll_world \<times> bool) option" where
  "lock now w link next_phase = do {
     let lk = ll_lock w;
     M0_ASSERT (lock_invariant lk);
     M0_ASSERT (\<not> tlink_is_in lk link);
     M0_ASSERT (lll_fom link \<noteq> None);
     (let f = the (lll_fom link);
          got_lock = (l_waiters lk = [] \<and> can_lock lk link);
          link = ll_addb2_reset link;
          w = (if got_lock then w\<lparr>ll_lock := grant now (ll_foms w) lk link\<rparr>
               else w\<lparr>ll_foms := (ll_foms w)(f := (ll_foms w f)\<lparr>fo_transitions_saved := fo_transitions (ll_foms w f)\<rparr>),
                      ll_lock := lk\<lparr>l_waiters := l_waiters lk @ [ll_addb2_wait_start link]\<rparr>\<rparr>);
          w = w\<lparr>ll_foms := (ll_foms w)(f := (ll_foms w f)\<lparr>fo_phase := next_phase\<rparr>)\<rparr>
      in do {
        M0_ASSERT (lock_invariant (ll_lock w));
        Some (w, got_lock)
      })
   }"

definition m0_long_write_lock :: "u64 \<Rightarrow> ll_world \<Rightarrow> m0_long_lock_link \<Rightarrow> int \<Rightarrow> (ll_world \<times> bool) option" where
  "m0_long_write_lock now w link next_phase = lock now w (link\<lparr>lll_lock_type := M0_LONG_LOCK_WRITER\<rparr>) next_phase"

definition m0_long_read_lock :: "u64 \<Rightarrow> ll_world \<Rightarrow> m0_long_lock_link \<Rightarrow> int \<Rightarrow> (ll_world \<times> bool) option" where
  "m0_long_read_lock now w link next_phase = lock now w (link\<lparr>lll_lock_type := M0_LONG_LOCK_READER\<rparr>) next_phase"

definition m0_long_lock_acquire :: "u64 \<Rightarrow> ll_world \<Rightarrow> bool \<Rightarrow> m0_long_lock_link \<Rightarrow> int \<Rightarrow> (ll_world \<times> bool) option" where
  "m0_long_lock_acquire now w wr link next_phase =
     (if wr then m0_long_write_lock now w link next_phase else m0_long_read_lock now w link next_phase)"

text \<open>
  The wake-up loop of \<^verbatim>\<open>unlock()\<close>: a link leaves the waiters each time around.
\<close>

function unlock_loop :: "u64 \<Rightarrow> ll_world \<Rightarrow> ll_world option" where
  "unlock_loop now w =
     (case l_waiters (ll_lock w) of
        [] \<Rightarrow> Some w
      | l # ls \<Rightarrow>
          (if can_lock (ll_lock w) l
           then (let f = the (lll_fom l) in do {
               M0_ASSERT (fo_transitions (ll_foms w f) - fo_transitions_saved (ll_foms w f) \<in> {1, 0});
               unlock_loop now (w\<lparr>ll_lock := grant now (ll_foms w) (ll_lock w) l, ll_woken := ll_woken w @ [f]\<rparr>)
             })
           else Some w))"
  by pat_completeness auto
termination
proof (relation "measure (\<lambda>(now, w). length (l_waiters (ll_lock w)))", goal_cases)
  case (2 now w l ls f u)
  have "length (filter (\<lambda>k. lll_id k \<noteq> lll_id l) ls) \<le> length ls" by simp
  then show ?case using 2 by (simp add: le_imp_less_Suc grant_def Let_def tlist_del_def ll_addb2_wait_finish_def)
qed simp

declare unlock_loop.simps [simp del]

text \<open>
  \<open>group_locked\<close> says whether the caller holds the state machine group of the fom. The link
  passed in is the one on the list: its type is the type it was queued with.
\<close>

definition unlock :: "u64 \<Rightarrow> bool \<Rightarrow> ll_world \<Rightarrow> m0_long_lock_link \<Rightarrow> bool \<Rightarrow> ll_world option" where
  "unlock now group_locked w link check_ownership =
     (let lk = ll_lock w
      in if check_ownership \<and> \<not> tlist_contains (l_owners lk) link then Some w
         else do {
           M0_ASSERT (lock_invariant lk);
           M0_ASSERT (tlist_contains (l_owners lk) link);
           M0_ASSERT group_locked;
           (let owners = tlist_del (l_owners lk) link;
                lk = lk\<lparr>l_owners := owners,
                        l_state := if lll_lock_type link = M0_LONG_LOCK_WRITER \<or> owners = []
                                   then M0_LONG_LOCK_UNLOCKED else M0_LONG_LOCK_RD_LOCKED\<rparr>
            in do {
              w \<leftarrow> unlock_loop now (w\<lparr>ll_lock := lk\<rparr>);
              M0_ASSERT (lock_invariant (ll_lock w));
              Some w
            })
         })"

definition m0_long_write_unlock :: "u64 \<Rightarrow> bool \<Rightarrow> ll_world \<Rightarrow> m0_long_lock_link \<Rightarrow> ll_world option" where
  "m0_long_write_unlock now group_locked w link = unlock now group_locked w link False"

definition m0_long_read_unlock :: "u64 \<Rightarrow> bool \<Rightarrow> ll_world \<Rightarrow> m0_long_lock_link \<Rightarrow> ll_world option" where
  "m0_long_read_unlock now group_locked w link = unlock now group_locked w link False"

definition m0_long_unlock :: "u64 \<Rightarrow> bool \<Rightarrow> ll_world \<Rightarrow> m0_long_lock_link \<Rightarrow> ll_world option" where
  "m0_long_unlock now group_locked w link = unlock now group_locked w link True"

definition m0_long_is_read_locked :: "m0_long_lock \<Rightarrow> nat \<Rightarrow> bool option" where
  "m0_long_is_read_locked lk f = do {
     M0_ASSERT (lock_invariant lk);
     Some (l_state lk = M0_LONG_LOCK_RD_LOCKED \<and> list_ex (\<lambda>l. lll_fom l = Some f) (l_owners lk))
   }"

definition m0_long_is_write_locked :: "m0_long_lock \<Rightarrow> nat \<Rightarrow> bool option" where
  "m0_long_is_write_locked lk f = do {
     M0_ASSERT (lock_invariant lk);
     Some (l_state lk = M0_LONG_LOCK_WR_LOCKED \<and> lll_fom (hd (l_owners lk)) = Some f)
   }"

definition m0_long_lock_init :: m0_long_lock where
  "m0_long_lock_init = \<lparr>l_owners = [], l_waiters = [], l_state = M0_LONG_LOCK_UNLOCKED\<rparr>"

text \<open>Finalising a list asserts that it is empty.\<close>

definition m0_long_lock_fini :: "m0_long_lock \<Rightarrow> unit option" where
  "m0_long_lock_fini lk = do {
     M0_ASSERT (l_state lk = M0_LONG_LOCK_UNLOCKED);
     M0_ASSERT (l_waiters lk = []);
     M0_ASSERT (l_owners lk = []);
     Some ()
   }"

section \<open>The invariant in terms of the owners\<close>

definition all_readers :: "m0_long_lock_link list \<Rightarrow> bool" where
  "all_readers ls \<longleftrightarrow> list_all (\<lambda>l. lll_lock_type l = M0_LONG_LOCK_READER) ls"

text \<open>The state field says who owns the lock, and a writer is the only owner.\<close>

definition owners_ok :: "m0_long_lock \<Rightarrow> bool" where
  "owners_ok lk \<longleftrightarrow>
     l_state lk = (if l_owners lk = [] then M0_LONG_LOCK_UNLOCKED
                   else if all_readers (l_owners lk) then M0_LONG_LOCK_RD_LOCKED
                   else M0_LONG_LOCK_WR_LOCKED) \<and>
     (\<not> all_readers (l_owners lk) \<longrightarrow> length (l_owners lk) = 1)"

definition links_ok :: "m0_long_lock \<Rightarrow> bool" where
  "links_ok lk \<longleftrightarrow> list_all link_invariant (l_owners lk) \<and> list_all link_invariant (l_waiters lk)"

text \<open>The first waiter is one that cannot be granted the lock now.\<close>

definition head_blocked :: "m0_long_lock \<Rightarrow> bool" where
  "head_blocked lk \<longleftrightarrow> (l_waiters lk \<noteq> [] \<longrightarrow> \<not> can_lock lk (hd (l_waiters lk)))"

lemma not_reader_iff: "lll_lock_type l \<noteq> M0_LONG_LOCK_READER \<longleftrightarrow> lll_lock_type l = M0_LONG_LOCK_WRITER"
  by (cases "lll_lock_type l") auto

lemma all_readers_last: "all_readers ls \<Longrightarrow> ls \<noteq> [] \<Longrightarrow> lll_lock_type (last ls) = M0_LONG_LOCK_READER"
  by (simp add: all_readers_def list_all_iff)

lemma lock_invariant_iff: "lock_invariant lk \<longleftrightarrow> links_ok lk \<and> owners_ok lk \<and> head_blocked lk"
proof -
  let ?O = "l_owners lk" and ?W = "l_waiters lk"
  consider "?O = []" | "?O \<noteq> []" "all_readers ?O" | "?O \<noteq> []" "\<not> all_readers ?O" by blast
  then show ?thesis
  proof cases
    case 1
    then show ?thesis
      by (cases "l_state lk"; cases ?W)
        (auto simp: lock_invariant_def links_ok_def owners_ok_def head_blocked_def can_lock_def all_readers_def)
  next
    case 2
    then show ?thesis
      using all_readers_last [OF 2(2,1)]
      by (cases "l_state lk") (auto simp: lock_invariant_def links_ok_def owners_ok_def head_blocked_def
          can_lock_def all_readers_def not_reader_iff split: if_splits)
  next
    case 3
    have "length ?O = 1 \<Longrightarrow> lll_lock_type (last ?O) = M0_LONG_LOCK_WRITER"
      using 3(2) by (auto simp: all_readers_def length_Suc_conv not_reader_iff)
    then show ?thesis
      using 3 by (cases "l_state lk") (auto simp: lock_invariant_def links_ok_def owners_ok_def head_blocked_def
          can_lock_def all_readers_def split: if_splits)
  qed
qed

definition ids :: "m0_long_lock \<Rightarrow> nat list" where
  "ids lk = map lll_id (l_owners lk) @ map lll_id (l_waiters lk)"

text \<open>
  A fom that waits has not run since it was queued, or has only finished the transition in which
  it asked for the lock.
\<close>

definition quiet :: "ll_world \<Rightarrow> bool" where
  "quiet w \<longleftrightarrow> list_all (\<lambda>l. let f = ll_foms w (the (lll_fom l))
       in fo_transitions f - fo_transitions_saved f \<in> {1, 0}) (l_waiters (ll_lock w))"

definition ll_ok :: "ll_world \<Rightarrow> bool" where
  "ll_ok w \<longleftrightarrow> lock_invariant (ll_lock w) \<and> distinct (ids (ll_lock w)) \<and> quiet w"

lemma tlist_del_notin: "lll_id link \<notin> set (map lll_id ls) \<Longrightarrow> tlist_del ls link = ls"
  unfolding tlist_del_def filter_id_conv by (metis image_eqI list.set_map)

lemma finish_simps [simp]:
  "lll_id (ll_addb2_wait_finish now e l) = lll_id l" "lll_fom (ll_addb2_wait_finish now e l) = lll_fom l"
  "lll_lock_type (ll_addb2_wait_finish now e l) = lll_lock_type l"
  "lll_id (ll_addb2_wait_start l) = lll_id l" "lll_fom (ll_addb2_wait_start l) = lll_fom l"
  "lll_lock_type (ll_addb2_wait_start l) = lll_lock_type l"
  "lll_id (ll_addb2_reset l) = lll_id l" "lll_fom (ll_addb2_reset l) = lll_fom l"
  "lll_lock_type (ll_addb2_reset l) = lll_lock_type l"
  by (simp_all add: ll_addb2_wait_finish_def ll_addb2_wait_start_def ll_addb2_reset_def)

text \<open>Granting the lock to the first waiter moves it to the end of the owners.\<close>

lemma grant_head:
  fixes now :: u64 and foms :: "nat \<Rightarrow> fom"
  assumes "l_waiters lk = l # ls" "distinct (ids lk)" "owners_ok lk" "can_lock lk l"
  defines "lk' \<equiv> grant now foms lk l"
  shows "l_owners lk' = l_owners lk @ [ll_addb2_wait_finish now (fo_state_epoch (foms (the (lll_fom l)))) l]"
    "l_waiters lk' = ls" "owners_ok lk'" "ids lk' = ids lk"
proof -
  let ?l = "ll_addb2_wait_finish now (fo_state_epoch (foms (the (lll_fom l)))) l"
  have "lll_id ?l \<notin> set (map lll_id (l_owners lk))" "lll_id ?l \<notin> set (map lll_id ls)"
    using assms(1,2) by (auto simp: ids_def)
  then have del: "tlist_del (l_owners lk) ?l = l_owners lk" "tlist_del (l # ls) ?l = ls"
    using tlist_del_notin by (simp_all add: tlist_del_def)
  show o: "l_owners lk' = l_owners lk @ [?l]" and w: "l_waiters lk' = ls"
    using del assms(1) by (simp_all add: lk'_def grant_def Let_def)
  have s: "l_state lk' = (if lll_lock_type l = M0_LONG_LOCK_READER then M0_LONG_LOCK_RD_LOCKED else M0_LONG_LOCK_WR_LOCKED)"
    by (simp add: lk'_def grant_def Let_def)
  show "ids lk' = ids lk" using o w assms(1) by (simp add: ids_def)
  show "owners_ok lk'"
    using assms(3,4) o s
    by (auto simp: owners_ok_def can_lock_def all_readers_def not_reader_iff split: if_splits)
qed

text \<open>The links granted by the wake-up loop, as they were queued.\<close>

lemma unlock_loop_correct:
  assumes "owners_ok (ll_lock w)" "links_ok (ll_lock w)" "distinct (ids (ll_lock w))" "quiet w"
  shows "\<exists>w' granted. unlock_loop now w = Some w' \<and>
    l_waiters (ll_lock w) = granted @ l_waiters (ll_lock w') \<and>
    map lll_id (l_owners (ll_lock w')) = map lll_id (l_owners (ll_lock w) @ granted) \<and>
    (l_owners (ll_lock w) = [] \<and> l_waiters (ll_lock w) \<noteq> [] \<longrightarrow> granted \<noteq> []) \<and>
    ll_woken w' = ll_woken w @ map (\<lambda>l. the (lll_fom l)) granted \<and> ll_foms w' = ll_foms w \<and>
    lock_invariant (ll_lock w') \<and> ids (ll_lock w') = ids (ll_lock w) \<and> quiet w'"
  using assms
proof (induction now w rule: unlock_loop.induct)
  case (1 now w)
  let ?lk = "ll_lock w"
  show ?case
  proof (cases "l_waiters ?lk = [] \<or> \<not> can_lock ?lk (hd (l_waiters ?lk))")
    case True
    have "unlock_loop now w = Some w"
      using True by (subst unlock_loop.simps) (auto split: list.splits)
    moreover have "lock_invariant ?lk" using True 1(2,3) by (auto simp: lock_invariant_iff head_blocked_def)
    moreover have "l_owners ?lk \<noteq> []" if "l_waiters ?lk \<noteq> []"
      using that True 1(2) by (auto simp: owners_ok_def can_lock_def all_readers_def split: if_splits)
    ultimately show ?thesis using 1(5) by (intro exI [of _ w] exI [of _ "[]"]) auto
  next
    case False
    then obtain l ls where l: "l_waiters ?lk = l # ls" "can_lock ?lk l" by (cases "l_waiters ?lk") auto
    let ?f = "the (lll_fom l)"
    let ?w = "w\<lparr>ll_lock := grant now (ll_foms w) ?lk l, ll_woken := ll_woken w @ [?f]\<rparr>"
    have g: "l_waiters (grant now (ll_foms w) ?lk l) = ls" "owners_ok (grant now (ll_foms w) ?lk l)"
      "ids (grant now (ll_foms w) ?lk l) = ids ?lk"
      "map lll_id (l_owners (grant now (ll_foms w) ?lk l)) = map lll_id (l_owners ?lk @ [l])"
      using grant_head [OF l(1) 1(4) 1(2) l(2)] by simp_all
    have lo: "links_ok (grant now (ll_foms w) ?lk l)"
      using grant_head(1,2) [OF l(1) 1(4) 1(2) l(2)] 1(3) l(1) by (auto simp: links_ok_def link_invariant_def)
    have q: "fo_transitions (ll_foms w ?f) - fo_transitions_saved (ll_foms w ?f) \<in> {1, 0}" "quiet ?w"
      using 1(5) l(1) g(1) by (auto simp: quiet_def Let_def)
    have "\<exists>w' granted. unlock_loop now ?w = Some w' \<and>
      l_waiters (ll_lock ?w) = granted @ l_waiters (ll_lock w') \<and>
      map lll_id (l_owners (ll_lock w')) = map lll_id (l_owners (ll_lock ?w) @ granted) \<and>
      (l_owners (ll_lock ?w) = [] \<and> l_waiters (ll_lock ?w) \<noteq> [] \<longrightarrow> granted \<noteq> []) \<and>
      ll_woken w' = ll_woken ?w @ map (\<lambda>l. the (lll_fom l)) granted \<and> ll_foms w' = ll_foms ?w \<and>
      lock_invariant (ll_lock w') \<and> ids (ll_lock w') = ids (ll_lock ?w) \<and> quiet w'"
      by (rule 1(1) [OF l refl, of "()"]) (use q g lo 1(4) in simp_all)
    then obtain w' granted where IH: "unlock_loop now ?w = Some w'" "ls = granted @ l_waiters (ll_lock w')"
      "map lll_id (l_owners (ll_lock w')) = map lll_id (l_owners ?lk @ [l]) @ map lll_id granted"
      "ll_woken w' = ll_woken w @ ?f # map (\<lambda>l. the (lll_fom l)) granted" "ll_foms w' = ll_foms w"
      "lock_invariant (ll_lock w')" "ids (ll_lock w') = ids ?lk" "quiet w'"
      using g by auto
    have "unlock_loop now w = Some w'"
      using IH(1) l q(1) by (subst unlock_loop.simps) (simp add: Let_def)
    then show ?thesis using IH l(1) by (intro exI [of _ w'] exI [of _ "l # granted"]) simp
  qed
qed

lemma owners_after_del:
  assumes "owners_ok lk" "link \<in> set (l_owners lk)" "distinct (map lll_id (l_owners lk))"
  defines "owners \<equiv> tlist_del (l_owners lk) link"
  shows "owners_ok (lk\<lparr>l_owners := owners,
            l_state := if lll_lock_type link = M0_LONG_LOCK_WRITER \<or> owners = []
                       then M0_LONG_LOCK_UNLOCKED else M0_LONG_LOCK_RD_LOCKED\<rparr>)"
proof (cases "lll_lock_type link = M0_LONG_LOCK_WRITER")
  case True
  then have "length (l_owners lk) = 1" using assms(1,2) by (auto simp: owners_ok_def all_readers_def list_all_iff)
  then have "l_owners lk = [link]" using assms(2) by (cases "l_owners lk") auto
  then have "owners = []" by (simp add: owners_def tlist_del_def)
  then show ?thesis by (simp add: owners_ok_def all_readers_def)
next
  case False
  then have "all_readers (l_owners lk)"
    using assms(1,2) by (cases "l_owners lk") (auto simp: owners_ok_def all_readers_def not_reader_iff [symmetric])
  then have "all_readers owners" by (auto simp: owners_def tlist_del_def all_readers_def list_all_iff)
  then show ?thesis using False by (simp add: owners_ok_def)
qed

text \<open>
  Releasing the lock by one of its owners: the call returns, the waiters it wakes are a prefix of
  the queue, and what is left of the queue cannot be served yet.
\<close>

lemma unlock_correct:
  assumes ok: "ll_ok w" and link: "link \<in> set (l_owners (ll_lock w))"
  shows "\<exists>w' granted. unlock now True w link chk = Some w' \<and> ll_ok w' \<and>
    l_waiters (ll_lock w) = granted @ l_waiters (ll_lock w') \<and>
    map lll_id (l_owners (ll_lock w')) =
      map lll_id (tlist_del (l_owners (ll_lock w)) link @ granted) \<and>
    (tlist_del (l_owners (ll_lock w)) link = [] \<and> l_waiters (ll_lock w) \<noteq> [] \<longrightarrow> granted \<noteq> []) \<and>
    ll_woken w' = ll_woken w @ map (\<lambda>l. the (lll_fom l)) granted \<and> ll_foms w' = ll_foms w"
proof -
  let ?lk = "ll_lock w" and ?owners = "tlist_del (l_owners (ll_lock w)) link"
  let ?lk' = "?lk\<lparr>l_owners := ?owners, l_state := if lll_lock_type link = M0_LONG_LOCK_WRITER \<or> ?owners = []
                       then M0_LONG_LOCK_UNLOCKED else M0_LONG_LOCK_RD_LOCKED\<rparr>"
  have inv: "links_ok ?lk" "owners_ok ?lk" "distinct (ids ?lk)" "quiet w" "lock_invariant ?lk"
    using ok by (simp_all add: ll_ok_def lock_invariant_iff)
  have sub: "set (map lll_id ?owners) \<subseteq> set (map lll_id (l_owners ?lk))" "distinct (map lll_id ?owners)"
    using inv(3) by (auto simp: tlist_del_def ids_def distinct_map_filter)
  let ?w = "w\<lparr>ll_lock := ?lk'\<rparr>"
  have oo: "owners_ok (ll_lock ?w)" using owners_after_del [OF inv(2) link] inv(3) by (simp add: ids_def)
  have lo: "links_ok (ll_lock ?w)" using inv(1) by (auto simp: links_ok_def tlist_del_def list_all_iff)
  have d: "distinct (ids (ll_lock ?w))" using inv(3) sub by (auto simp: ids_def)
  have q: "quiet ?w" using inv(4) by (simp add: quiet_def)
  obtain w' granted where w': "unlock_loop now ?w = Some w'"
    "l_waiters (ll_lock ?w) = granted @ l_waiters (ll_lock w')"
    "map lll_id (l_owners (ll_lock w')) = map lll_id (l_owners (ll_lock ?w) @ granted)"
    "l_owners (ll_lock ?w) = [] \<and> l_waiters (ll_lock ?w) \<noteq> [] \<longrightarrow> granted \<noteq> []"
    "ll_woken w' = ll_woken ?w @ map (\<lambda>l. the (lll_fom l)) granted" "ll_foms w' = ll_foms ?w"
    "lock_invariant (ll_lock w')" "ids (ll_lock w') = ids (ll_lock ?w)" "quiet w'"
    using unlock_loop_correct [OF oo lo d q, of now] by blast
  have "tlist_contains (l_owners ?lk) link" using link by (auto simp: tlist_contains_def)
  then have "unlock now True w link chk = Some w'"
    using w'(1,7) inv(5) by (simp add: unlock_def Let_def bind_M0_ASSERT_True)
  moreover have "ll_ok w'" using w'(7,8,9) d by (simp add: ll_ok_def)
  ultimately show ?thesis using w'(2-6) by (intro exI [of _ w'] exI [of _ granted]) simp
qed

text \<open>
  Asking for the lock: it is granted at once only to a link that overtakes nobody; otherwise the
  link joins the end of the queue.
\<close>

lemma lock_correct:
  assumes ok: "ll_ok w" and new: "\<not> tlink_is_in (ll_lock w) link" and f: "lll_fom link = Some f"
    and idle: "list_all (\<lambda>l. lll_fom l \<noteq> Some f) (l_waiters (ll_lock w))"
  shows "\<exists>w' link'. lock now w link ph = Some (w', l_waiters (ll_lock w) = [] \<and> can_lock (ll_lock w) link) \<and>
    ll_ok w' \<and> lll_id link' = lll_id link \<and> lll_fom link' = lll_fom link \<and>
    lll_lock_type link' = lll_lock_type link \<and> ll_woken w' = ll_woken w \<and>
    (if l_waiters (ll_lock w) = [] \<and> can_lock (ll_lock w) link
     then l_owners (ll_lock w') = l_owners (ll_lock w) @ [link'] \<and> l_waiters (ll_lock w') = []
     else l_owners (ll_lock w') = l_owners (ll_lock w) \<and> l_waiters (ll_lock w') = l_waiters (ll_lock w) @ [link'])"
proof (cases "l_waiters (ll_lock w) = [] \<and> can_lock (ll_lock w) link")
  case True
  let ?lk = "ll_lock w" and ?l = "ll_addb2_reset link"
  let ?lkq = "?lk\<lparr>l_waiters := [?l]\<rparr>"
  have inv: "links_ok ?lk" "owners_ok ?lk" "distinct (ids ?lk)" "lock_invariant ?lk"
    using ok by (simp_all add: ll_ok_def lock_invariant_iff)
  have oo: "owners_ok ?lkq" using inv(2) by (simp add: owners_ok_def)
  have pre: "l_waiters ?lkq = [?l]" "distinct (ids ?lkq)" "owners_ok ?lkq" "can_lock ?lkq ?l"
    using inv(3) new True by (auto simp: ids_def tlink_is_in_def tlist_contains_def can_lock_def oo)
  have eq: "grant now (ll_foms w) ?lkq ?l = grant now (ll_foms w) ?lk ?l"
    using True by (simp add: grant_def Let_def tlist_del_def)
  note g = grant_head [OF pre, of now "ll_foms w", unfolded eq]
  let ?w = "w\<lparr>ll_lock := grant now (ll_foms w) ?lk ?l, ll_foms := (ll_foms w)(f := (ll_foms w f)\<lparr>fo_phase := ph\<rparr>)\<rparr>"
  have "links_ok (grant now (ll_foms w) ?lk ?l)" using g inv(1) f by (simp add: links_ok_def link_invariant_def)
  then have li: "lock_invariant (grant now (ll_foms w) ?lk ?l)" using g by (simp add: lock_invariant_iff head_blocked_def)
  then have "lock now w link ph = Some (?w, True)"
    using True inv(4) new f by (simp add: lock_def Let_def bind_M0_ASSERT_True)
  moreover have "ll_ok ?w" using li g(2,4) pre(2) by (simp add: ll_ok_def quiet_def)
  ultimately show ?thesis
    using True g(1,2)
    by (intro exI [of _ ?w] exI [of _ "ll_addb2_wait_finish now (fo_state_epoch (ll_foms w (the (lll_fom ?l)))) ?l"]) simp
next
  case False
  let ?lk = "ll_lock w" and ?l = "ll_addb2_wait_start (ll_addb2_reset link)"
  let ?lk' = "?lk\<lparr>l_waiters := l_waiters ?lk @ [?l]\<rparr>"
  let ?foms = "(ll_foms w)(f := (ll_foms w f)\<lparr>fo_transitions_saved := fo_transitions (ll_foms w f), fo_phase := ph\<rparr>)"
  let ?w = "w\<lparr>ll_foms := ?foms, ll_lock := ?lk'\<rparr>"
  have inv: "links_ok ?lk" "owners_ok ?lk" "distinct (ids ?lk)" "lock_invariant ?lk" "head_blocked ?lk" "quiet w"
    using ok by (simp_all add: ll_ok_def lock_invariant_iff)
  have "head_blocked ?lk'"
    using inv(5) False by (cases "l_waiters ?lk") (auto simp: head_blocked_def can_lock_def)
  moreover have "owners_ok ?lk'" using inv(2) by (simp add: owners_ok_def)
  moreover have "links_ok ?lk'" using inv(1) f by (simp add: links_ok_def link_invariant_def)
  ultimately have li: "lock_invariant ?lk'" by (simp add: lock_invariant_iff)
  have lock: "lock now w link ph = Some (?w, False)"
    using False inv(4) new f li by (auto simp: lock_def Let_def bind_M0_ASSERT_True)
  have "distinct (ids ?lk')" using inv(3) new by (auto simp: ids_def tlink_is_in_def tlist_contains_def)
  moreover have "quiet ?w" using inv(6) idle f by (auto simp: quiet_def list_all_iff Let_def)
  ultimately have "ll_ok ?w" using li by (simp add: ll_ok_def)
  then show ?thesis using False lock by (intro exI [of _ ?w] exI [of _ ?l]) simp
qed

section \<open>Runs\<close>

text \<open>
  The steps of a lock and the foms that use it: a fom that is not waiting asks for the lock with a
  link of its own, an owner releases it, and a fom finishes a transition. A waiting fom is not
  scheduled, so that it can at most finish the transition in which it was queued.
\<close>

inductive ll_step :: "ll_world \<Rightarrow> ll_world \<Rightarrow> bool" where
  acquire: "\<lbrakk>\<not> tlink_is_in (ll_lock w) link; lll_fom link = Some f;
             list_all (\<lambda>l. lll_fom l \<noteq> Some f) (l_waiters (ll_lock w));
             lock now w link ph = Some (w', got)\<rbrakk> \<Longrightarrow> ll_step w w'"
| release: "\<lbrakk>link \<in> set (l_owners (ll_lock w)); unlock now True w link chk = Some w'\<rbrakk> \<Longrightarrow> ll_step w w'"
| tick: "\<lbrakk>list_all (\<lambda>l. lll_fom l = Some f \<longrightarrow> fo_transitions (ll_foms w f) = fo_transitions_saved (ll_foms w f))
            (l_waiters (ll_lock w))\<rbrakk> \<Longrightarrow>
          ll_step w (w\<lparr>ll_foms := (ll_foms w)(f := (ll_foms w f)\<lparr>fo_transitions := fo_transitions (ll_foms w f) + 1\<rparr>)\<rparr>)"

inductive ll_reachable :: "ll_world \<Rightarrow> bool" where
  init: "ll_reachable \<lparr>ll_lock = m0_long_lock_init, ll_foms = foms, ll_woken = []\<rparr>"
| step: "ll_reachable w \<Longrightarrow> ll_step w w' \<Longrightarrow> ll_reachable w'"

inductive_cases ll_stepE: "ll_step w w'"

lemma ll_step_ok: "ll_step w w' \<Longrightarrow> ll_ok w \<Longrightarrow> ll_ok w'"
proof (induction rule: ll_step.induct)
  case (acquire w link f now ph w' got)
  then show ?case using lock_correct [of w link f now ph] by auto
next
  case (release link w now chk w')
  then show ?case using unlock_correct [of w link now chk] by auto
next
  case (tick f w)
  let ?w = "w\<lparr>ll_foms := (ll_foms w)(f := (ll_foms w f)\<lparr>fo_transitions := fo_transitions (ll_foms w f) + 1\<rparr>)\<rparr>"
  have "quiet ?w"
  proof -
    have "fo_transitions (ll_foms ?w g) - fo_transitions_saved (ll_foms ?w g) \<in> {1, 0}"
      if "l \<in> set (l_waiters (ll_lock w))" "g = the (lll_fom l)" "lll_fom l \<noteq> None" for l g
      using that tick ll_ok_def [of w] by (cases "g = f") (auto simp: quiet_def list_all_iff Let_def)
    moreover have "\<forall>l \<in> set (l_waiters (ll_lock w)). lll_fom l \<noteq> None"
      using tick(2) by (auto simp: ll_ok_def lock_invariant_def list_all_iff link_invariant_def)
    ultimately show ?thesis by (auto simp: quiet_def list_all_iff Let_def)
  qed
  then show ?case using tick(2) by (simp add: ll_ok_def)
qed

lemma ll_reachable_ok: "ll_reachable w \<Longrightarrow> ll_ok w"
proof (induction rule: ll_reachable.induct)
  case (init foms)
  show ?case by (simp add: ll_ok_def m0_long_lock_init_def lock_invariant_def ids_def quiet_def)
next
  case (step w w')
  then show ?case using ll_step_ok by blast
qed

text \<open>Releasing the first owner again and again.\<close>

fun release_owners :: "u64 \<Rightarrow> nat \<Rightarrow> ll_world \<Rightarrow> ll_world option" where
  "release_owners now 0 w = Some w"
| "release_owners now (Suc n) w = do {
     w \<leftarrow> unlock now True w (hd (l_owners (ll_lock w))) False;
     release_owners now n w
   }"

lemma ll_ok_waiters_owners: "ll_ok w \<Longrightarrow> l_waiters (ll_lock w) \<noteq> [] \<Longrightarrow> l_owners (ll_lock w) \<noteq> []"
  by (simp add: ll_ok_def lock_invariant_def)

lemma tlist_del_hd:
  "distinct (map lll_id ls) \<Longrightarrow> ls \<noteq> [] \<Longrightarrow> tlist_del ls (hd ls) = tl ls"
  using tlist_del_notin [of "hd ls" "tl ls"] by (cases ls) (auto simp: tlist_del_def)

lemma release_owners_grants:
  assumes "ll_ok w" "p < length (l_waiters (ll_lock w))"
  shows "\<exists>n \<le> length (l_owners (ll_lock w)) + p. \<exists>w'. release_owners now n w = Some w' \<and>
    lll_id (l_waiters (ll_lock w) ! p) \<in> set (map lll_id (l_owners (ll_lock w')))"
  using assms
proof (induction "length (l_owners (ll_lock w)) + p" arbitrary: w p)
  case 0
  then show ?case using ll_ok_waiters_owners [of w] by (cases "l_waiters (ll_lock w)") auto
next
  case (Suc m)
  let ?lk = "ll_lock w" and ?x = "lll_id (l_waiters (ll_lock w) ! p)"
  have ne: "l_owners ?lk \<noteq> []" using ll_ok_waiters_owners [OF Suc(3)] Suc(4) by (cases "l_waiters ?lk") auto
  have del: "tlist_del (l_owners ?lk) (hd (l_owners ?lk)) = tl (l_owners ?lk)"
    using Suc(3) ne by (intro tlist_del_hd) (simp_all add: ll_ok_def ids_def)
  obtain w1 granted where w1: "unlock now True w (hd (l_owners ?lk)) False = Some w1" "ll_ok w1"
    "l_waiters ?lk = granted @ l_waiters (ll_lock w1)"
    "map lll_id (l_owners (ll_lock w1)) = map lll_id (tl (l_owners ?lk) @ granted)"
    using unlock_correct [OF Suc(3), of "hd (l_owners ?lk)" now False] ne del by auto
  show ?case
  proof (cases "p < length granted")
    case True
    then have "?x \<in> set (map lll_id (l_owners (ll_lock w1)))" using w1(3,4) by (simp add: nth_append)
    moreover have "release_owners now 1 w = Some w1" using w1(1) by simp
    moreover have "1 \<le> length (l_owners ?lk) + p" using ne by (cases "l_owners ?lk") auto
    ultimately show ?thesis by blast
  next
    case False
    let ?p = "p - length granted"
    have x: "l_waiters (ll_lock w1) ! ?p = l_waiters ?lk ! p" "?p < length (l_waiters (ll_lock w1))"
      using False w1(3) Suc(4) by (simp_all add: nth_append)
    have "length (l_owners (ll_lock w1)) = length (l_owners ?lk) - 1 + length granted"
      using arg_cong [OF w1(4), of length] by simp
    then have m: "m = length (l_owners (ll_lock w1)) + ?p" using Suc(2) False ne by (cases "l_owners ?lk") auto
    obtain n w' where n: "n \<le> m" "release_owners now n w1 = Some w'" "?x \<in> set (map lll_id (l_owners (ll_lock w')))"
      using Suc(1) [OF m w1(2) x(2)] x(1) m by auto
    have "release_owners now (Suc n) w = Some w'" using w1(1) n(2) by simp
    then show ?thesis using n(1,3) Suc(2) by (metis Suc_le_mono)
  qed
qed

subsection \<open>A sample run\<close>

definition sample_link :: "nat \<Rightarrow> m0_long_lock_type \<Rightarrow> m0_long_lock_link" where
  "sample_link i t = \<lparr>lll_id = i, lll_fom = Some i, lll_lock_type = t, lll_addb2 = None\<rparr>"

definition sample_fom :: "nat \<Rightarrow> fom" where
  "sample_fom f = \<lparr>fo_transitions = 0, fo_transitions_saved = 0, fo_phase = 0, fo_state_epoch = 0\<rparr>"

text \<open>A writer holds the lock and a reader waits.\<close>

definition sample_world :: ll_world where
  "sample_world = \<lparr>ll_lock = \<lparr>l_owners = [sample_link 1 M0_LONG_LOCK_WRITER], l_waiters = [sample_link 2 M0_LONG_LOCK_READER],
                              l_state = M0_LONG_LOCK_WR_LOCKED\<rparr>,
                  ll_foms = (sample_fom(1 := (sample_fom 1)\<lparr>fo_phase := 5\<rparr>))(2 := (sample_fom 2)\<lparr>fo_phase := 7\<rparr>),
                  ll_woken = []\<rparr>"

lemma sample_world_reachable: "ll_reachable sample_world"
proof -
  let ?init = "\<lparr>ll_lock = m0_long_lock_init, ll_foms = sample_fom, ll_woken = []\<rparr>"
  let ?w = "\<lparr>ll_lock = \<lparr>l_owners = [sample_link 1 M0_LONG_LOCK_WRITER], l_waiters = [], l_state = M0_LONG_LOCK_WR_LOCKED\<rparr>,
             ll_foms = sample_fom(1 := (sample_fom 1)\<lparr>fo_phase := 5\<rparr>), ll_woken = []\<rparr>"
  note defs = lock_def Let_def m0_long_lock_init_def sample_link_def lock_invariant_def tlink_is_in_def tlist_contains_def
    can_lock_def grant_def tlist_del_def link_invariant_def ll_addb2_wait_finish_def ll_addb2_reset_def
    ll_addb2_wait_start_def bind_M0_ASSERT_True
  have "lock 3 ?init (sample_link 1 M0_LONG_LOCK_WRITER) 5 = Some (?w, True)" by (simp add: defs)
  then have "ll_step ?init ?w"
    by (intro acquire [where link = "sample_link 1 M0_LONG_LOCK_WRITER" and f = 1])
      (simp_all add: m0_long_lock_init_def sample_link_def tlink_is_in_def tlist_contains_def)
  moreover have "lock 4 ?w (sample_link 2 M0_LONG_LOCK_READER) 7 = Some (sample_world, False)"
    by (simp add: defs sample_world_def sample_fom_def)
  then have "ll_step ?w sample_world"
    by (intro acquire [where link = "sample_link 2 M0_LONG_LOCK_READER" and f = 2])
      (simp_all add: sample_link_def tlink_is_in_def tlist_contains_def)
  ultimately show ?thesis using ll_reachable.intros by blast
qed

section \<open>Properties\<close>

text \<open>
  C11. In every state reachable from an initialised long lock by any interleaving of requests,
  releases and fom transitions, the invariant that the code asserts holds, and the lock excludes: a
  writer among the owners is the only owner, and nobody waits while nobody owns the lock. No
  assertion of the code fails there: every request by a link that is not in the lock yet, for a fom
  that does not wait for it, returns, and so does every release by an owner under the state machine
  group of its fom.
\<close>

theorem long_lock_exclusion:
  assumes "ll_reachable w"
  shows "lock_invariant (ll_lock w) \<and>
    (\<forall>l \<in> set (l_owners (ll_lock w)). lll_lock_type l = M0_LONG_LOCK_WRITER \<longrightarrow> l_owners (ll_lock w) = [l]) \<and>
    (l_waiters (ll_lock w) \<noteq> [] \<longrightarrow> l_owners (ll_lock w) \<noteq> []) \<and>
    distinct (map lll_id (l_owners (ll_lock w) @ l_waiters (ll_lock w))) \<and>
    (\<forall>now link f ph. \<not> tlink_is_in (ll_lock w) link \<and> lll_fom link = Some f \<and>
       list_all (\<lambda>l. lll_fom l \<noteq> Some f) (l_waiters (ll_lock w)) \<longrightarrow>
       (\<exists>w' got. lock now w link ph = Some (w', got) \<and> ll_reachable w')) \<and>
    (\<forall>now link chk. link \<in> set (l_owners (ll_lock w)) \<longrightarrow>
       (\<exists>w'. unlock now True w link chk = Some w' \<and> ll_reachable w'))"
proof -
  have ok: "lock_invariant (ll_lock w)" "owners_ok (ll_lock w)" "distinct (ids (ll_lock w))"
    using ll_reachable_ok [OF assms] by (auto simp: ll_ok_def lock_invariant_iff)
  have "l_owners (ll_lock w) = [l]" if "l \<in> set (l_owners (ll_lock w))" "lll_lock_type l = M0_LONG_LOCK_WRITER" for l
  proof -
    have "length (l_owners (ll_lock w)) = 1"
      using that ok(2) by (auto simp: owners_ok_def all_readers_def list_all_iff)
    then show ?thesis using that(1) by (cases "l_owners (ll_lock w)") auto
  qed
  moreover have "\<exists>w' got. lock now w link ph = Some (w', got) \<and> ll_reachable w'"
    if "\<not> tlink_is_in (ll_lock w) link" "lll_fom link = Some f"
      "list_all (\<lambda>l. lll_fom l \<noteq> Some f) (l_waiters (ll_lock w))" for now link f ph
    using lock_correct [OF ll_reachable_ok [OF assms] that] step [OF assms acquire [OF that]] by meson
  moreover have "\<exists>w'. unlock now True w link chk = Some w' \<and> ll_reachable w'"
    if "link \<in> set (l_owners (ll_lock w))" for now link chk
    using unlock_correct [OF ll_reachable_ok [OF assms] that] step [OF assms release [OF that]] by meson
  ultimately show ?thesis using ok ll_ok_waiters_owners [OF ll_reachable_ok [OF assms]] by (auto simp: ids_def)
qed

theorem long_lock_exclusion_witness:
  "ll_reachable sample_world \<and> lock_invariant (ll_lock sample_world) \<and>
   l_owners (ll_lock sample_world) = [sample_link 1 M0_LONG_LOCK_WRITER] \<and>
   unlock 5 True sample_world (sample_link 1 M0_LONG_LOCK_WRITER) True \<noteq> None"
proof -
  have owner: "l_owners (ll_lock sample_world) = [sample_link 1 M0_LONG_LOCK_WRITER]"
    by (simp add: sample_world_def)
  note excl = long_lock_exclusion [OF sample_world_reachable]
  have "sample_link 1 M0_LONG_LOCK_WRITER \<in> set (l_owners (ll_lock sample_world))" by (simp add: owner)
  with excl obtain w' where "unlock 5 True sample_world (sample_link 1 M0_LONG_LOCK_WRITER) True = Some w'"
    by meson
  then show ?thesis using excl sample_world_reachable owner by simp
qed

text \<open>
  C14. \<^verbatim>\<open>lock()\<close> never overtakes: a request by a link that is not in the lock yet, for a fom that does not
  wait for it, returns, is granted at once exactly when nobody waits and the lock is
  compatible, and otherwise joins the end of the queue; nobody else moves. In particular a reader
  queues behind a waiting writer although the lock is held for reading, where the comment
  above the lock in \<^verbatim>\<open>fom_long_lock.h\<close> says that it joins the owners.
\<close>

theorem long_lock_no_overtaking:
  assumes "ll_reachable w" "\<not> tlink_is_in (ll_lock w) link" "lll_fom link = Some f"
    "list_all (\<lambda>l. lll_fom l \<noteq> Some f) (l_waiters (ll_lock w))"
  shows "\<exists>w' link'. lock now w link ph = Some (w', l_waiters (ll_lock w) = [] \<and> can_lock (ll_lock w) link) \<and>
    lll_id link' = lll_id link \<and>
    (if l_waiters (ll_lock w) = [] \<and> can_lock (ll_lock w) link
     then l_owners (ll_lock w') = l_owners (ll_lock w) @ [link'] \<and> l_waiters (ll_lock w') = []
     else l_owners (ll_lock w') = l_owners (ll_lock w) \<and> l_waiters (ll_lock w') = l_waiters (ll_lock w) @ [link'])"
  using lock_correct [OF ll_reachable_ok [OF assms(1)] assms(2-4)] by blast

theorem long_lock_no_overtaking_witness:
  "\<exists>w' link'. lock 9 sample_world (sample_link 3 M0_LONG_LOCK_READER) 1 = Some (w', False) \<and>
     l_waiters (ll_lock w') = [sample_link 2 M0_LONG_LOCK_READER, link']"
  using long_lock_no_overtaking [OF sample_world_reachable, of "sample_link 3 M0_LONG_LOCK_READER" 3 9 1]
  by (auto simp: sample_world_def sample_link_def tlink_is_in_def tlist_contains_def)

text \<open>
  C13. A release wakes exactly those it serves, in queue order: \<^verbatim>\<open>unlock()\<close> by an owner returns, the
  granted links are a prefix of the waiters and follow the remaining owners in that order, their foms
  are woken in that order, and if the releasing owner was the last one and somebody waits, somebody
  is granted the lock.
\<close>

theorem long_unlock_fifo:
  assumes "ll_reachable w" "link \<in> set (l_owners (ll_lock w))"
  shows "\<exists>w' granted. unlock now True w link chk = Some w' \<and>
    l_waiters (ll_lock w) = granted @ l_waiters (ll_lock w') \<and>
    map lll_id (l_owners (ll_lock w')) = map lll_id (tlist_del (l_owners (ll_lock w)) link @ granted) \<and>
    (tlist_del (l_owners (ll_lock w)) link = [] \<and> l_waiters (ll_lock w) \<noteq> [] \<longrightarrow> granted \<noteq> []) \<and>
    ll_woken w' = ll_woken w @ map (\<lambda>l. the (lll_fom l)) granted"
  using unlock_correct [OF ll_reachable_ok [OF assms(1)] assms(2)] by blast

theorem long_unlock_fifo_witness:
  "\<exists>w'. unlock 9 True sample_world (sample_link 1 M0_LONG_LOCK_WRITER) False = Some w' \<and>
     map lll_id (l_owners (ll_lock w')) = [2] \<and> ll_woken w' = [2]"
proof -
  have "sample_link 1 M0_LONG_LOCK_WRITER \<in> set (l_owners (ll_lock sample_world))" by (simp add: sample_world_def)
  from long_unlock_fifo [OF sample_world_reachable this, of 9 False]
  show ?thesis
    by (auto simp: sample_world_def sample_link_def tlist_del_def Cons_eq_append_conv)
qed

text \<open>
  C12. No starvation: a link that waits in position \<open>p\<close> of the queue owns the lock after at most as
  many releases as there are owners, plus \<open>p\<close>, each by the first owner of the moment; none of these
  releases fails an assertion.
\<close>

theorem long_lock_no_starvation:
  assumes "ll_reachable w" "p < length (l_waiters (ll_lock w))"
  shows "\<exists>n \<le> length (l_owners (ll_lock w)) + p. \<exists>w'. release_owners now n w = Some w' \<and>
    lll_id (l_waiters (ll_lock w) ! p) \<in> set (map lll_id (l_owners (ll_lock w')))"
  by (rule release_owners_grants [OF ll_reachable_ok [OF assms(1)] assms(2)])

theorem long_lock_no_starvation_witness:
  "\<exists>n \<le> 1. \<exists>w'. release_owners 9 n sample_world = Some w' \<and> 2 \<in> set (map lll_id (l_owners (ll_lock w')))"
  using long_lock_no_starvation [OF sample_world_reachable, of 0 9] by (simp add: sample_world_def sample_link_def)

end
