(* ===== verification/Motr_HaLq.thy ===== *)
theory Motr_HaLq
  imports Motr_Prelude
begin

text \<open>
  The message queue of a link to the HA subsystem, \<^verbatim>\<open>src/ha/msg_queue.c\<close> and \<^verbatim>\<open>src/ha/lq.c\<close>. Each
  message of a queue has a tag; tags grow by two, and four tags point into the queue: messages
  below \<^verbatim>\<open>confirmed\<close> have left it, those below \<^verbatim>\<open>delivered\<close> have been delivered, those below
  \<^verbatim>\<open>next\<close> have been handed out, and \<^verbatim>\<open>assign\<close> is the tag of the next message.

  The list of queue items is a list, an item is found by its tag, and the contents of a message is
  a number. Tags are 64-bit words that wrap; the outcome of the allocation is an argument.
\<close>

section \<open>Model\<close>

subsection \<open>Message queues\<close>

record m0_ha_msg =
  hm_tag :: u64
  hm_data :: nat

datatype m0_ha_msg_qitem_delivery_state = M0_HA_MSG_QITEM_NOT_DELIVERED | M0_HA_MSG_QITEM_DELIVERED

record m0_ha_msg_qitem =
  hmq_msg :: m0_ha_msg
  hmq_delivery_state :: m0_ha_msg_qitem_delivery_state

type_synonym m0_ha_msg_queue = "m0_ha_msg_qitem list"

definition M0_HA_MSG_TAG_UNKNOWN :: u64 where
  "M0_HA_MSG_TAG_UNKNOWN = 0"

definition M0_HA_MSG_TAG_INVALID :: u64 where
  "M0_HA_MSG_TAG_INVALID = - 1"

definition m0_ha_msg_tag :: "m0_ha_msg \<Rightarrow> u64" where
  "m0_ha_msg_tag msg = hm_tag msg"

abbreviation item_tag :: "m0_ha_msg_qitem \<Rightarrow> u64" where
  "item_tag q \<equiv> m0_ha_msg_tag (hmq_msg q)"

definition m0_ha_msg_queue_init :: m0_ha_msg_queue where
  "m0_ha_msg_queue_init = []"

definition m0_ha_msg_queue_fini :: "m0_ha_msg_queue \<Rightarrow> unit option" where
  "m0_ha_msg_queue_fini mq = do {
     M0_ASSERT (mq = []);
     Some ()
   }"

text \<open>A new item is zeroed.\<close>

definition m0_ha_msg_queue_alloc :: "bool \<Rightarrow> m0_ha_msg_qitem option" where
  "m0_ha_msg_queue_alloc alloc_ok =
     (if alloc_ok then Some \<lparr>hmq_msg = \<lparr>hm_tag = 0, hm_data = 0\<rparr>, hmq_delivery_state = M0_HA_MSG_QITEM_NOT_DELIVERED\<rparr>
      else None)"

definition m0_ha_msg_queue_enqueue :: "m0_ha_msg_queue \<Rightarrow> m0_ha_msg_qitem \<Rightarrow> m0_ha_msg_queue" where
  "m0_ha_msg_queue_enqueue mq qitem = mq @ [qitem]"

definition m0_ha_msg_queue_dequeue :: "m0_ha_msg_queue \<Rightarrow> m0_ha_msg_qitem option \<times> m0_ha_msg_queue" where
  "m0_ha_msg_queue_dequeue mq = (case mq of [] \<Rightarrow> (None, []) | q # qs \<Rightarrow> (Some q, qs))"

definition m0_ha_msg_queue_push_front :: "m0_ha_msg_queue \<Rightarrow> m0_ha_msg_qitem \<Rightarrow> m0_ha_msg_queue" where
  "m0_ha_msg_queue_push_front mq qitem = qitem # mq"

definition m0_ha_msg_queue_is_empty :: "m0_ha_msg_queue \<Rightarrow> bool" where
  "m0_ha_msg_queue_is_empty mq \<longleftrightarrow> mq = []"

definition m0_ha_msg_queue_find :: "m0_ha_msg_queue \<Rightarrow> u64 \<Rightarrow> m0_ha_msg_qitem option" where
  "m0_ha_msg_queue_find mq tag = find (\<lambda>q. item_tag q = tag) mq"

text \<open>The neighbours of an item in the list, \<^verbatim>\<open>NULL\<close> at the ends.\<close>

fun m0_ha_msg_queue_next :: "m0_ha_msg_queue \<Rightarrow> m0_ha_msg_qitem \<Rightarrow> m0_ha_msg_qitem option" where
  "m0_ha_msg_queue_next (q # q' # qs) cur = (if item_tag q = item_tag cur then Some q' else m0_ha_msg_queue_next (q' # qs) cur)"
| "m0_ha_msg_queue_next mq cur = None"

fun m0_ha_msg_queue_prev :: "m0_ha_msg_queue \<Rightarrow> m0_ha_msg_qitem \<Rightarrow> m0_ha_msg_qitem option" where
  "m0_ha_msg_queue_prev (q # q' # qs) cur = (if item_tag q' = item_tag cur then Some q else m0_ha_msg_queue_prev (q' # qs) cur)"
| "m0_ha_msg_queue_prev mq cur = None"

text \<open>An assignment to a field of the item found by its tag.\<close>

fun queue_update :: "u64 \<Rightarrow> (m0_ha_msg_qitem \<Rightarrow> m0_ha_msg_qitem) \<Rightarrow> m0_ha_msg_queue \<Rightarrow> m0_ha_msg_queue" where
  "queue_update tag f [] = []"
| "queue_update tag f (q # qs) = (if item_tag q = tag then f q # qs else q # queue_update tag f qs)"

subsection \<open>Link queues\<close>

record m0_ha_link_tags =
  hlt_confirmed :: u64
  hlt_delivered :: u64
  hlt_next :: u64
  hlt_assign :: u64

record m0_ha_lq =
  hlq_mq :: m0_ha_msg_queue
  hlq_tags :: m0_ha_link_tags

definition m0_ha_link_tags_initial :: "bool \<Rightarrow> m0_ha_link_tags" where
  "m0_ha_link_tags_initial tag_even =
     (let tag = (if tag_even then 2 else 1)
      in \<lparr>hlt_confirmed = tag, hlt_delivered = tag, hlt_next = tag, hlt_assign = tag\<rparr>)"

definition m0_ha_link_tags_eq :: "m0_ha_link_tags \<Rightarrow> m0_ha_link_tags \<Rightarrow> bool" where
  "m0_ha_link_tags_eq tags1 tags2 \<longleftrightarrow>
     hlt_delivered tags1 = hlt_delivered tags2 \<and>
     hlt_confirmed tags1 = hlt_confirmed tags2 \<and>
     hlt_next tags1 = hlt_next tags2 \<and>
     hlt_assign tags1 = hlt_assign tags2"

definition ha_lq_tags_invariant :: "m0_ha_link_tags \<Rightarrow> bool" where
  "ha_lq_tags_invariant tags \<longleftrightarrow>
     hlt_confirmed tags mod 2 = hlt_delivered tags mod 2 \<and>
     hlt_confirmed tags mod 2 = hlt_next tags mod 2 \<and>
     hlt_confirmed tags mod 2 = hlt_assign tags mod 2 \<and>
     hlt_confirmed tags \<le> hlt_delivered tags \<and>
     hlt_delivered tags \<le> hlt_next tags \<and>
     hlt_next tags \<le> hlt_assign tags \<and>
     (hlt_confirmed tags = 0) = (hlt_delivered tags = 0) \<and>
     (hlt_confirmed tags = 0) = (hlt_next tags = 0) \<and>
     (hlt_confirmed tags = 0) = (hlt_assign tags = 0)"

definition m0_ha_lq_invariant :: "m0_ha_lq \<Rightarrow> bool" where
  "m0_ha_lq_invariant lq \<longleftrightarrow> ha_lq_tags_invariant (hlq_tags lq)"

definition m0_ha_lq_init :: "m0_ha_lq option" where
  "m0_ha_lq_init = do {
     let lq = \<lparr>hlq_mq = m0_ha_msg_queue_init,
               hlq_tags = \<lparr>hlt_confirmed = 0, hlt_delivered = 0, hlt_next = 0, hlt_assign = 0\<rparr>\<rparr>;
     M0_ASSERT (m0_ha_lq_invariant lq);
     Some lq
   }"

definition m0_ha_lq_fini :: "m0_ha_lq \<Rightarrow> unit option" where
  "m0_ha_lq_fini lq = do {
     M0_ASSERT (m0_ha_lq_invariant lq);
     M0_ASSERT (hlt_confirmed (hlq_tags lq) = hlt_delivered (hlq_tags lq) \<and>
                hlt_confirmed (hlq_tags lq) = hlt_next (hlq_tags lq) \<and>
                hlt_confirmed (hlq_tags lq) = hlt_assign (hlq_tags lq));
     m0_ha_msg_queue_fini (hlq_mq lq)
   }"

definition m0_ha_lq_tags_get :: "m0_ha_lq \<Rightarrow> m0_ha_link_tags option" where
  "m0_ha_lq_tags_get lq = do {
     M0_ASSERT (m0_ha_lq_invariant lq);
     Some (hlq_tags lq)
   }"

definition m0_ha_lq_tags_set :: "m0_ha_lq \<Rightarrow> m0_ha_link_tags \<Rightarrow> m0_ha_lq option" where
  "m0_ha_lq_tags_set lq tags = do {
     M0_ASSERT (m0_ha_lq_invariant lq);
     lq \<leftarrow> (if hlt_confirmed (hlq_tags lq) = 0 then Some (lq\<lparr>hlq_tags := tags\<rparr>) else None);
     M0_ASSERT (m0_ha_lq_invariant lq);
     Some lq
   }"

definition m0_ha_lq_has_tag :: "m0_ha_lq \<Rightarrow> u64 \<Rightarrow> bool option" where
  "m0_ha_lq_has_tag lq tag = do {
     M0_ASSERT (m0_ha_lq_invariant lq);
     M0_ASSERT (hlt_confirmed (hlq_tags lq) > 0);
     Some (tag mod 2 = hlt_confirmed (hlq_tags lq) mod 2)
   }"

definition m0_ha_lq_msg :: "m0_ha_lq \<Rightarrow> u64 \<Rightarrow> m0_ha_msg option option" where
  "m0_ha_lq_msg lq tag = do {
     M0_ASSERT (m0_ha_lq_invariant lq);
     has \<leftarrow> m0_ha_lq_has_tag lq tag;
     M0_ASSERT has;
     Some (map_option hmq_msg (m0_ha_msg_queue_find (hlq_mq lq) tag))
   }"

definition m0_ha_lq_msg_next :: "m0_ha_lq \<Rightarrow> m0_ha_msg_qitem \<Rightarrow> m0_ha_msg option option" where
  "m0_ha_lq_msg_next lq cur = do {
     M0_ASSERT (m0_ha_lq_invariant lq);
     Some (map_option hmq_msg (m0_ha_msg_queue_next (hlq_mq lq) cur))
   }"

definition m0_ha_lq_msg_prev :: "m0_ha_lq \<Rightarrow> m0_ha_msg_qitem \<Rightarrow> m0_ha_msg option option" where
  "m0_ha_lq_msg_prev lq cur = do {
     M0_ASSERT (m0_ha_lq_invariant lq);
     Some (map_option hmq_msg (m0_ha_msg_queue_prev (hlq_mq lq) cur))
   }"

definition m0_ha_lq_has_next :: "m0_ha_lq \<Rightarrow> bool option" where
  "m0_ha_lq_has_next lq = do {
     M0_ASSERT (m0_ha_lq_invariant lq);
     Some (hlt_next (hlq_tags lq) < hlt_assign (hlq_tags lq))
   }"

definition m0_ha_lq_is_delivered :: "m0_ha_lq \<Rightarrow> u64 \<Rightarrow> bool option" where
  "m0_ha_lq_is_delivered lq tag = do {
     M0_ASSERT (m0_ha_lq_invariant lq);
     has \<leftarrow> m0_ha_lq_has_tag lq tag;
     M0_ASSERT has;
     Some (tag < hlt_delivered (hlq_tags lq))
   }"

definition m0_ha_lq_tag_assign :: "m0_ha_lq \<Rightarrow> u64 option" where
  "m0_ha_lq_tag_assign lq = do { M0_ASSERT (m0_ha_lq_invariant lq); Some (hlt_assign (hlq_tags lq)) }"

definition m0_ha_lq_tag_next :: "m0_ha_lq \<Rightarrow> u64 option" where
  "m0_ha_lq_tag_next lq = do { M0_ASSERT (m0_ha_lq_invariant lq); Some (hlt_next (hlq_tags lq)) }"

definition m0_ha_lq_tag_delivered :: "m0_ha_lq \<Rightarrow> u64 option" where
  "m0_ha_lq_tag_delivered lq = do { M0_ASSERT (m0_ha_lq_invariant lq); Some (hlt_delivered (hlq_tags lq)) }"

definition m0_ha_lq_tag_confirmed :: "m0_ha_lq \<Rightarrow> u64 option" where
  "m0_ha_lq_tag_confirmed lq = do { M0_ASSERT (m0_ha_lq_invariant lq); Some (hlt_confirmed (hlq_tags lq)) }"

definition m0_ha_lq_enqueue :: "bool \<Rightarrow> m0_ha_lq \<Rightarrow> m0_ha_msg \<Rightarrow> (m0_ha_lq \<times> u64) option" where
  "m0_ha_lq_enqueue alloc_ok lq msg = do {
     M0_ASSERT (m0_ha_lq_invariant lq);
     qitem \<leftarrow> m0_ha_msg_queue_alloc alloc_ok;
     let qitem = qitem\<lparr>hmq_msg := msg\<rparr>;
     let tag = m0_ha_msg_tag msg;
     let assign = hlt_assign (hlq_tags lq);
     qitem \<leftarrow> (if tag = M0_HA_MSG_TAG_UNKNOWN
               then Some \<lparr>hmq_msg = (hmq_msg qitem)\<lparr>hm_tag := assign\<rparr>,
                          hmq_delivery_state = M0_HA_MSG_QITEM_NOT_DELIVERED\<rparr>
               else do { M0_ASSERT (tag = assign); Some qitem });
     let lq = \<lparr>hlq_mq = m0_ha_msg_queue_enqueue (hlq_mq lq) qitem,
               hlq_tags = (hlq_tags lq)\<lparr>hlt_assign := assign + 2\<rparr>\<rparr>;
     M0_ASSERT (m0_ha_lq_invariant lq);
     Some (lq, m0_ha_msg_tag (hmq_msg qitem))
   }"

definition m0_ha_lq_next :: "m0_ha_lq \<Rightarrow> (m0_ha_lq \<times> m0_ha_msg option) option" where
  "m0_ha_lq_next lq = do {
     M0_ASSERT (m0_ha_lq_invariant lq);
     if hlt_next (hlq_tags lq) = hlt_assign (hlq_tags lq) then Some (lq, None)
     else do {
       msg \<leftarrow> m0_ha_lq_msg lq (hlt_next (hlq_tags lq));
       let lq = lq\<lparr>hlq_tags := (hlq_tags lq)\<lparr>hlt_next := hlt_next (hlq_tags lq) + 2\<rparr>\<rparr>;
       M0_ASSERT (m0_ha_lq_invariant lq);
       Some (lq, msg)
     }
   }"

definition m0_ha_lq_try_unnext :: "m0_ha_lq \<Rightarrow> (m0_ha_lq \<times> bool) option" where
  "m0_ha_lq_try_unnext lq = do {
     M0_ASSERT (m0_ha_lq_invariant lq);
     let done = hlt_delivered (hlq_tags lq) < hlt_next (hlq_tags lq);
     let lq = (if done then lq\<lparr>hlq_tags := (hlq_tags lq)\<lparr>hlt_next := hlt_next (hlq_tags lq) - 2\<rparr>\<rparr> else lq);
     M0_ASSERT (m0_ha_lq_invariant lq);
     Some (lq, done)
   }"

fun mark_delivered_loop :: "m0_ha_msg_qitem list \<Rightarrow> m0_ha_link_tags \<Rightarrow> m0_ha_link_tags" where
  "mark_delivered_loop [] tags = tags"
| "mark_delivered_loop (q # qs) tags =
     (if hlt_delivered tags = hlt_next tags \<or> hmq_delivery_state q = M0_HA_MSG_QITEM_NOT_DELIVERED then tags
      else mark_delivered_loop qs (tags\<lparr>hlt_delivered := item_tag q + 2\<rparr>))"

text \<open>The loop starts at the item found by the delivered tag and follows the list.\<close>

definition m0_ha_lq_mark_delivered :: "m0_ha_lq \<Rightarrow> u64 \<Rightarrow> m0_ha_lq option" where
  "m0_ha_lq_mark_delivered lq tag = do {
     M0_ASSERT (m0_ha_lq_invariant lq);
     msg \<leftarrow> m0_ha_lq_msg lq tag;
     M0_ASSERT (msg \<noteq> None);
     M0_ASSERT (hlt_delivered (hlq_tags lq) \<le> hm_tag (the msg));
     M0_ASSERT (hm_tag (the msg) \<le> hlt_next (hlq_tags lq));
     let mq = queue_update tag (\<lambda>q. q\<lparr>hmq_delivery_state := M0_HA_MSG_QITEM_DELIVERED\<rparr>) (hlq_mq lq);
     let rest = dropWhile (\<lambda>q. item_tag q \<noteq> hlt_delivered (hlq_tags lq)) mq;
     M0_ASSERT (rest \<noteq> []);
     let lq = \<lparr>hlq_mq = mq, hlq_tags = mark_delivered_loop rest (hlq_tags lq)\<rparr>;
     M0_ASSERT (m0_ha_lq_invariant lq);
     Some lq
   }"

definition m0_ha_lq_dequeue :: "m0_ha_lq \<Rightarrow> (m0_ha_lq \<times> u64) option" where
  "m0_ha_lq_dequeue lq = do {
     M0_ASSERT (m0_ha_lq_invariant lq);
     (lq, tag) \<leftarrow>
       (if hlt_confirmed (hlq_tags lq) < hlt_delivered (hlq_tags lq)
        then (let (qitem, mq) = m0_ha_msg_queue_dequeue (hlq_mq lq) in do {
            M0_ASSERT (qitem \<noteq> None);
            let tag = item_tag (the qitem);
            M0_ASSERT (tag = hlt_confirmed (hlq_tags lq));
            Some (\<lparr>hlq_mq = mq, hlq_tags = (hlq_tags lq)\<lparr>hlt_confirmed := hlt_confirmed (hlq_tags lq) + 2\<rparr>\<rparr>, tag)
          })
        else Some (lq, M0_HA_MSG_TAG_INVALID));
     M0_ASSERT (m0_ha_lq_invariant lq);
     Some (lq, tag)
   }"

section \<open>The queue over natural numbers\<close>

abbreviation is_delivered :: "m0_ha_msg_qitem \<Rightarrow> bool" where
  "is_delivered q \<equiv> hmq_delivery_state q = M0_HA_MSG_QITEM_DELIVERED"

text \<open>
  The items of a queue carry the tags from the confirmed one on, and the other tags count items:
  \<open>D\<close> delivered ones, \<open>N\<close> handed out. No tag wraps.
\<close>

definition lq_view :: "m0_ha_lq \<Rightarrow> nat \<Rightarrow> nat \<Rightarrow> nat \<Rightarrow> bool" where
  "lq_view lq c D N \<longleftrightarrow>
     0 < c \<and> D \<le> N \<and> N \<le> length (hlq_mq lq) \<and> c + 2 * length (hlq_mq lq) < 2 ^ 64 \<and>
     unat (hlt_confirmed (hlq_tags lq)) = c \<and> unat (hlt_delivered (hlq_tags lq)) = c + 2 * D \<and>
     unat (hlt_next (hlq_tags lq)) = c + 2 * N \<and> unat (hlt_assign (hlq_tags lq)) = c + 2 * length (hlq_mq lq) \<and>
     (\<forall>i < length (hlq_mq lq). unat (item_tag (hlq_mq lq ! i)) = c + 2 * i) \<and>
     (\<forall>i < D. is_delivered (hlq_mq lq ! i))"

definition lq_ok :: "m0_ha_lq \<Rightarrow> bool" where
  "lq_ok lq \<longleftrightarrow> (\<exists>c D N. lq_view lq c D N)"

lemma view_tags:
  assumes "unat (hlt_confirmed t) = c" "unat (hlt_delivered t) = c + 2 * D" "unat (hlt_next t) = c + 2 * N"
    "unat (hlt_assign t) = c + 2 * n" "0 < c" "D \<le> N" "N \<le> n"
  shows "ha_lq_tags_invariant t"
proof -
  have m: "x mod 2 = y mod 2 \<longleftrightarrow> unat x mod 2 = unat y mod 2" for x y :: u64
    by (simp add: word_unat_eq_iff unat_mod)
  have z: "x = 0 \<longleftrightarrow> unat x = 0" for x :: u64 by (simp add: unat_eq_zero)
  show ?thesis
    unfolding ha_lq_tags_invariant_def m z word_le_nat_alt using assms by simp
qed

lemma lq_view_invariant: "lq_view lq c D N \<Longrightarrow> m0_ha_lq_invariant lq"
  unfolding lq_view_def m0_ha_lq_invariant_def by (intro view_tags) auto

text \<open>Items are found where their tag says.\<close>

lemma find_nth:
  assumes "i < length xs" "P (xs ! i)" "\<forall>j < i. \<not> P (xs ! j)"
  shows "find P xs = Some (xs ! i)"
  using assms
proof (induction xs arbitrary: i)
  case (Cons x xs)
  show ?case
  proof (cases i)
    case 0
    then show ?thesis using Cons.prems by simp
  next
    case (Suc k)
    then have "\<not> P x" "\<forall>j < k. \<not> P (xs ! j)" using Cons.prems(3) by auto
    then show ?thesis using Cons.IH [of k] Cons.prems Suc by simp
  qed
qed simp

lemma view_tag_eq:
  assumes "lq_view lq c D N" "i < length (hlq_mq lq)" "j < length (hlq_mq lq)"
  shows "item_tag (hlq_mq lq ! i) = item_tag (hlq_mq lq ! j) \<longleftrightarrow> i = j"
  using assms unfolding lq_view_def word_unat_eq_iff by auto

lemma view_find:
  assumes "lq_view lq c D N" "i < length (hlq_mq lq)" "unat tag = c + 2 * i"
  shows "m0_ha_msg_queue_find (hlq_mq lq) tag = Some (hlq_mq lq ! i)"
  unfolding m0_ha_msg_queue_find_def
proof (rule find_nth)
  show "item_tag (hlq_mq lq ! i) = tag" using assms by (simp add: lq_view_def word_unat_eq_iff)
  then show "\<forall>j < i. \<not> item_tag (hlq_mq lq ! j) = tag" using view_tag_eq [OF assms(1)] assms(2) by force
qed fact

lemma view_msg:
  assumes "lq_view lq c D N" "i < length (hlq_mq lq)" "unat tag = c + 2 * i"
  shows "m0_ha_lq_msg lq tag = Some (Some (hmq_msg (hlq_mq lq ! i)))"
proof -
  have "tag mod 2 = hlt_confirmed (hlq_tags lq) mod 2"
    using assms by (simp add: lq_view_def word_unat_eq_iff unat_mod)
  moreover have "hlt_confirmed (hlq_tags lq) > 0" using assms(1) by (simp add: lq_view_def word_less_nat_alt)
  ultimately show ?thesis
    using view_find [OF assms] lq_view_invariant [OF assms(1)]
    by (simp add: m0_ha_lq_msg_def m0_ha_lq_has_tag_def bind_M0_ASSERT_True)
qed

lemma queue_update_nth:
  assumes "i < length mq" "item_tag (mq ! i) = tag" "\<forall>j < i. item_tag (mq ! j) \<noteq> tag"
  shows "queue_update tag f mq = mq[i := f (mq ! i)]"
  using assms
proof (induction mq arbitrary: i)
  case (Cons q mq)
  show ?case
  proof (cases i)
    case 0
    then show ?thesis using Cons.prems by simp
  next
    case (Suc k)
    then have "item_tag q \<noteq> tag" "\<forall>j < k. item_tag (mq ! j) \<noteq> tag" using Cons.prems(3) by auto
    then show ?thesis using Cons.IH [of k] Cons.prems Suc by simp
  qed
qed simp

lemma dropWhile_nth:
  assumes "i < length xs" "\<not> P (xs ! i)" "\<forall>j < i. P (xs ! j)"
  shows "dropWhile P xs = drop i xs"
  using assms by (metis dropWhile_eq_drop length_takeWhile_less_P_nth takeWhile_eq_take_P_nth length_take min.absorb2 less_imp_le_nat nth_length_takeWhile)

section \<open>The abstract queue\<close>

text \<open>
  What the queue promises: messages wait in three lists, delivered ones that are still to be
  confirmed, those handed out, and fresh ones; of the last two each has a flag that says whether
  it has been reported as delivered.
\<close>

record lq_spec =
  sp_delivered :: "nat list"
  sp_pending :: "(nat \<times> bool) list"
  sp_fresh :: "(nat \<times> bool) list"

definition spec_enqueue :: "nat \<Rightarrow> lq_spec \<Rightarrow> lq_spec" where
  "spec_enqueue x sp = sp\<lparr>sp_fresh := sp_fresh sp @ [(x, False)]\<rparr>"

definition spec_next :: "lq_spec \<Rightarrow> lq_spec \<times> nat option" where
  "spec_next sp = (case sp_fresh sp of [] \<Rightarrow> (sp, None)
     | x # xs \<Rightarrow> (sp\<lparr>sp_pending := sp_pending sp @ [x], sp_fresh := xs\<rparr>, Some (fst x)))"

definition spec_unnext :: "lq_spec \<Rightarrow> lq_spec \<times> bool" where
  "spec_unnext sp =
     (if sp_pending sp = [] then (sp, False)
      else (sp\<lparr>sp_pending := butlast (sp_pending sp), sp_fresh := last (sp_pending sp) # sp_fresh sp\<rparr>, True))"

definition spec_mark :: "nat \<Rightarrow> lq_spec \<Rightarrow> lq_spec" where
  "spec_mark j sp =
     (let b = (sp_pending sp)[j := (fst (sp_pending sp ! j), True)]
      in sp\<lparr>sp_delivered := sp_delivered sp @ map fst (takeWhile snd b), sp_pending := dropWhile snd b\<rparr>)"

definition spec_dequeue :: "lq_spec \<Rightarrow> lq_spec \<times> nat option" where
  "spec_dequeue sp = (case sp_delivered sp of [] \<Rightarrow> (sp, None)
     | x # xs \<Rightarrow> (sp\<lparr>sp_delivered := xs\<rparr>, Some x))"

definition item_data :: "m0_ha_msg_qitem \<Rightarrow> nat" where
  "item_data q = hm_data (hmq_msg q)"

definition item_abs :: "m0_ha_msg_qitem \<Rightarrow> nat \<times> bool" where
  "item_abs q = (item_data q, is_delivered q)"

definition lq_abs :: "m0_ha_lq \<Rightarrow> lq_spec" where
  "lq_abs lq =
     (let t = hlq_tags lq;
          D = unat (hlt_delivered t - hlt_confirmed t) div 2;
          N = unat (hlt_next t - hlt_confirmed t) div 2;
          mq = hlq_mq lq
      in \<lparr>sp_delivered = map item_data (take D mq), sp_pending = map item_abs (drop D (take N mq)),
          sp_fresh = map item_abs (drop N mq)\<rparr>)"

lemma lq_abs_view:
  assumes "lq_view lq c D N"
  shows "lq_abs lq = \<lparr>sp_delivered = map item_data (take D (hlq_mq lq)),
     sp_pending = map item_abs (drop D (take N (hlq_mq lq))), sp_fresh = map item_abs (drop N (hlq_mq lq))\<rparr>"
proof -
  let ?t = "hlq_tags lq"
  have "unat (hlt_delivered ?t - hlt_confirmed ?t) = 2 * D" "unat (hlt_next ?t - hlt_confirmed ?t) = 2 * N"
    using assms by (simp_all add: lq_view_def unat_sub_noof word_le_nat_alt)
  then show ?thesis by (simp add: lq_abs_def Let_def)
qed

lemma item_fst_abs [simp]: "fst (item_abs q) = item_data q" "snd (item_abs q) = is_delivered q"
  by (simp_all add: item_abs_def)

lemma enqueue_view:
  assumes "lq_view lq c D N" "unat (hlt_assign (hlq_tags lq)) + 2 < 2 ^ 64"
    "hm_tag msg \<in> {M0_HA_MSG_TAG_UNKNOWN, hlt_assign (hlq_tags lq)}"
  shows "\<exists>lq'. m0_ha_lq_enqueue True lq msg = Some (lq', hlt_assign (hlq_tags lq)) \<and> lq_view lq' c D N \<and>
    map item_data (hlq_mq lq') = map item_data (hlq_mq lq) @ [hm_data msg] \<and>
    lq_abs lq' = spec_enqueue (hm_data msg) (lq_abs lq)"
proof -
  let ?a = "hlt_assign (hlq_tags lq)"
  let ?q = "\<lparr>hmq_msg = msg\<lparr>hm_tag := ?a\<rparr>, hmq_delivery_state = M0_HA_MSG_QITEM_NOT_DELIVERED\<rparr>"
  let ?lq = "\<lparr>hlq_mq = hlq_mq lq @ [?q], hlq_tags = (hlq_tags lq)\<lparr>hlt_assign := ?a + 2\<rparr>\<rparr>"
  have v: "lq_view ?lq c D N"
    using assms(1,2) unfolding lq_view_def
    by (auto simp: nth_append less_Suc_eq unat_add_noof m0_ha_msg_tag_def)
  have "m0_ha_lq_enqueue True lq msg = Some (?lq, ?a)"
    using lq_view_invariant [OF assms(1)] lq_view_invariant [OF v] assms(3)
    by (cases msg) (auto simp: m0_ha_lq_enqueue_def m0_ha_msg_queue_alloc_def m0_ha_msg_tag_def m0_ha_msg_queue_enqueue_def
        bind_M0_ASSERT_True Let_def)
  moreover have "lq_abs ?lq = spec_enqueue (hm_data msg) (lq_abs lq)"
    using assms(1) by (simp add: lq_abs_view [OF v] lq_abs_view [OF assms(1)] spec_enqueue_def lq_view_def item_abs_def item_data_def)
  ultimately show ?thesis using v by (simp add: item_data_def)
qed

lemma next_view:
  assumes "lq_view lq c D N"
  shows "\<exists>lq' msg. m0_ha_lq_next lq = Some (lq', msg) \<and> lq_ok lq' \<and> hlq_mq lq' = hlq_mq lq \<and>
    (lq_abs lq', map_option hm_data msg) = spec_next (lq_abs lq)"
proof (cases "N = length (hlq_mq lq)")
  case True
  then have "hlt_next (hlq_tags lq) = hlt_assign (hlq_tags lq)" using assms by (simp add: lq_view_def word_unat_eq_iff)
  then have "m0_ha_lq_next lq = Some (lq, None)"
    using lq_view_invariant [OF assms] by (simp add: m0_ha_lq_next_def bind_M0_ASSERT_True)
  then show ?thesis using True assms by (auto simp: lq_ok_def lq_abs_view [OF assms] spec_next_def)
next
  case False
  then have N: "N < length (hlq_mq lq)" using assms by (simp add: lq_view_def)
  let ?lq = "lq\<lparr>hlq_tags := (hlq_tags lq)\<lparr>hlt_next := hlt_next (hlq_tags lq) + 2\<rparr>\<rparr>"
  have v: "lq_view ?lq c D (Suc N)" using assms N unfolding lq_view_def by (simp add: unat_add_noof)
  have msg: "m0_ha_lq_msg lq (hlt_next (hlq_tags lq)) = Some (Some (hmq_msg (hlq_mq lq ! N)))"
    using view_msg [OF assms N] assms by (simp add: lq_view_def)
  have "hlt_next (hlq_tags lq) \<noteq> hlt_assign (hlq_tags lq)" using assms N by (auto simp: lq_view_def)
  then have "m0_ha_lq_next lq = Some (?lq, Some (hmq_msg (hlq_mq lq ! N)))"
    using lq_view_invariant [OF assms] lq_view_invariant [OF v] msg
    by (simp add: m0_ha_lq_next_def bind_M0_ASSERT_True Let_def)
  moreover have "drop D (take (Suc N) (hlq_mq lq)) = drop D (take N (hlq_mq lq)) @ [hlq_mq lq ! N]"
    using N assms by (simp add: take_Suc_conv_app_nth lq_view_def)
  then have "(lq_abs ?lq, Some (hm_data (hmq_msg (hlq_mq lq ! N)))) = spec_next (lq_abs lq)"
    using N by (simp add: lq_abs_view [OF v] lq_abs_view [OF assms] spec_next_def Cons_nth_drop_Suc [symmetric] item_data_def)
  ultimately show ?thesis using v by (auto simp: lq_ok_def)
qed

lemma unnext_view:
  assumes "lq_view lq c D N"
  shows "\<exists>lq' b. m0_ha_lq_try_unnext lq = Some (lq', b) \<and> lq_ok lq' \<and> hlq_mq lq' = hlq_mq lq \<and>
    (lq_abs lq', b) = spec_unnext (lq_abs lq)"
proof (cases "D < N")
  case True
  let ?lq = "lq\<lparr>hlq_tags := (hlq_tags lq)\<lparr>hlt_next := hlt_next (hlq_tags lq) - 2\<rparr>\<rparr>"
  have sub: "unat (hlt_next (hlq_tags lq) - 2) = c + 2 * N - 2"
    using assms True by (subst unat_sub_noof) (simp_all add: lq_view_def word_le_nat_alt)
  have v: "lq_view ?lq c D (N - 1)" using assms True sub unfolding lq_view_def by auto
  have "hlt_delivered (hlq_tags lq) < hlt_next (hlq_tags lq)" using assms True by (simp add: lq_view_def word_less_nat_alt)
  then have "m0_ha_lq_try_unnext lq = Some (?lq, True)"
    using lq_view_invariant [OF assms] lq_view_invariant [OF v] by (simp add: m0_ha_lq_try_unnext_def bind_M0_ASSERT_True Let_def)
  moreover have N: "N - 1 < length (hlq_mq lq)" "D \<le> N - 1" using assms True by (auto simp: lq_view_def)
  have "take N (hlq_mq lq) = take (N - 1) (hlq_mq lq) @ [hlq_mq lq ! (N - 1)]"
    using N True take_Suc_conv_app_nth [of "N - 1" "hlq_mq lq"] by simp
  moreover have "drop (N - 1) (hlq_mq lq) = hlq_mq lq ! (N - 1) # drop N (hlq_mq lq)"
    using N(1) True Cons_nth_drop_Suc [of "N - 1" "hlq_mq lq"] by simp
  ultimately show ?thesis
    using v N by (auto simp: lq_ok_def lq_abs_view [OF v] lq_abs_view [OF assms] spec_unnext_def)
next
  case False
  then have "D = N" using assms by (simp add: lq_view_def)
  then have "m0_ha_lq_try_unnext lq = Some (lq, False)"
    using assms lq_view_invariant [OF assms]
    by (simp add: m0_ha_lq_try_unnext_def bind_M0_ASSERT_True Let_def lq_view_def word_less_nat_alt)
  then show ?thesis using assms \<open>D = N\<close> by (auto simp: lq_ok_def lq_abs_view [OF assms] spec_unnext_def)
qed

lemma dequeue_view:
  assumes "lq_view lq c D N"
  shows "\<exists>lq' tag. m0_ha_lq_dequeue lq = Some (lq', tag) \<and> lq_ok lq' \<and>
    (if D = 0 then lq' = lq \<and> tag = M0_HA_MSG_TAG_INVALID
     else hlq_mq lq \<noteq> [] \<and> tag = item_tag (hd (hlq_mq lq)) \<and> hlq_mq lq' = tl (hlq_mq lq)) \<and>
    (lq_abs lq', if D = 0 then None else Some (item_data (hd (hlq_mq lq)))) = spec_dequeue (lq_abs lq)"
proof (cases "D = 0")
  case True
  then have "m0_ha_lq_dequeue lq = Some (lq, M0_HA_MSG_TAG_INVALID)"
    using assms lq_view_invariant [OF assms]
    by (simp add: m0_ha_lq_dequeue_def bind_M0_ASSERT_True lq_view_def word_less_nat_alt)
  then show ?thesis using True assms by (auto simp: lq_ok_def lq_abs_view [OF assms] spec_dequeue_def)
next
  case False
  then obtain q qs where q: "hlq_mq lq = q # qs" using assms by (cases "hlq_mq lq") (auto simp: lq_view_def)
  let ?c = "hlt_confirmed (hlq_tags lq)"
  let ?lq = "\<lparr>hlq_mq = qs, hlq_tags = (hlq_tags lq)\<lparr>hlt_confirmed := ?c + 2\<rparr>\<rparr>"
  have tags: "\<forall>i < Suc (length qs). unat (item_tag ((q # qs) ! i)) = c + 2 * i" "\<forall>i < D. is_delivered ((q # qs) ! i)"
    using assms q by (simp_all add: lq_view_def)
  have "\<forall>i < length qs. unat (item_tag (qs ! i)) = c + 2 + 2 * i" "\<forall>i < D - 1. is_delivered (qs ! i)"
    using tags(1) [THEN spec, of "Suc _"] tags(2) [THEN spec, of "Suc _"] by auto
  moreover have "unat (?c + 2) = c + 2" using assms q by (simp add: lq_view_def unat_add_noof)
  ultimately have v: "lq_view ?lq (c + 2) (D - 1) (N - 1)"
    using assms q False unfolding lq_view_def by auto
  have "item_tag q = ?c" using tags(1) [THEN spec, of 0] assms by (simp add: word_unat_eq_iff lq_view_def)
  moreover have "?c < hlt_delivered (hlq_tags lq)" using assms False by (simp add: lq_view_def word_less_nat_alt)
  ultimately have "m0_ha_lq_dequeue lq = Some (?lq, item_tag q)"
    using lq_view_invariant [OF assms] lq_view_invariant [OF v] q
    by (simp add: m0_ha_lq_dequeue_def m0_ha_msg_queue_dequeue_def bind_M0_ASSERT_True Let_def)
  moreover have "(lq_abs ?lq, Some (item_data q)) = spec_dequeue (lq_abs lq)"
    using False assms q
    by (cases D; cases N) (auto simp: lq_abs_view [OF v] lq_abs_view [OF assms] spec_dequeue_def lq_view_def)
  ultimately show ?thesis using False v q by (auto simp: lq_ok_def)
qed

text \<open>The delivered tag moves over the delivered items that have been handed out.\<close>

lemma mark_loop:
  assumes "\<forall>i < length qs. unat (item_tag (qs ! i)) = d + 2 * i" "unat (hlt_delivered t) = d"
    "unat (hlt_next t) = d + 2 * n" "n \<le> length qs" "d + 2 * n < 2 ^ 64"
  shows "mark_delivered_loop qs t =
    t\<lparr>hlt_delivered := of_nat (d + 2 * length (takeWhile is_delivered (take n qs)))\<rparr>"
  using assms
proof (induction qs arbitrary: d t n)
  case Nil
  then have "of_nat d = hlt_delivered t" by (simp add: word_unat_eq_iff unat_of_nat)
  then show ?case using Nil by simp
next
  case (Cons q qs)
  have d: "of_nat d = hlt_delivered t" using Cons.prems(2,5) by (simp add: word_unat_eq_iff unat_of_nat)
  show ?case
  proof (cases "n = 0 \<or> \<not> is_delivered q")
    case True
    then have "takeWhile is_delivered (take n (q # qs)) = []" by (cases n) auto
    moreover have "mark_delivered_loop (q # qs) t = t"
    proof -
      have "hmq_delivery_state q = M0_HA_MSG_QITEM_NOT_DELIVERED" if "\<not> is_delivered q"
        using that by (cases "hmq_delivery_state q") auto
      moreover have "hlt_delivered t = hlt_next t" if "n = 0" using that Cons.prems(2,3) by (simp add: word_unat_eq_iff)
      ultimately show ?thesis using True by auto
    qed
    ultimately show ?thesis using d by simp
  next
    case False
    then obtain k where k: "n = Suc k" and del: "is_delivered q" by (cases n) auto
    have q: "unat (item_tag q) = d" using Cons.prems(1) [THEN spec, of 0] by simp
    have q2: "unat (item_tag q + 2) = d + 2" using q k Cons.prems(5) by (simp add: unat_add_noof)
    have ne: "hlt_delivered t \<noteq> hlt_next t" using Cons.prems(2,3) k by auto
    have "mark_delivered_loop qs (t\<lparr>hlt_delivered := item_tag q + 2\<rparr>) =
        t\<lparr>hlt_delivered := item_tag q + 2, hlt_delivered := of_nat (d + 2 + 2 * length (takeWhile is_delivered (take k qs)))\<rparr>"
      using Cons.prems k q2 by (intro Cons.IH) auto
    then show ?thesis using ne del k by simp
  qed
qed

lemma map_abs_update:
  "i < length xs \<Longrightarrow> map item_abs (xs[i := (xs ! i)\<lparr>hmq_delivery_state := M0_HA_MSG_QITEM_DELIVERED\<rparr>]) =
     (map item_abs xs)[i := (item_data (xs ! i), True)]"
  by (simp add: map_update item_abs_def item_data_def)

lemma takeWhile_abs: "map fst (takeWhile snd (map item_abs xs)) = map item_data (takeWhile is_delivered xs)"
  "dropWhile snd (map item_abs xs) = map item_abs (dropWhile is_delivered xs)"
  by (induction xs) auto

text \<open>The queue after the item at a position has been flagged.\<close>

definition flag_item :: "nat \<Rightarrow> m0_ha_msg_queue \<Rightarrow> m0_ha_msg_queue" where
  "flag_item i mq = mq[i := (mq ! i)\<lparr>hmq_delivery_state := M0_HA_MSG_QITEM_DELIVERED\<rparr>]"

lemma flag_item_simps [simp]:
  "length (flag_item i mq) = length mq"
  "k < length mq \<Longrightarrow> item_tag (flag_item i mq ! k) = item_tag (mq ! k)"
  "k < length mq \<Longrightarrow> is_delivered (mq ! k) \<Longrightarrow> is_delivered (flag_item i mq ! k)"
  by (simp_all add: flag_item_def) (cases "i = k"; simp)+

lemma flag_item_data: "map item_data (flag_item i mq) = map item_data mq"
proof (rule nth_equalityI)
  fix k
  assume "k < length (map item_data (flag_item i mq))"
  then show "map item_data (flag_item i mq) ! k = map item_data mq ! k"
    by (cases "i = k") (simp_all add: flag_item_def item_data_def)
qed simp

lemma flag_item_abs: "i < length mq \<Longrightarrow> map item_abs (flag_item i mq) = (map item_abs mq)[i := (item_data (mq ! i), True)]"
  unfolding flag_item_def by (rule map_abs_update)

lemma mark_eval:
  assumes v: "lq_view lq c D N" and j: "D + j < N" and tag: "unat tag = c + 2 * (D + j)"
  defines "mq \<equiv> flag_item (D + j) (hlq_mq lq)"
  defines "k \<equiv> length (takeWhile is_delivered (take (N - D) (drop D mq)))"
  shows "queue_update tag (\<lambda>q. q\<lparr>hmq_delivery_state := M0_HA_MSG_QITEM_DELIVERED\<rparr>) (hlq_mq lq) = mq"
    "dropWhile (\<lambda>q. item_tag q \<noteq> hlt_delivered (hlq_tags lq)) mq = drop D mq"
    "mark_delivered_loop (drop D mq) (hlq_tags lq) = (hlq_tags lq)\<lparr>hlt_delivered := of_nat (c + 2 * D + 2 * k)\<rparr>"
proof -
  let ?i = "D + j"
  have i: "?i < length (hlq_mq lq)" using v j by (auto simp: lq_view_def)
  have ti: "item_tag (hlq_mq lq ! ?i) = tag" using v i tag by (simp add: lq_view_def word_unat_eq_iff)
  have "\<forall>k < ?i. item_tag (hlq_mq lq ! k) \<noteq> tag" using view_tag_eq [OF v _ i] ti i by auto
  from queue_update_nth [OF i ti this]
  show "queue_update tag (\<lambda>q. q\<lparr>hmq_delivery_state := M0_HA_MSG_QITEM_DELIVERED\<rparr>) (hlq_mq lq) = mq"
    by (simp add: mq_def flag_item_def)
  have D: "D < length (hlq_mq lq)" and len: "length mq = length (hlq_mq lq)" using i by (simp_all add: mq_def)
  have tags: "item_tag (mq ! k) = item_tag (hlq_mq lq ! k)" if "k < length (hlq_mq lq)" for k
    using that by (simp add: mq_def)
  show "dropWhile (\<lambda>q. item_tag q \<noteq> hlt_delivered (hlq_tags lq)) mq = drop D mq"
  proof (rule dropWhile_nth)
    show "\<not> item_tag (mq ! D) \<noteq> hlt_delivered (hlq_tags lq)"
      using tags [OF D] v D by (simp add: lq_view_def word_unat_eq_iff)
    show "\<forall>k < D. item_tag (mq ! k) \<noteq> hlt_delivered (hlq_tags lq)"
      using tags v D by (auto simp: lq_view_def word_unat_eq_iff)
  qed (use D len in simp)
  show "mark_delivered_loop (drop D mq) (hlq_tags lq) = (hlq_tags lq)\<lparr>hlt_delivered := of_nat (c + 2 * D + 2 * k)\<rparr>"
    unfolding k_def
  proof (rule mark_loop)
    show "\<forall>i < length (drop D mq). unat (item_tag (drop D mq ! i)) = c + 2 * D + 2 * i"
      using tags v len by (auto simp: lq_view_def)
  qed (use v j len in \<open>auto simp: lq_view_def\<close>)
qed

lemma mark_view:
  assumes v: "lq_view lq c D N" and j: "D + j < N" and tag: "unat tag = c + 2 * (D + j)"
  shows "\<exists>lq'. m0_ha_lq_mark_delivered lq tag = Some lq' \<and> lq_ok lq' \<and>
    map item_data (hlq_mq lq') = map item_data (hlq_mq lq) \<and> lq_abs lq' = spec_mark j (lq_abs lq)"
proof -
  define mq where "mq = flag_item (D + j) (hlq_mq lq)"
  define k where "k = length (takeWhile is_delivered (take (N - D) (drop D mq)))"
  define d where "d = (of_nat (c + 2 * D + 2 * k) :: u64)"
  note ev = mark_eval [OF v j tag, folded mq_def, folded k_def, folded d_def]
  have i: "D + j < length (hlq_mq lq)" and N: "N \<le> length (hlq_mq lq)" "c + 2 * length (hlq_mq lq) < 2 ^ 64"
    using v j by (auto simp: lq_view_def)
  have len: "length mq = length (hlq_mq lq)" by (simp add: mq_def)
  have k: "k \<le> N - D" unfolding k_def using length_takeWhile_le [of is_delivered "take (N - D) (drop D mq)"] by simp
  let ?lq = "\<lparr>hlq_mq = mq, hlq_tags = (hlq_tags lq)\<lparr>hlt_delivered := d\<rparr>\<rparr>"
  have ud: "unat d = c + 2 * (D + k)"
  proof -
    have "c + 2 * D + 2 * k < 2 ^ 64" using k N j by linarith
    then show ?thesis unfolding d_def by (subst unat_of_nat) simp
  qed
  have del: "is_delivered (mq ! m)" if "m < D + k" for m
  proof (cases "m < D")
    case True
    then show ?thesis using v j N by (auto simp: mq_def lq_view_def)
  next
    case False
    then have "m - D < k" using that by simp
    from takeWhile_prefix(1) [OF k_def this] show ?thesis using False that k N len by simp
  qed
  have v': "lq_view ?lq c (D + k) N"
    using v k del len ud unfolding lq_view_def by (auto simp: mq_def)
  have b: "hlt_delivered (hlq_tags lq) \<le> tag" "tag \<le> hlt_next (hlq_tags lq)"
    using v j tag by (simp_all add: lq_view_def word_le_nat_alt)
  have ti: "hm_tag (hmq_msg (hlq_mq lq ! (D + j))) = tag"
    using v i tag by (simp add: lq_view_def word_unat_eq_iff m0_ha_msg_tag_def)
  have "drop D mq \<noteq> []" using i len by simp
  moreover have "\<exists>q\<in>set mq. item_tag q = hlt_delivered (hlq_tags lq)"
    using \<open>drop D mq \<noteq> []\<close> dropWhile_eq_Nil_conv [of "\<lambda>q. item_tag q \<noteq> hlt_delivered (hlq_tags lq)" mq]
    unfolding ev(2) by blast
  ultimately have "m0_ha_lq_mark_delivered lq tag = Some ?lq"
    using lq_view_invariant [OF v] lq_view_invariant [OF v'] view_msg [OF v i tag] ev b ti
    by (simp add: m0_ha_lq_mark_delivered_def bind_M0_ASSERT_True Let_def)
  moreover have "lq_abs ?lq = spec_mark j (lq_abs lq)"
  proof -
    let ?b = "take (N - D) (drop D mq)"
    have pend: "map item_abs ?b = (map item_abs (drop D (take N (hlq_mq lq))))[j := (item_data (hlq_mq lq ! (D + j)), True)]"
      using i j N by (simp add: mq_def take_map [symmetric] drop_map [symmetric] flag_item_abs drop_take
          drop_update_swap take_update_swap)
    have nth: "fst (map item_abs (drop D (take N (hlq_mq lq))) ! j) = item_data (hlq_mq lq ! (D + j))"
      using i j N by simp
    have tw: "takeWhile is_delivered ?b = take k ?b" "dropWhile is_delivered ?b = drop k ?b"
      using takeWhile_prefix(2,3) [OF k_def] by simp_all
    have "take (D + k) mq = take D mq @ take k ?b" using k by (simp add: take_add min_absorb1)
    moreover have "map item_data (take D mq) = map item_data (take D (hlq_mq lq))"
      using flag_item_data [of "D + j" "hlq_mq lq"] by (metis mq_def take_map)
    moreover have "drop (D + k) (take N mq) = drop k ?b" by (simp add: drop_take add.commute)
    moreover have "map item_abs (drop N mq) = map item_abs (drop N (hlq_mq lq))"
      using j unfolding mq_def flag_item_def by (simp add: drop_update_cancel)
    ultimately show ?thesis
      using pend nth tw takeWhile_abs [of ?b]
      by (simp add: lq_abs_view [OF v'] lq_abs_view [OF v] spec_mark_def Let_def)
  qed
  ultimately show ?thesis using v' flag_item_data [of "D + j" "hlq_mq lq"] by (auto simp: lq_ok_def mq_def)
qed

section \<open>Runs of a link queue\<close>

text \<open>
  A queue is initialised, its tags are set, and then its users enqueue messages, take the next
  one, give the last one taken back, report one that has been handed out as delivered, and remove
  delivered ones. A run records the contents enqueued and the contents removed, in order. The
  assigned tag does not wrap: at a message per nanosecond that takes 292 years.
\<close>

inductive lq_run :: "m0_ha_lq \<Rightarrow> nat list \<Rightarrow> nat list \<Rightarrow> bool" where
  start: "\<lbrakk>m0_ha_lq_init = Some lq; m0_ha_lq_tags_set lq (m0_ha_link_tags_initial tag_even) = Some lq'\<rbrakk> \<Longrightarrow>
   lq_run lq' [] []"
| enqueue: "\<lbrakk>lq_run lq e d; unat (hlt_assign (hlq_tags lq)) + 2 < 2 ^ 64;
     hm_tag msg \<in> {M0_HA_MSG_TAG_UNKNOWN, hlt_assign (hlq_tags lq)};
     m0_ha_lq_enqueue True lq msg = Some (lq', tag)\<rbrakk> \<Longrightarrow> lq_run lq' (e @ [hm_data msg]) d"
| handed_out: "\<lbrakk>lq_run lq e d; m0_ha_lq_next lq = Some (lq', msg)\<rbrakk> \<Longrightarrow> lq_run lq' e d"
| unnext: "\<lbrakk>lq_run lq e d; m0_ha_lq_try_unnext lq = Some (lq', b)\<rbrakk> \<Longrightarrow> lq_run lq' e d"
| mark: "\<lbrakk>lq_run lq e d; m0_ha_lq_has_tag lq tag = Some True; hlt_delivered (hlq_tags lq) \<le> tag;
     tag < hlt_next (hlq_tags lq); m0_ha_lq_mark_delivered lq tag = Some lq'\<rbrakk> \<Longrightarrow> lq_run lq' e d"
| dequeue: "\<lbrakk>lq_run lq e d; m0_ha_lq_dequeue lq = Some (lq', tag); tag \<noteq> M0_HA_MSG_TAG_INVALID;
     m0_ha_lq_msg lq tag = Some (Some msg)\<rbrakk> \<Longrightarrow> lq_run lq' e (d @ [hm_data msg])"
| dequeue_none: "\<lbrakk>lq_run lq e d; m0_ha_lq_dequeue lq = Some (lq', M0_HA_MSG_TAG_INVALID)\<rbrakk> \<Longrightarrow> lq_run lq' e d"

lemma has_tag_view:
  assumes "lq_view lq c D N" "m0_ha_lq_has_tag lq tag = Some True"
    "hlt_delivered (hlq_tags lq) \<le> tag" "tag < hlt_next (hlq_tags lq)"
  shows "D + unat (tag - hlt_delivered (hlq_tags lq)) div 2 < N"
    "unat tag = c + 2 * (D + unat (tag - hlt_delivered (hlq_tags lq)) div 2)"
proof -
  have "tag mod 2 = hlt_confirmed (hlq_tags lq) mod 2"
    using assms(2) by (auto simp: m0_ha_lq_has_tag_def bind_M0_ASSERT_eq_Some)
  then have m: "unat tag mod 2 = c mod 2" using assms(1) by (simp add: lq_view_def word_unat_eq_iff unat_mod)
  have b: "c + 2 * D \<le> unat tag" "unat tag < c + 2 * N"
    using assms(1,3,4) by (simp_all add: lq_view_def word_le_nat_alt word_less_nat_alt)
  have s: "unat (tag - hlt_delivered (hlq_tags lq)) = unat tag - (c + 2 * D)"
    using assms(1,3) by (simp add: unat_sub_noof lq_view_def)
  from m have "even (unat tag) \<longleftrightarrow> even c" by (simp add: even_iff_mod_2_eq_zero)
  then have "even (unat tag - (c + 2 * D))" by (simp add: even_diff_nat)
  then obtain j where j: "unat tag - (c + 2 * D) = 2 * j" by (rule evenE)
  then have "unat tag = c + 2 * (D + j)" using b(1) by simp
  then show "D + unat (tag - hlt_delivered (hlq_tags lq)) div 2 < N"
    "unat tag = c + 2 * (D + unat (tag - hlt_delivered (hlq_tags lq)) div 2)"
    unfolding s j using b(2) by simp_all
qed

lemma dequeued_msg:
  assumes "lq_view lq c D N" "D \<noteq> 0"
  shows "item_tag (hd (hlq_mq lq)) \<noteq> M0_HA_MSG_TAG_INVALID"
    "m0_ha_lq_msg lq (item_tag (hd (hlq_mq lq))) = Some (Some (hmq_msg (hd (hlq_mq lq))))"
proof -
  have 0: "0 < length (hlq_mq lq)" using assms by (auto simp: lq_view_def)
  then have h: "hd (hlq_mq lq) = hlq_mq lq ! 0" by (simp add: hd_conv_nth)
  have t: "unat (item_tag (hlq_mq lq ! 0)) = c" using assms(1) 0 by (auto simp: lq_view_def)
  have "c + 2 * length (hlq_mq lq) < 2 ^ 64" using assms(1) by (simp add: lq_view_def)
  then have c: "c + 2 < 2 ^ 64" using 0 by linarith
  have "unat (- 1 :: u64) = 2 ^ 64 - 1" by (simp add: unsigned_minus_1_eq_mask mask_eq_exp_minus_1)
  then show "item_tag (hd (hlq_mq lq)) \<noteq> M0_HA_MSG_TAG_INVALID"
    using t c unfolding h M0_HA_MSG_TAG_INVALID_def by auto
  show "m0_ha_lq_msg lq (item_tag (hd (hlq_mq lq))) = Some (Some (hmq_msg (hd (hlq_mq lq))))"
    using view_msg [OF assms(1) 0] t unfolding h by simp
qed

lemma start_view:
  assumes "m0_ha_lq_init = Some lq" "m0_ha_lq_tags_set lq (m0_ha_link_tags_initial tag_even) = Some lq'"
  shows "\<exists>c. lq_view lq' c 0 0" "hlq_mq lq' = []"
proof -
  define t :: u64 where "t = (if tag_even then 2 else 1)"
  have t: "0 < t" "m0_ha_link_tags_initial tag_even = \<lparr>hlt_confirmed = t, hlt_delivered = t, hlt_next = t, hlt_assign = t\<rparr>"
    by (simp_all add: t_def m0_ha_link_tags_initial_def Let_def)
  have q: "hlq_mq lq = []" using assms(1) by (auto simp: m0_ha_lq_init_def m0_ha_msg_queue_init_def bind_M0_ASSERT_eq_Some Let_def)
  have "lq' = lq\<lparr>hlq_tags := \<lparr>hlt_confirmed = t, hlt_delivered = t, hlt_next = t, hlt_assign = t\<rparr>\<rparr>"
    using assms(2) t(2) by (auto simp: m0_ha_lq_tags_set_def bind_M0_ASSERT_eq_Some bind_eq_Some_conv split: if_splits)
  then have "lq_view lq' (unat t) 0 0" "hlq_mq lq' = []"
    using q t(1) unat_lt_u64 [of t] by (simp_all add: lq_view_def word_less_nat_alt)
  then show "\<exists>c. lq_view lq' c 0 0" "hlq_mq lq' = []" by blast+
qed

lemma lq_run_view:
  assumes "lq_run lq e d"
  shows "lq_ok lq \<and> e = d @ map item_data (hlq_mq lq)"
  using assms
proof induction
  case (start lq tag_even lq')
  then show ?case using start_view [OF start] by (auto simp: lq_ok_def)
next
  case (enqueue lq e d msg lq' tag)
  then obtain c D N where "lq_view lq c D N" by (auto simp: lq_ok_def)
  from enqueue_view [OF this enqueue.hyps(2,3)] enqueue.hyps(4) enqueue.IH show ?case by (auto simp: lq_ok_def)
next
  case (handed_out lq e d lq' msg)
  then obtain c D N where "lq_view lq c D N" by (auto simp: lq_ok_def)
  from next_view [OF this] handed_out.hyps(2) handed_out.IH show ?case by auto
next
  case (unnext lq e d lq' b)
  then obtain c D N where "lq_view lq c D N" by (auto simp: lq_ok_def)
  from unnext_view [OF this] unnext.hyps(2) unnext.IH show ?case by auto
next
  case (mark lq e d tag lq')
  then obtain c D N where v: "lq_view lq c D N" by (auto simp: lq_ok_def)
  from mark_view [OF v has_tag_view [OF v mark.hyps(2-4)]] mark.hyps(5) mark.IH show ?case by auto
next
  case (dequeue lq e d lq' tag msg)
  then obtain c D N where v: "lq_view lq c D N" by (auto simp: lq_ok_def)
  have D: "D \<noteq> 0" using dequeue_view [OF v] dequeue.hyps(2,3) by (cases "D = 0") auto
  from dequeue_view [OF v] D dequeue.hyps(2) have "lq_ok lq'" "hlq_mq lq \<noteq> []" "tag = item_tag (hd (hlq_mq lq))"
    "hlq_mq lq' = tl (hlq_mq lq)" by auto
  moreover from this have "msg = hmq_msg (hd (hlq_mq lq))" using dequeued_msg(2) [OF v D] dequeue.hyps(4) by simp
  ultimately show ?case using dequeue.IH by (cases "hlq_mq lq") (auto simp: item_data_def)
next
  case (dequeue_none lq e d lq')
  then obtain c D N where v: "lq_view lq c D N" by (auto simp: lq_ok_def)
  have "D = 0" using dequeue_view [OF v] dequeued_msg(1) [OF v] dequeue_none.hyps(2) by (cases "D = 0") auto
  then show ?case using dequeue_view [OF v] dequeue_none by auto
qed

definition spec_contents :: "lq_spec \<Rightarrow> nat list" where
  "spec_contents sp = sp_delivered sp @ map fst (sp_pending sp) @ map fst (sp_fresh sp)"

lemma spec_contents_view:
  assumes "lq_view lq c D N"
  shows "spec_contents (lq_abs lq) = map item_data (hlq_mq lq)"
proof -
  have "take D (hlq_mq lq) @ drop D (take N (hlq_mq lq)) @ drop N (hlq_mq lq) = hlq_mq lq"
    using assms append_take_drop_id [of D "take N (hlq_mq lq)"] append_take_drop_id [of N "hlq_mq lq"]
    by (simp add: lq_view_def min_absorb1 flip: append_assoc)
  then have "map item_data (take D (hlq_mq lq) @ drop D (take N (hlq_mq lq)) @ drop N (hlq_mq lq)) = map item_data (hlq_mq lq)"
    by simp
  then show ?thesis by (simp add: lq_abs_view [OF assms] spec_contents_def comp_def)
qed

section \<open>Properties\<close>

text \<open>C9. A link queue behaves as the abstract queue of three lists: on a queue that its users have reached, none of
  enqueuing (while the assigned tag does not wrap), taking the next message, giving one back, reporting one that has
  been handed out as delivered, and removing a delivered one fails an assertion, and each changes the contents and
  returns what the abstract operation does.\<close>

theorem ha_lq_refines:
  assumes "lq_run lq e d"
  shows "(\<forall>msg. unat (hlt_assign (hlq_tags lq)) + 2 < 2 ^ 64 \<and> hm_tag msg = M0_HA_MSG_TAG_UNKNOWN \<longrightarrow>
      (\<exists>lq'. m0_ha_lq_enqueue True lq msg = Some (lq', hlt_assign (hlq_tags lq)) \<and>
         lq_abs lq' = spec_enqueue (hm_data msg) (lq_abs lq))) \<and>
    (\<exists>lq' msg. m0_ha_lq_next lq = Some (lq', msg) \<and> (lq_abs lq', map_option hm_data msg) = spec_next (lq_abs lq)) \<and>
    (\<exists>lq' b. m0_ha_lq_try_unnext lq = Some (lq', b) \<and> (lq_abs lq', b) = spec_unnext (lq_abs lq)) \<and>
    (\<forall>tag. m0_ha_lq_has_tag lq tag = Some True \<and> hlt_delivered (hlq_tags lq) \<le> tag \<and> tag < hlt_next (hlq_tags lq) \<longrightarrow>
      (\<exists>lq'. m0_ha_lq_mark_delivered lq tag = Some lq' \<and>
         lq_abs lq' = spec_mark (unat (tag - hlt_delivered (hlq_tags lq)) div 2) (lq_abs lq))) \<and>
    (\<exists>lq' tag. m0_ha_lq_dequeue lq = Some (lq', tag) \<and>
      (lq_abs lq', if tag = M0_HA_MSG_TAG_INVALID then None else Some (item_data (hd (hlq_mq lq)))) = spec_dequeue (lq_abs lq))"
proof -
  from lq_run_view [OF assms] obtain c D N where v: "lq_view lq c D N" by (auto simp: lq_ok_def)
  have enq: "\<exists>lq'. m0_ha_lq_enqueue True lq msg = Some (lq', hlt_assign (hlq_tags lq)) \<and>
         lq_abs lq' = spec_enqueue (hm_data msg) (lq_abs lq)"
    if "unat (hlt_assign (hlq_tags lq)) + 2 < 2 ^ 64" "hm_tag msg = M0_HA_MSG_TAG_UNKNOWN" for msg
    using enqueue_view [OF v that(1), of msg] that(2) by blast
  have mark: "\<exists>lq'. m0_ha_lq_mark_delivered lq tag = Some lq' \<and>
         lq_abs lq' = spec_mark (unat (tag - hlt_delivered (hlq_tags lq)) div 2) (lq_abs lq)"
    if "m0_ha_lq_has_tag lq tag = Some True" "hlt_delivered (hlq_tags lq) \<le> tag" "tag < hlt_next (hlq_tags lq)" for tag
    using mark_view [OF v has_tag_view [OF v that]] by blast
  have deq: "\<exists>lq' tag. m0_ha_lq_dequeue lq = Some (lq', tag) \<and>
      (lq_abs lq', if tag = M0_HA_MSG_TAG_INVALID then None else Some (item_data (hd (hlq_mq lq)))) = spec_dequeue (lq_abs lq)"
    using dequeue_view [OF v] dequeued_msg(1) [OF v] by (cases "D = 0") auto
  show ?thesis using enq next_view [OF v] unnext_view [OF v] mark deq by blast
qed

text \<open>C10. A link queue loses, duplicates and reorders nothing: at every moment the messages enqueued so far are, in
  order, those removed followed by those the queue holds.\<close>

theorem ha_lq_fifo:
  assumes "lq_run lq e d"
  shows "e = d @ spec_contents (lq_abs lq)"
  using lq_run_view [OF assms] spec_contents_view by (auto simp: lq_ok_def)

section \<open>Witnesses\<close>

definition tags_of :: "u64 \<Rightarrow> u64 \<Rightarrow> u64 \<Rightarrow> u64 \<Rightarrow> m0_ha_link_tags" where
  "tags_of c d n a = \<lparr>hlt_confirmed = c, hlt_delivered = d, hlt_next = n, hlt_assign = a\<rparr>"

definition item_of :: "u64 \<Rightarrow> nat \<Rightarrow> m0_ha_msg_qitem_delivery_state \<Rightarrow> m0_ha_msg_qitem" where
  "item_of tag x st = \<lparr>hmq_msg = \<lparr>hm_tag = tag, hm_data = x\<rparr>, hmq_delivery_state = st\<rparr>"

text \<open>Two messages are enqueued and handed out, the second is reported as delivered first, then the first.\<close>

definition lq_run_state :: m0_ha_lq where
  "lq_run_state = \<lparr>hlq_mq = [item_of 1 7 M0_HA_MSG_QITEM_DELIVERED, item_of 3 8 M0_HA_MSG_QITEM_DELIVERED],
     hlq_tags = tags_of 1 5 5 5\<rparr>"

lemma lq_run_example: "lq_run lq_run_state [7, 8] []"
proof -
  note defs = m0_ha_lq_init_def m0_ha_lq_tags_set_def m0_ha_lq_enqueue_def m0_ha_lq_next_def m0_ha_lq_has_tag_def
    m0_ha_lq_mark_delivered_def m0_ha_lq_msg_def m0_ha_msg_queue_find_def m0_ha_msg_queue_enqueue_def
    m0_ha_msg_queue_alloc_def m0_ha_msg_queue_init_def m0_ha_lq_invariant_def ha_lq_tags_invariant_def
    m0_ha_msg_tag_def M0_HA_MSG_TAG_UNKNOWN_def tags_of_def item_of_def bind_M0_ASSERT_True Let_def
  let ?n = "M0_HA_MSG_QITEM_NOT_DELIVERED" and ?d = "M0_HA_MSG_QITEM_DELIVERED"
  have a: "lq_run \<lparr>hlq_mq = [], hlq_tags = tags_of 1 1 1 1\<rparr> [] []"
    by (rule start [of "\<lparr>hlq_mq = [], hlq_tags = tags_of 0 0 0 0\<rparr>" False]) (simp_all add: defs m0_ha_link_tags_initial_def)
  have b: "lq_run \<lparr>hlq_mq = [item_of 1 7 ?n], hlq_tags = tags_of 1 1 1 3\<rparr> ([] @ [hm_data \<lparr>hm_tag = 0, hm_data = 7\<rparr>]) []"
    by (rule enqueue [OF a, where tag = 1]) (simp_all add: defs)
  have c: "lq_run \<lparr>hlq_mq = [item_of 1 7 ?n, item_of 3 8 ?n], hlq_tags = tags_of 1 1 1 5\<rparr>
      (([] @ [hm_data \<lparr>hm_tag = 0, hm_data = 7\<rparr>]) @ [hm_data \<lparr>hm_tag = 0, hm_data = 8\<rparr>]) []"
    by (rule enqueue [OF b, where tag = 3]) (simp_all add: defs)
  have f: "lq_run \<lparr>hlq_mq = [item_of 1 7 ?n, item_of 3 8 ?n], hlq_tags = tags_of 1 1 3 5\<rparr> [7, 8] []"
    by (rule handed_out [OF c [simplified], where msg = "Some (hmq_msg (item_of 1 7 ?n))"]) (simp_all add: defs)
  have g: "lq_run \<lparr>hlq_mq = [item_of 1 7 ?n, item_of 3 8 ?n], hlq_tags = tags_of 1 1 5 5\<rparr> [7, 8] []"
    by (rule handed_out [OF f, where msg = "Some (hmq_msg (item_of 3 8 ?n))"]) (simp_all add: defs)
  have h: "lq_run \<lparr>hlq_mq = [item_of 1 7 ?n, item_of 3 8 ?d], hlq_tags = tags_of 1 1 5 5\<rparr> [7, 8] []"
    by (rule mark [OF g, where tag = 3]) (simp_all add: defs)
  show ?thesis
    unfolding lq_run_state_def by (rule mark [OF h, where tag = 1]) (simp_all add: defs)
qed

theorem ha_lq_refines_witness:
  "\<exists>lq' tag. m0_ha_lq_dequeue lq_run_state = Some (lq', tag) \<and>
      (lq_abs lq', if tag = M0_HA_MSG_TAG_INVALID then None else Some (item_data (hd (hlq_mq lq_run_state)))) =
      spec_dequeue (lq_abs lq_run_state)"
  using ha_lq_refines [OF lq_run_example] by blast

theorem ha_lq_fifo_witness:
  "[7, 8] = [] @ spec_contents (lq_abs lq_run_state)"
  by (rule ha_lq_fifo [OF lq_run_example])

end
