(* ===== verification/Motr_Regmap.thy ===== *)
theory Motr_Regmap
  imports Motr_Vec Motr_Ext
begin

text \<open>
  The memory regions captured by a transaction of the meta-data back-end, after
  \<^verbatim>\<open>src/be/tx_regmap.c\<close>, \<^verbatim>\<open>src/be/tx_regmap.h\<close> and \<^verbatim>\<open>src/be/tx_credit.c\<close>: the ordered array of
  disjoint regions (\<^verbatim>\<open>m0_be_reg_d_tree\<close>), the map of regions on top of it, the area that owns the
  copies of the captured bytes and checks the credit of the transaction, and the merger of the
  areas of several transactions.

  Addresses are 64-bit words and memory is a function from addresses to bytes; the state that the
  callbacks of a region map reach through their \<^verbatim>\<open>data\<close> argument is passed and returned. A pointer to a region of
  the array is its index, and \<^verbatim>\<open>NULL\<close> is \<^term>\<open>None\<close>. Array sizes (\<^verbatim>\<open>size_t\<close>) are natural numbers, the
  array itself is a list of \<^verbatim>\<open>brt_size_max\<close> regions of which the first \<^verbatim>\<open>brt_size\<close> are meaningful.
\<close>

section \<open>Model\<close>

subsection \<open>Credits\<close>

definition M0_BE_CU_NR :: nat where
  "M0_BE_CU_NR = 5"

record m0_be_tx_credit =
  tc_reg_nr :: u64
  tc_reg_size :: u64
  tc_cb_nr :: u64
  tc_balance :: "u32 list"

definition M0_BE_TX_CB_CREDIT :: "u64 \<Rightarrow> u64 \<Rightarrow> u64 \<Rightarrow> m0_be_tx_credit" where
  "M0_BE_TX_CB_CREDIT nr sz cb_nr =
     \<lparr>tc_reg_nr = nr, tc_reg_size = sz, tc_cb_nr = cb_nr, tc_balance = replicate M0_BE_CU_NR 0\<rparr>"

definition M0_BE_TX_CREDIT :: "u64 \<Rightarrow> u64 \<Rightarrow> m0_be_tx_credit" where
  "M0_BE_TX_CREDIT nr sz = M0_BE_TX_CB_CREDIT nr sz 0"

definition m0_be_tx_credit_add :: "m0_be_tx_credit \<Rightarrow> m0_be_tx_credit \<Rightarrow> m0_be_tx_credit" where
  "m0_be_tx_credit_add c0 c1 =
     \<lparr>tc_reg_nr = tc_reg_nr c0 + tc_reg_nr c1, tc_reg_size = tc_reg_size c0 + tc_reg_size c1,
      tc_cb_nr = tc_cb_nr c0 + tc_cb_nr c1, tc_balance = map2 (+) (tc_balance c0) (tc_balance c1)\<rparr>"

definition m0_be_tx_credit_sub :: "m0_be_tx_credit \<Rightarrow> m0_be_tx_credit \<Rightarrow> m0_be_tx_credit option" where
  "m0_be_tx_credit_sub c0 c1 = do {
     M0_ASSERT (tc_reg_nr c0 \<ge> tc_reg_nr c1);
     M0_ASSERT (tc_reg_size c0 \<ge> tc_reg_size c1);
     M0_ASSERT (list_all2 (\<ge>) (tc_balance c0) (tc_balance c1));
     Some \<lparr>tc_reg_nr = tc_reg_nr c0 - tc_reg_nr c1, tc_reg_size = tc_reg_size c0 - tc_reg_size c1,
           tc_cb_nr = tc_cb_nr c0 - tc_cb_nr c1, tc_balance = map2 (-) (tc_balance c0) (tc_balance c1)\<rparr>
   }"

definition m0_be_tx_credit_mul :: "m0_be_tx_credit \<Rightarrow> u64 \<Rightarrow> m0_be_tx_credit" where
  "m0_be_tx_credit_mul c k =
     \<lparr>tc_reg_nr = tc_reg_nr c * k, tc_reg_size = tc_reg_size c * k, tc_cb_nr = tc_cb_nr c * k,
      tc_balance = map (\<lambda>b. ucast (ucast b * k)) (tc_balance c)\<rparr>"

text \<open>The product of a 64-bit number and an \<^verbatim>\<open>unsigned\<close> is a 64-bit number.\<close>

definition m0_be_tx_credit_mul_bp :: "m0_be_tx_credit \<Rightarrow> u32 \<Rightarrow> m0_be_tx_credit" where
  "m0_be_tx_credit_mul_bp c bp = c
     \<lparr>tc_reg_nr := tc_reg_nr c * ucast bp div 10000, tc_reg_size := tc_reg_size c * ucast bp div 10000,
      tc_cb_nr := tc_cb_nr c * ucast bp div 10000\<rparr>"

definition m0_be_tx_credit_mac :: "m0_be_tx_credit \<Rightarrow> m0_be_tx_credit \<Rightarrow> u64 \<Rightarrow> m0_be_tx_credit" where
  "m0_be_tx_credit_mac c c1 k = m0_be_tx_credit_add c (m0_be_tx_credit_mul c1 k)"

definition m0_be_tx_credit_le :: "m0_be_tx_credit \<Rightarrow> m0_be_tx_credit \<Rightarrow> bool" where
  "m0_be_tx_credit_le c0 c1 \<longleftrightarrow> tc_reg_nr c0 \<le> tc_reg_nr c1 \<and> tc_reg_size c0 \<le> tc_reg_size c1"

definition m0_be_tx_credit_eq :: "m0_be_tx_credit \<Rightarrow> m0_be_tx_credit \<Rightarrow> bool" where
  "m0_be_tx_credit_eq c0 c1 \<longleftrightarrow> tc_reg_nr c0 = tc_reg_nr c1 \<and> tc_reg_size c0 = tc_reg_size c1"

definition m0_be_tx_credit_max :: "m0_be_tx_credit \<Rightarrow> m0_be_tx_credit \<Rightarrow> m0_be_tx_credit" where
  "m0_be_tx_credit_max c0 c1 =
     M0_BE_TX_CB_CREDIT (max (tc_reg_nr c0) (tc_reg_nr c1)) (max (tc_reg_size c0) (tc_reg_size c1))
       (max (tc_cb_nr c0) (tc_cb_nr c1))"

definition m0_be_tx_credit_add_max :: "m0_be_tx_credit \<Rightarrow> m0_be_tx_credit \<Rightarrow> m0_be_tx_credit \<Rightarrow> m0_be_tx_credit" where
  "m0_be_tx_credit_add_max c c0 c1 = m0_be_tx_credit_add c (m0_be_tx_credit_max c0 c1)"

subsection \<open>Regions\<close>

record m0_be_reg =
  br_seg :: u64
  br_size :: u64
  br_addr :: u64

record m0_be_reg_d =
  rd_reg :: m0_be_reg
  rd_buf :: u64
  rd_gen_idx :: u64

definition m0_be_reg_eq :: "m0_be_reg \<Rightarrow> m0_be_reg \<Rightarrow> bool" where
  "m0_be_reg_eq r1 r2 \<longleftrightarrow> br_seg r1 = br_seg r2 \<and> br_size r1 = br_size r2 \<and> br_addr r1 = br_addr r2"

definition M0_BE_REG_D_CREDIT :: "m0_be_reg_d \<Rightarrow> m0_be_tx_credit" where
  "M0_BE_REG_D_CREDIT rd = M0_BE_TX_CREDIT 1 (br_size (rd_reg rd))"

definition REGD_EXT :: "m0_be_reg_d \<Rightarrow> m0_ext" where
  "REGD_EXT rd = \<lparr>e_start = br_addr (rd_reg rd), e_end = br_addr (rd_reg rd) + br_size (rd_reg rd)\<rparr>"

definition m0_be_reg_d__invariant :: "m0_be_reg_d \<Rightarrow> bool" where
  "m0_be_reg_d__invariant rd \<longleftrightarrow> br_addr (rd_reg rd) \<noteq> 0 \<and> br_size (rd_reg rd) > 0"

definition m0_be_reg_d_is_in :: "m0_be_reg_d \<Rightarrow> u64 \<Rightarrow> bool" where
  "m0_be_reg_d_is_in rd ptr = m0_ext_is_in (REGD_EXT rd) ptr"

definition be_reg_d_are_overlapping :: "m0_be_reg_d \<Rightarrow> m0_be_reg_d \<Rightarrow> bool" where
  "be_reg_d_are_overlapping rd1 rd2 = m0_ext_are_overlapping (REGD_EXT rd1) (REGD_EXT rd2)"

definition be_reg_d_is_partof :: "m0_be_reg_d \<Rightarrow> m0_be_reg_d \<Rightarrow> bool" where
  "be_reg_d_is_partof super sub = m0_ext_is_partof (REGD_EXT super) (REGD_EXT sub)"

definition be_reg_d_fb :: "m0_be_reg_d \<Rightarrow> u64" where
  "be_reg_d_fb rd = br_addr (rd_reg rd)"

definition be_reg_d_fb1 :: "m0_be_reg_d \<Rightarrow> u64" where
  "be_reg_d_fb1 rd = be_reg_d_fb rd - 1"

definition be_reg_d_lb :: "m0_be_reg_d \<Rightarrow> u64" where
  "be_reg_d_lb rd = br_addr (rd_reg rd) + br_size (rd_reg rd) - 1"

definition be_reg_d_lb1 :: "m0_be_reg_d \<Rightarrow> u64" where
  "be_reg_d_lb1 rd = be_reg_d_lb rd + 1"

definition be_reg_d_size :: "m0_be_reg_d \<Rightarrow> u64" where
  "be_reg_d_size rd = br_size (rd_reg rd)"

definition be_reg_d_sub_make :: "m0_be_reg_d \<Rightarrow> m0_be_reg_d \<Rightarrow> m0_be_reg_d option" where
  "be_reg_d_sub_make super sub = do {
     M0_ASSERT (be_reg_d_is_partof super sub);
     Some \<lparr>rd_reg = (rd_reg sub)\<lparr>br_seg := br_seg (rd_reg super)\<rparr>,
           rd_buf = rd_buf super + (be_reg_d_fb sub - be_reg_d_fb super),
           rd_gen_idx = rd_gen_idx super\<rparr>
   }"

text \<open>The array of two addresses is a pair.\<close>

definition be_reg_d_arr_insert2 :: "u64 \<times> u64 \<Rightarrow> u64 \<Rightarrow> (u64 \<times> u64) option" where
  "be_reg_d_arr_insert2 arr v = do {
     M0_ASSERT (fst arr \<noteq> 0 \<and> snd arr \<noteq> 0);
     Some (if v < fst arr then (v, fst arr)
           else if fst arr < v \<and> v < snd arr then (fst arr, v)
           else arr)
   }"

fun first_subreg_loop :: "u64 \<Rightarrow> m0_be_reg_d option list \<Rightarrow> u64 \<times> u64 \<Rightarrow> (u64 \<times> u64) option" where
  "first_subreg_loop start [] arr = Some arr"
| "first_subreg_loop start (None # rds) arr = first_subreg_loop start rds arr"
| "first_subreg_loop start (Some rd # rds) arr = do {
     let lb1 = be_reg_d_lb1 rd;
     let fb = max (be_reg_d_fb rd) start;
     M0_ASSERT (fb < lb1);
     arr \<leftarrow> (if fst arr = 0 \<and> snd arr = 0 then Some (fb, lb1)
            else do { arr \<leftarrow> be_reg_d_arr_insert2 arr fb; be_reg_d_arr_insert2 arr lb1 });
     first_subreg_loop start rds arr
   }"

definition be_reg_d_arr_first_subreg :: "m0_be_reg_d option list \<Rightarrow> u64 \<Rightarrow> (u64 \<times> u64) option" where
  "be_reg_d_arr_first_subreg rd_arr start = do {
     arr \<leftarrow> first_subreg_loop start rd_arr (0, 0);
     M0_ASSERT (fst arr \<noteq> 0 \<and> snd arr \<noteq> 0);
     M0_ASSERT (fst arr \<noteq> snd arr);
     Some (fst arr, snd arr - fst arr)
   }"

subsection \<open>The array of regions\<close>

record m0_be_reg_d_tree =
  brt_size :: nat
  brt_size_max :: nat
  brt_r :: "m0_be_reg_d list"

definition be_rdt_contains :: "m0_be_reg_d_tree \<Rightarrow> nat \<Rightarrow> bool" where
  "be_rdt_contains rdt rd \<longleftrightarrow> rd < brt_size rdt"

definition m0_be_rdt__invariant :: "m0_be_reg_d_tree \<Rightarrow> bool" where
  "m0_be_rdt__invariant rdt \<longleftrightarrow>
     (brt_r rdt \<noteq> [] \<or> brt_size rdt = 0) \<and>
     brt_size rdt \<le> brt_size_max rdt \<and>
     (\<forall>i \<in> set [0..<brt_size rdt]. m0_be_reg_d__invariant (brt_r rdt ! i)) \<and>
     (\<forall>i \<in> set [0..<brt_size rdt - 1]. br_addr (rd_reg (brt_r rdt ! i)) < br_addr (rd_reg (brt_r rdt ! (i + 1)))) \<and>
     (\<forall>i \<in> set [0..<brt_size rdt - 1]. \<not> be_reg_d_are_overlapping (brt_r rdt ! i) (brt_r rdt ! (i + 1)))"

text \<open>The allocation returns an array with arbitrary contents, or fails.\<close>

definition m0_be_rdt_init :: "m0_be_reg_d list option \<Rightarrow> m0_be_reg_d_tree \<Rightarrow> nat \<Rightarrow> (int \<times> m0_be_reg_d_tree) option" where
  "m0_be_rdt_init alloc rdt size_max =
     (let rdt = rdt\<lparr>brt_size_max := size_max\<rparr>
      in case alloc of
           None \<Rightarrow> Some (- ENOMEM, rdt)
         | Some r \<Rightarrow> do {
             let rdt = rdt\<lparr>brt_r := r\<rparr>;
             M0_ASSERT (m0_be_rdt__invariant rdt);
             Some (0, rdt)
           })"

definition m0_be_rdt_fini :: "m0_be_reg_d_tree \<Rightarrow> unit option" where
  "m0_be_rdt_fini rdt = M0_ASSERT (m0_be_rdt__invariant rdt)"

definition m0_be_rdt_size :: "m0_be_reg_d_tree \<Rightarrow> nat" where
  "m0_be_rdt_size rdt = brt_size rdt"

definition be_rdt_check_i :: "m0_be_reg_d_tree \<Rightarrow> u64 \<Rightarrow> nat \<Rightarrow> bool" where
  "be_rdt_check_i rdt addr index \<longleftrightarrow>
     (let r = brt_r rdt; sz = m0_be_rdt_size rdt
      in (sz = 0 \<and> index = 0) \<or>
         (sz \<noteq> 0 \<and>
          ((index = sz \<and> \<not> m0_be_reg_d_is_in (r ! (sz - 1)) addr \<and> addr > br_addr (rd_reg (r ! (sz - 1)))) \<or>
           (index = 0 \<and> (m0_be_reg_d_is_in (r ! 0) addr \<or> addr < br_addr (rd_reg (r ! 0)))) \<or>
           (index < sz \<and> m0_be_reg_d_is_in (r ! index) addr) \<or>
           (index < sz \<and> index > 0 \<and> \<not> m0_be_reg_d_is_in (r ! (index - 1)) addr \<and>
            addr < br_addr (rd_reg (r ! index)) \<and> addr > br_addr (rd_reg (r ! (index - 1)))))))"

text \<open>The binary search: the values of \<^verbatim>\<open>begin\<close> and \<^verbatim>\<open>end\<close> when its loop stops.\<close>

function find_i_loop :: "m0_be_reg_d list \<Rightarrow> u64 \<Rightarrow> nat \<Rightarrow> nat \<Rightarrow> (nat \<times> nat) option" where
  "find_i_loop r addr b e =
     (if b + 1 < e then
        let mid = (b + e) div 2
        in do {
          M0_ASSERT (mid > b \<and> mid < e);
          if br_addr (rd_reg (r ! mid)) < addr then find_i_loop r addr mid e
          else find_i_loop r addr b mid
        }
      else Some (b, e))"
  by pat_completeness auto
termination
  by (relation "measure (\<lambda>(r, addr, b, e). e - b)") auto

definition be_rdt_find_i :: "m0_be_reg_d_tree \<Rightarrow> u64 \<Rightarrow> nat option" where
  "be_rdt_find_i rdt addr = do {
     let sz = m0_be_rdt_size rdt;
     (b, e) \<leftarrow> find_i_loop (brt_r rdt) addr 0 sz;
     let res = sz + 1;
     let res = (if be_rdt_check_i rdt addr b then b else res);
     let res = (if be_rdt_check_i rdt addr e then e else res);
     M0_ASSERT (sz = 0 \<or> res \<le> sz);
     M0_ASSERT (m0_be_rdt__invariant rdt);
     M0_ASSERT (be_rdt_check_i rdt addr res);
     Some res
   }"

definition m0_be_rdt_find :: "m0_be_reg_d_tree \<Rightarrow> u64 \<Rightarrow> nat option option" where
  "m0_be_rdt_find rdt addr = do {
     M0_ASSERT (m0_be_rdt__invariant rdt);
     i \<leftarrow> be_rdt_find_i rdt addr;
     let rd = (if i = brt_size rdt then None else Some i);
     M0_ASSERT (rd \<noteq> None \<longrightarrow> be_rdt_contains rdt (the rd));
     Some rd
   }"

definition m0_be_rdt_next :: "m0_be_reg_d_tree \<Rightarrow> nat \<Rightarrow> nat option option" where
  "m0_be_rdt_next rdt prev = do {
     M0_ASSERT (m0_be_rdt__invariant rdt);
     M0_ASSERT (be_rdt_contains rdt prev);
     let rd = (if prev = brt_size rdt - 1 then None else Some (prev + 1));
     M0_ASSERT (rd \<noteq> None \<longrightarrow> be_rdt_contains rdt (the rd));
     Some rd
   }"

fun ins_loop :: "m0_be_reg_d list \<Rightarrow> nat \<Rightarrow> nat \<Rightarrow> m0_be_reg_d list" where
  "ins_loop r 0 index = r"
| "ins_loop r (Suc i) index = (if Suc i > index then ins_loop (r[Suc i := r ! i]) i index else r)"

definition m0_be_rdt_ins :: "m0_be_reg_d_tree \<Rightarrow> m0_be_reg_d \<Rightarrow> m0_be_reg_d_tree option" where
  "m0_be_rdt_ins rdt rd = do {
     M0_ASSERT (m0_be_rdt__invariant rdt);
     M0_ASSERT (m0_be_rdt_size rdt < brt_size_max rdt);
     M0_ASSERT (br_size (rd_reg rd) > 0);
     index \<leftarrow> be_rdt_find_i rdt (be_reg_d_fb rd);
     let sz = brt_size rdt + 1;
     let r = ins_loop (brt_r rdt) (sz - 1) index;
     let rdt = rdt\<lparr>brt_size := sz, brt_r := r[index := rd]\<rparr>;
     M0_ASSERT (m0_be_rdt__invariant rdt);
     Some rdt
   }"

function del_loop :: "m0_be_reg_d list \<Rightarrow> nat \<Rightarrow> nat \<Rightarrow> m0_be_reg_d list" where
  "del_loop r sz i = (if i + 1 < sz then del_loop (r[i := r ! (i + 1)]) sz (i + 1) else r)"
  by pat_completeness auto
termination
  by (relation "measure (\<lambda>(r, sz, i). sz - i)") auto

definition m0_be_rdt_del :: "m0_be_reg_d_tree \<Rightarrow> m0_be_reg_d \<Rightarrow> (m0_be_reg_d_tree \<times> nat option) option" where
  "m0_be_rdt_del rdt rd = do {
     M0_ASSERT (m0_be_rdt__invariant rdt);
     M0_ASSERT (m0_be_rdt_size rdt > 0);
     index \<leftarrow> be_rdt_find_i rdt (be_reg_d_fb rd);
     M0_ASSERT (m0_be_reg_eq (rd_reg (brt_r rdt ! index)) (rd_reg rd));
     let rdt = rdt\<lparr>brt_r := del_loop (brt_r rdt) (brt_size rdt) index, brt_size := brt_size rdt - 1\<rparr>;
     M0_ASSERT (m0_be_rdt__invariant rdt);
     Some (rdt, if index = m0_be_rdt_size rdt then None else Some index)
   }"

definition m0_be_rdt_reset :: "m0_be_reg_d_tree \<Rightarrow> m0_be_reg_d_tree option" where
  "m0_be_rdt_reset rdt = do {
     M0_ASSERT (m0_be_rdt__invariant rdt);
     let rdt = rdt\<lparr>brt_size := 0\<rparr>;
     M0_ASSERT (m0_be_rdt_size rdt = 0);
     M0_ASSERT (m0_be_rdt__invariant rdt);
     Some rdt
   }"

subsection \<open>The map of regions\<close>

text \<open>A callback gets and returns the state behind the \<^verbatim>\<open>data\<close> pointer, and the region it may change.\<close>

record 'd m0_be_regmap_ops =
  rmo_add :: "'d \<Rightarrow> m0_be_reg_d \<Rightarrow> ('d \<times> m0_be_reg_d) option"
  rmo_del :: "'d \<Rightarrow> m0_be_reg_d \<Rightarrow> 'd option"
  rmo_cpy :: "'d \<Rightarrow> m0_be_reg_d \<Rightarrow> m0_be_reg_d \<Rightarrow> 'd option"
  rmo_cut :: "'d \<Rightarrow> m0_be_reg_d \<Rightarrow> u64 \<Rightarrow> u64 \<Rightarrow> ('d \<times> m0_be_reg_d) option"
  rmo_split :: "'d \<Rightarrow> m0_be_reg_d \<Rightarrow> m0_be_reg_d \<Rightarrow> ('d \<times> m0_be_reg_d) option"

record 'd m0_be_regmap =
  br_rdt :: m0_be_reg_d_tree
  br_ops :: "'d m0_be_regmap_ops"
  br_split_on_absorb :: bool

definition m0_be_regmap__invariant :: "'d m0_be_regmap \<Rightarrow> bool" where
  "m0_be_regmap__invariant rm = m0_be_rdt__invariant (br_rdt rm)"

definition m0_be_regmap_init ::
  "m0_be_reg_d list option \<Rightarrow> 'd m0_be_regmap \<Rightarrow> 'd m0_be_regmap_ops \<Rightarrow> nat \<Rightarrow> bool \<Rightarrow> (int \<times> 'd m0_be_regmap) option" where
  "m0_be_regmap_init alloc rm ops size_max split_on_absorb = do {
     (rc, rdt) \<leftarrow> m0_be_rdt_init alloc (br_rdt rm) size_max;
     let rm = \<lparr>br_rdt = rdt, br_ops = ops, br_split_on_absorb = split_on_absorb\<rparr>;
     M0_ASSERT (rc = 0 \<longrightarrow> m0_be_regmap__invariant rm);
     Some (rc, rm)
   }"

definition m0_be_regmap_fini :: "'d m0_be_regmap \<Rightarrow> unit option" where
  "m0_be_regmap_fini rm = do {
     M0_ASSERT (m0_be_regmap__invariant rm);
     m0_be_rdt_fini (br_rdt rm)
   }"

definition be_regmap_find_fb :: "'d m0_be_regmap \<Rightarrow> m0_be_reg_d \<Rightarrow> nat option option" where
  "be_regmap_find_fb rm rd = m0_be_rdt_find (br_rdt rm) (be_reg_d_fb rd)"

text \<open>The region at an index, and an assignment to it.\<close>

abbreviation reg_at :: "'d m0_be_regmap \<Rightarrow> nat \<Rightarrow> m0_be_reg_d" where
  "reg_at rm i \<equiv> brt_r (br_rdt rm) ! i"

definition reg_put :: "'d m0_be_regmap \<Rightarrow> nat \<Rightarrow> m0_be_reg_d \<Rightarrow> 'd m0_be_regmap" where
  "reg_put rm i rd = rm\<lparr>br_rdt := (br_rdt rm)\<lparr>brt_r := (brt_r (br_rdt rm))[i := rd]\<rparr>\<rparr>"

definition be_regmap_reg_d_cut ::
  "'d m0_be_regmap \<Rightarrow> 'd \<Rightarrow> nat \<Rightarrow> u64 \<Rightarrow> u64 \<Rightarrow> ('d m0_be_regmap \<times> 'd) option" where
  "be_regmap_reg_d_cut rm d i cut_start cut_end = do {
     let rd = reg_at rm i;
     M0_ASSERT (m0_be_reg_d__invariant rd);
     M0_ASSERT (br_size (rd_reg rd) > cut_start + cut_end);
     (d, rd) \<leftarrow> rmo_cut (br_ops rm) d rd cut_start cut_end;
     let r = rd_reg rd;
     let r = r\<lparr>br_size := br_size r - cut_start, br_addr := br_addr r + cut_start\<rparr>;
     let r = r\<lparr>br_size := br_size r - cut_end\<rparr>;
     let rd = rd\<lparr>rd_reg := r\<rparr>;
     M0_ASSERT (m0_be_reg_d__invariant rd);
     Some (reg_put rm i rd, d)
   }"

text \<open>The fields of \<^verbatim>\<open>rd_new\<close> that are not assigned before the callback are indeterminate; the model has zeroes.\<close>

definition be_regmap_reg_d_split ::
  "'d m0_be_regmap \<Rightarrow> 'd \<Rightarrow> nat \<Rightarrow> m0_be_reg_d \<Rightarrow> ('d m0_be_regmap \<times> 'd \<times> m0_be_reg_d) option" where
  "be_regmap_reg_d_split rm d i rd = do {
     let rdi = reg_at rm i;
     let rdi_before_rd = be_reg_d_fb rd - be_reg_d_fb rdi;
     let rdi_after_rd = be_reg_d_lb1 rdi - be_reg_d_lb1 rd;
     M0_ASSERT (rdi_before_rd > 0 \<and> rdi_after_rd > 0);
     let rd_new = \<lparr>rd_reg = \<lparr>br_seg = 0, br_size = rdi_after_rd, br_addr = be_reg_d_lb1 rd\<rparr>, rd_buf = 0, rd_gen_idx = 0\<rparr>;
     (rm, d) \<leftarrow> be_regmap_reg_d_cut rm d i 0 rdi_after_rd;
     (d, rd_new) \<leftarrow> rmo_split (br_ops rm) d (reg_at rm i) rd_new;
     Some (rm, d, rd_new)
   }"

text \<open>Deletion of the regions that lie in the given one, from an index on.\<close>

partial_function (option) regmap_del_loop ::
  "'d m0_be_regmap \<Rightarrow> 'd \<Rightarrow> m0_be_reg_d \<Rightarrow> nat option \<Rightarrow> ('d m0_be_regmap \<times> 'd \<times> nat option) option" where
  "regmap_del_loop rm d rd rdi =
     (case rdi of
        None \<Rightarrow> Some (rm, d, None)
      | Some i \<Rightarrow>
          if be_reg_d_is_partof rd (reg_at rm i) then do {
            d \<leftarrow> rmo_del (br_ops rm) d (reg_at rm i);
            (rdt, rdi) \<leftarrow> m0_be_rdt_del (br_rdt rm) (reg_at rm i);
            regmap_del_loop (rm\<lparr>br_rdt := rdt\<rparr>) d rd rdi
          } else Some (rm, d, Some i))"

declare regmap_del_loop.simps [simp del]

text \<open>The first intersection, before the loop, and the last one, after it.\<close>

definition regmap_del_first ::
  "'d m0_be_regmap \<Rightarrow> 'd \<Rightarrow> m0_be_reg_d \<Rightarrow> nat option \<Rightarrow> ('d m0_be_regmap \<times> 'd \<times> nat option) option" where
  "regmap_del_first rm d rd rdi =
     (case rdi of
        None \<Rightarrow> Some (rm, d, rdi)
      | Some i \<Rightarrow>
          if m0_be_reg_d_is_in (reg_at rm i) (be_reg_d_fb rd) \<and>
             \<not> m0_be_reg_d_is_in (reg_at rm i) (be_reg_d_lb1 rd) \<and>
             \<not> be_reg_d_is_partof rd (reg_at rm i)
          then do {
            let cut = be_reg_d_size (reg_at rm i);
            let cut = cut - (be_reg_d_fb rd - be_reg_d_fb (reg_at rm i));
            (rm, d) \<leftarrow> be_regmap_reg_d_cut rm d i 0 cut;
            rdi \<leftarrow> m0_be_rdt_next (br_rdt rm) i;
            Some (rm, d, rdi)
          } else Some (rm, d, rdi))"

definition regmap_del_last ::
  "'d m0_be_regmap \<Rightarrow> 'd \<Rightarrow> m0_be_reg_d \<Rightarrow> nat option \<Rightarrow> ('d m0_be_regmap \<times> 'd) option" where
  "regmap_del_last rm d rd rdi =
     (case rdi of
        None \<Rightarrow> Some (rm, d)
      | Some i \<Rightarrow>
          if \<not> m0_be_reg_d_is_in (reg_at rm i) (be_reg_d_fb1 rd) \<and> m0_be_reg_d_is_in (reg_at rm i) (be_reg_d_lb rd)
          then do {
            let cut = be_reg_d_size (reg_at rm i);
            let cut = cut - (be_reg_d_lb (reg_at rm i) - be_reg_d_lb rd);
            be_regmap_reg_d_cut rm d i cut 0
          } else Some (rm, d))"

definition m0_be_regmap_del :: "'d m0_be_regmap \<Rightarrow> 'd \<Rightarrow> m0_be_reg_d \<Rightarrow> ('d m0_be_regmap \<times> 'd) option" where
  "m0_be_regmap_del rm d rd = do {
     M0_ASSERT (m0_be_regmap__invariant rm);
     M0_ASSERT (m0_be_reg_d__invariant rd);
     rdi \<leftarrow> be_regmap_find_fb rm rd;
     (rm, d, rdi) \<leftarrow> regmap_del_first rm d rd rdi;
     (rm, d, rdi) \<leftarrow> regmap_del_loop rm d rd rdi;
     regmap_del_last rm d rd rdi
   }"

text \<open>The treatment of an old region that completely absorbs the new one; the flag is \<^verbatim>\<open>copied\<close>.\<close>

definition regmap_add_absorb ::
  "'d m0_be_regmap \<Rightarrow> 'd \<Rightarrow> m0_be_reg_d \<Rightarrow> nat option \<Rightarrow> ('d m0_be_regmap \<times> 'd \<times> bool) option" where
  "regmap_add_absorb rm d rd rdi =
     (case rdi of
        None \<Rightarrow> Some (rm, d, False)
      | Some i \<Rightarrow>
          if be_reg_d_fb (reg_at rm i) < be_reg_d_fb rd \<and> be_reg_d_lb (reg_at rm i) > be_reg_d_lb rd then
            if br_split_on_absorb rm then do {
              (rm, d, rd_new) \<leftarrow> be_regmap_reg_d_split rm d i rd;
              rdt \<leftarrow> m0_be_rdt_ins (br_rdt rm) rd_new;
              Some (rm\<lparr>br_rdt := rdt\<rparr>, d, False)
            } else do {
              d \<leftarrow> rmo_cpy (br_ops rm) d (reg_at rm i) rd;
              Some (rm, d, True)
            }
          else Some (rm, d, False))"

definition m0_be_regmap_add :: "'d m0_be_regmap \<Rightarrow> 'd \<Rightarrow> m0_be_reg_d \<Rightarrow> ('d m0_be_regmap \<times> 'd) option" where
  "m0_be_regmap_add rm d rd = do {
     M0_ASSERT (m0_be_regmap__invariant rm);
     M0_ASSERT (m0_be_reg_d__invariant rd);
     rdi \<leftarrow> be_regmap_find_fb rm rd;
     (rm, d, copied) \<leftarrow> regmap_add_absorb rm d rd rdi;
     (rm, d) \<leftarrow>
       (if \<not> copied then do {
          (rm, d) \<leftarrow> m0_be_regmap_del rm d rd;
          (d, rd_copy) \<leftarrow> rmo_add (br_ops rm) d rd;
          rdt \<leftarrow> m0_be_rdt_ins (br_rdt rm) rd_copy;
          Some (rm\<lparr>br_rdt := rdt\<rparr>, d)
        } else Some (rm, d));
     M0_ASSERT (m0_be_regmap__invariant rm);
     Some (rm, d)
   }"

definition m0_be_regmap_first :: "'d m0_be_regmap \<Rightarrow> nat option option" where
  "m0_be_regmap_first rm = m0_be_rdt_find (br_rdt rm) 0"

definition m0_be_regmap_next :: "'d m0_be_regmap \<Rightarrow> nat \<Rightarrow> nat option option" where
  "m0_be_regmap_next rm prev = m0_be_rdt_next (br_rdt rm) prev"

definition m0_be_regmap_size :: "'d m0_be_regmap \<Rightarrow> nat option" where
  "m0_be_regmap_size rm = do {
     M0_ASSERT (m0_be_regmap__invariant rm);
     Some (m0_be_rdt_size (br_rdt rm))
   }"

definition m0_be_regmap_reset :: "'d m0_be_regmap \<Rightarrow> 'd m0_be_regmap option" where
  "m0_be_regmap_reset rm = do {
     rdt \<leftarrow> m0_be_rdt_reset (br_rdt rm);
     Some (rm\<lparr>br_rdt := rdt\<rparr>)
   }"

subsection \<open>Areas\<close>

datatype m0_be_reg_area_type = M0_BE_REG_AREA_DATA_COPY | M0_BE_REG_AREA_DATA_NOCOPY

text \<open>The fields of an area that the callbacks reach, apart from the others.\<close>

record be_area_buf =
  bra_area :: u64
  bra_area_used :: u64
  bra_prepared :: m0_be_tx_credit

type_synonym area_data = "mem \<times> be_area_buf"

record m0_be_reg_area =
  bra_map :: "area_data m0_be_regmap"
  bra_type :: m0_be_reg_area_type
  bra_buf :: be_area_buf
  bra_captured :: m0_be_tx_credit

definition be_reg_d_cpy :: "mem \<Rightarrow> u64 \<Rightarrow> m0_be_reg_d \<Rightarrow> mem" where
  "be_reg_d_cpy m dst rd = memmove m dst (br_addr (rd_reg rd)) (br_size (rd_reg rd))"

definition be_reg_area_alloc :: "be_area_buf \<Rightarrow> u64 \<Rightarrow> (be_area_buf \<times> u64) option" where
  "be_reg_area_alloc ra sz = do {
     let ptr = bra_area ra + bra_area_used ra;
     let ra = ra\<lparr>bra_area_used := bra_area_used ra + sz\<rparr>;
     M0_ASSERT (bra_area_used ra \<le> tc_reg_size (bra_prepared ra));
     Some (ra, ptr)
   }"

definition be_reg_area_add_copy :: "area_data \<Rightarrow> m0_be_reg_d \<Rightarrow> (area_data \<times> m0_be_reg_d) option" where
  "be_reg_area_add_copy d rd = (case d of (m, ra) \<Rightarrow> do {
     M0_ASSERT (m0_be_reg_d__invariant rd);
     M0_ASSERT (rd_buf rd = 0);
     (ra, ptr) \<leftarrow> be_reg_area_alloc ra (br_size (rd_reg rd));
     let rd = rd\<lparr>rd_buf := ptr\<rparr>;
     Some ((be_reg_d_cpy m (rd_buf rd) rd, ra), rd)
   })"

definition be_reg_area_add :: "area_data \<Rightarrow> m0_be_reg_d \<Rightarrow> (area_data \<times> m0_be_reg_d) option" where
  "be_reg_area_add d rd = do {
     M0_ASSERT (rd_buf rd \<noteq> 0);
     Some (d, rd)
   }"

definition be_reg_area_del :: "area_data \<Rightarrow> m0_be_reg_d \<Rightarrow> area_data option" where
  "be_reg_area_del d rd = Some d"

definition be_reg_area_cpy_copy :: "area_data \<Rightarrow> m0_be_reg_d \<Rightarrow> m0_be_reg_d \<Rightarrow> area_data option" where
  "be_reg_area_cpy_copy d super rd = (case d of (m, ra) \<Rightarrow> do {
     M0_ASSERT (m0_be_reg_d__invariant rd);
     M0_ASSERT (be_reg_d_is_partof super rd);
     M0_ASSERT (rd_buf super \<noteq> 0);
     M0_ASSERT (rd_buf rd = 0);
     let rd_offset = br_addr (rd_reg rd) - br_addr (rd_reg super);
     Some (be_reg_d_cpy m (rd_buf super + rd_offset) rd, ra)
   })"

definition be_reg_area_cpy :: "area_data \<Rightarrow> m0_be_reg_d \<Rightarrow> m0_be_reg_d \<Rightarrow> area_data option" where
  "be_reg_area_cpy d super rd = (case d of (m, ra) \<Rightarrow> do {
     M0_ASSERT (m0_be_reg_d__invariant rd);
     M0_ASSERT (be_reg_d_is_partof super rd);
     M0_ASSERT (rd_buf super \<noteq> 0);
     M0_ASSERT (rd_buf rd \<noteq> 0);
     let rd_offset = br_addr (rd_reg rd) - br_addr (rd_reg super);
     Some (memmove m (rd_buf super + rd_offset) (rd_buf rd) (br_size (rd_reg rd)), ra)
   })"

definition be_reg_area_cut :: "area_data \<Rightarrow> m0_be_reg_d \<Rightarrow> u64 \<Rightarrow> u64 \<Rightarrow> (area_data \<times> m0_be_reg_d) option" where
  "be_reg_area_cut d rd cut_at_start cut_at_end = Some (d, rd\<lparr>rd_buf := rd_buf rd + cut_at_start\<rparr>)"

definition be_reg_area_split :: "area_data \<Rightarrow> m0_be_reg_d \<Rightarrow> m0_be_reg_d \<Rightarrow> (area_data \<times> m0_be_reg_d) option" where
  "be_reg_area_split d rd rd_new =
     Some (d, \<lparr>rd_reg = (rd_reg rd_new)\<lparr>br_seg := br_seg (rd_reg rd)\<rparr>,
               rd_buf = rd_buf rd + br_size (rd_reg rd), rd_gen_idx = rd_gen_idx rd\<rparr>)"

definition be_reg_area_ops_data_copy :: "area_data m0_be_regmap_ops" where
  "be_reg_area_ops_data_copy =
     \<lparr>rmo_add = be_reg_area_add_copy, rmo_del = be_reg_area_del, rmo_cpy = be_reg_area_cpy_copy,
      rmo_cut = be_reg_area_cut, rmo_split = be_reg_area_split\<rparr>"

definition be_reg_area_ops_data_nocopy :: "area_data m0_be_regmap_ops" where
  "be_reg_area_ops_data_nocopy =
     \<lparr>rmo_add = be_reg_area_add, rmo_del = be_reg_area_del, rmo_cpy = be_reg_area_cpy,
      rmo_cut = be_reg_area_cut, rmo_split = be_reg_area_split\<rparr>"

definition be_reg_area_ops :: "m0_be_reg_area_type \<Rightarrow> area_data m0_be_regmap_ops" where
  "be_reg_area_ops type = (case type of
     M0_BE_REG_AREA_DATA_COPY \<Rightarrow> be_reg_area_ops_data_copy
   | M0_BE_REG_AREA_DATA_NOCOPY \<Rightarrow> be_reg_area_ops_data_nocopy)"

definition m0_be_reg_area__invariant :: "m0_be_reg_area \<Rightarrow> bool" where
  "m0_be_reg_area__invariant ra \<longleftrightarrow>
     m0_be_regmap__invariant (bra_map ra) \<and>
     bra_area_used (bra_buf ra) \<le> tc_reg_size (bra_prepared (bra_buf ra)) \<and>
     m0_be_tx_credit_le (bra_captured ra) (bra_prepared (bra_buf ra))"

text \<open>
  \<open>alloc\<close> and \<open>area\<close> are the outcomes of the two allocations, the second a pointer that is \<^verbatim>\<open>NULL\<close> when it
  fails; a failed initialisation leaves a zeroed area. The table of callbacks of a zeroed map is \<^verbatim>\<open>NULL\<close>; as an empty
  map calls none of them, any table stands for it.
\<close>

definition be_rdt_zero :: m0_be_reg_d_tree where
  "be_rdt_zero = \<lparr>brt_size = 0, brt_size_max = 0, brt_r = []\<rparr>"

definition be_reg_area_zero :: m0_be_reg_area where
  "be_reg_area_zero =
     \<lparr>bra_map = \<lparr>br_rdt = be_rdt_zero, br_ops = be_reg_area_ops_data_copy, br_split_on_absorb = False\<rparr>,
      bra_type = M0_BE_REG_AREA_DATA_COPY,
      bra_buf = \<lparr>bra_area = 0, bra_area_used = 0, bra_prepared = M0_BE_TX_CREDIT 0 0\<rparr>,
      bra_captured = M0_BE_TX_CREDIT 0 0\<rparr>"

definition m0_be_reg_area_init ::
  "m0_be_reg_d list option \<Rightarrow> u64 \<Rightarrow> m0_be_tx_credit \<Rightarrow> m0_be_reg_area_type \<Rightarrow> (int \<times> m0_be_reg_area) option" where
  "m0_be_reg_area_init alloc area prepared type = do {
     let ra = be_reg_area_zero\<lparr>bra_type := type,
                bra_buf := \<lparr>bra_area = 0, bra_area_used = 0, bra_prepared = prepared\<rparr>\<rparr>;
     let nr = tc_reg_nr prepared;
     (rc, rm) \<leftarrow> m0_be_regmap_init alloc (bra_map ra) (be_reg_area_ops type)
                  (unat (if nr = 0 then 0 else nr * 2 - 1)) True;
     let ra = ra\<lparr>bra_map := rm\<rparr>;
     (rc, ra) \<leftarrow>
       (if rc = 0 \<and> type = M0_BE_REG_AREA_DATA_COPY then do {
          let ra = ra\<lparr>bra_buf := (bra_buf ra)\<lparr>bra_area := area\<rparr>\<rparr>;
          if area = 0 then do { m0_be_regmap_fini (bra_map ra); Some (- ENOMEM, ra) }
          else Some (rc, ra)
        } else Some (rc, ra));
     let ra = (if rc \<noteq> 0 then be_reg_area_zero else ra);
     M0_ASSERT (rc = 0 \<longrightarrow> m0_be_reg_area__invariant ra);
     Some (rc, ra)
   }"

definition m0_be_reg_area_fini :: "m0_be_reg_area \<Rightarrow> unit option" where
  "m0_be_reg_area_fini ra = do {
     M0_ASSERT (m0_be_reg_area__invariant ra);
     m0_be_regmap_fini (bra_map ra)
   }"

definition m0_be_reg_area_first :: "m0_be_reg_area \<Rightarrow> nat option option" where
  "m0_be_reg_area_first ra = m0_be_regmap_first (bra_map ra)"

definition m0_be_reg_area_next :: "m0_be_reg_area \<Rightarrow> nat \<Rightarrow> nat option option" where
  "m0_be_reg_area_next ra prev = m0_be_regmap_next (bra_map ra) prev"

partial_function (option) area_used_loop :: "m0_be_reg_area \<Rightarrow> nat option \<Rightarrow> m0_be_tx_credit \<Rightarrow> m0_be_tx_credit option" where
  "area_used_loop ra rd used =
     (case rd of
        None \<Rightarrow> Some used
      | Some i \<Rightarrow> do {
          let used = m0_be_tx_credit_add used (M0_BE_REG_D_CREDIT (reg_at (bra_map ra) i));
          rd \<leftarrow> m0_be_regmap_next (bra_map ra) i;
          area_used_loop ra rd used
        })"

declare area_used_loop.simps [simp del]

definition m0_be_reg_area_used :: "m0_be_reg_area \<Rightarrow> m0_be_tx_credit option" where
  "m0_be_reg_area_used ra = do {
     M0_ASSERT (m0_be_reg_area__invariant ra);
     rd \<leftarrow> m0_be_regmap_first (bra_map ra);
     area_used_loop ra rd (M0_BE_TX_CREDIT 0 0)
   }"

definition m0_be_reg_area_prepared :: "m0_be_reg_area \<Rightarrow> m0_be_tx_credit option" where
  "m0_be_reg_area_prepared ra = do {
     M0_ASSERT (m0_be_reg_area__invariant ra);
     Some (bra_prepared (bra_buf ra))
   }"

definition m0_be_reg_area_captured :: "m0_be_reg_area \<Rightarrow> m0_be_tx_credit option" where
  "m0_be_reg_area_captured ra = do {
     M0_ASSERT (m0_be_reg_area__invariant ra);
     Some (bra_captured ra)
   }"

definition m0_be_reg_area_capture :: "mem \<Rightarrow> m0_be_reg_area \<Rightarrow> m0_be_reg_d \<Rightarrow> (mem \<times> m0_be_reg_area) option" where
  "m0_be_reg_area_capture m ra rd = do {
     M0_ASSERT (m0_be_reg_area__invariant ra);
     M0_ASSERT (m0_be_reg_d__invariant rd);
     let captured = m0_be_tx_credit_add (bra_captured ra) (M0_BE_REG_D_CREDIT rd);
     M0_ASSERT (m0_be_tx_credit_le captured (bra_prepared (bra_buf ra)));
     (rm, m, buf) \<leftarrow> m0_be_regmap_add (bra_map ra) (m, bra_buf ra) rd;
     let ra = ra\<lparr>bra_map := rm, bra_buf := buf, bra_captured := captured\<rparr>;
     M0_ASSERT (m0_be_reg_d__invariant rd);
     M0_ASSERT (m0_be_reg_area__invariant ra);
     Some (m, ra)
   }"

definition m0_be_reg_area_uncapture :: "mem \<Rightarrow> m0_be_reg_area \<Rightarrow> m0_be_reg_d \<Rightarrow> (mem \<times> m0_be_reg_area) option" where
  "m0_be_reg_area_uncapture m ra rd = do {
     M0_ASSERT (m0_be_reg_area__invariant ra);
     M0_ASSERT (m0_be_reg_d__invariant rd);
     (rm, m, buf) \<leftarrow> m0_be_regmap_del (bra_map ra) (m, bra_buf ra) rd;
     let ra = ra\<lparr>bra_map := rm, bra_buf := buf\<rparr>;
     M0_ASSERT (m0_be_reg_d__invariant rd);
     M0_ASSERT (m0_be_reg_area__invariant ra);
     Some (m, ra)
   }"

partial_function (option) merge_in_loop ::
  "m0_be_reg_area \<Rightarrow> mem \<times> m0_be_reg_area \<Rightarrow> nat option \<Rightarrow> (mem \<times> m0_be_reg_area) option" where
  "merge_in_loop src st rd =
     (case rd of
        None \<Rightarrow> Some st
      | Some i \<Rightarrow> do {
          st \<leftarrow> m0_be_reg_area_capture (fst st) (snd st) (reg_at (bra_map src) i);
          rd \<leftarrow> m0_be_reg_area_next src i;
          merge_in_loop src st rd
        })"

declare merge_in_loop.simps [simp del]

definition m0_be_reg_area_merge_in :: "mem \<Rightarrow> m0_be_reg_area \<Rightarrow> m0_be_reg_area \<Rightarrow> (mem \<times> m0_be_reg_area) option" where
  "m0_be_reg_area_merge_in m ra src = do {
     rd \<leftarrow> m0_be_reg_area_first src;
     merge_in_loop src (m, ra) rd
   }"

definition m0_be_reg_area_reset :: "m0_be_reg_area \<Rightarrow> m0_be_reg_area option" where
  "m0_be_reg_area_reset ra = do {
     M0_ASSERT (m0_be_reg_area__invariant ra);
     rm \<leftarrow> m0_be_regmap_reset (bra_map ra);
     let ra = ra\<lparr>bra_map := rm, bra_buf := (bra_buf ra)\<lparr>bra_area_used := 0\<rparr>, bra_captured := M0_BE_TX_CREDIT 0 0\<rparr>;
     M0_ASSERT (m0_be_reg_area__invariant ra);
     Some ra
   }"

subsection \<open>The merger\<close>

record m0_be_reg_area_merger =
  brm_reg_area_nr_max :: nat
  brm_reg_areas :: "m0_be_reg_area list"

definition m0_be_reg_area_merger_init :: "bool \<Rightarrow> nat \<Rightarrow> int \<times> m0_be_reg_area_merger" where
  "m0_be_reg_area_merger_init alloc_ok reg_area_nr_max =
     (if alloc_ok then 0 else - ENOMEM, \<lparr>brm_reg_area_nr_max = reg_area_nr_max, brm_reg_areas = []\<rparr>)"

definition m0_be_reg_area_merger_reset :: "m0_be_reg_area_merger \<Rightarrow> m0_be_reg_area_merger" where
  "m0_be_reg_area_merger_reset brm = brm\<lparr>brm_reg_areas := []\<rparr>"

definition m0_be_reg_area_merger_add :: "m0_be_reg_area_merger \<Rightarrow> m0_be_reg_area \<Rightarrow> m0_be_reg_area_merger option" where
  "m0_be_reg_area_merger_add brm ra = do {
     M0_ASSERT (length (brm_reg_areas brm) < brm_reg_area_nr_max brm);
     Some (brm\<lparr>brm_reg_areas := brm_reg_areas brm @ [ra]\<rparr>)
   }"

text \<open>
  The positions in the areas (\<^verbatim>\<open>brm_pos\<close>) are indices, and \<open>pos_regs\<close> are the regions they point to. The
  loop looks for the region with the greatest generation; \<open>best\<close> is the region at \<^verbatim>\<open>max_i\<close>.
\<close>

definition pos_regs :: "m0_be_reg_area list \<Rightarrow> nat option list \<Rightarrow> m0_be_reg_d option list" where
  "pos_regs ras pos = map2 (\<lambda>ra. map_option (reg_at (bra_map ra))) ras pos"

fun max_gen_idx_loop :: "m0_be_reg_d option list \<Rightarrow> m0_be_reg_d \<Rightarrow> m0_be_reg_d option \<Rightarrow> (m0_be_reg_d \<times> m0_be_reg_d option) option" where
  "max_gen_idx_loop [] rd_new best = Some (rd_new, best)"
| "max_gen_idx_loop (None # rds) rd_new best = max_gen_idx_loop rds rd_new best"
| "max_gen_idx_loop (Some rd # rds) rd_new best = do {
     M0_ASSERT (be_reg_d_is_partof rd rd_new \<or> \<not> be_reg_d_are_overlapping rd rd_new);
     M0_ASSERT (best \<noteq> None \<longrightarrow> rd_gen_idx rd \<noteq> rd_gen_idx rd_new);
     if be_reg_d_are_overlapping rd rd_new \<and> (best = None \<or> rd_gen_idx rd_new < rd_gen_idx rd)
     then max_gen_idx_loop rds (rd_new\<lparr>rd_gen_idx := rd_gen_idx rd\<rparr>) (Some rd)
     else max_gen_idx_loop rds rd_new best
   }"

definition be_reg_area_merger_max_gen_idx :: "m0_be_reg_d option list \<Rightarrow> u64 \<Rightarrow> u64 \<Rightarrow> m0_be_reg_d option" where
  "be_reg_area_merger_max_gen_idx pos addr sz = do {
     (rd_new, best) \<leftarrow> max_gen_idx_loop pos
       \<lparr>rd_reg = \<lparr>br_seg = 0, br_size = sz, br_addr = addr\<rparr>, rd_buf = 0, rd_gen_idx = 0\<rparr> None;
     M0_ASSERT (best \<noteq> None);
     be_reg_d_sub_make (the best) rd_new
   }"

text \<open>The positions after those whose region ends at the given address.\<close>

fun pass_stale :: "m0_be_reg_area list \<Rightarrow> u64 \<Rightarrow> nat option list \<Rightarrow> nat option list option" where
  "pass_stale (ra # ras) addr (None # pos) = do { pos \<leftarrow> pass_stale ras addr pos; Some (None # pos) }"
| "pass_stale (ra # ras) addr (Some i # pos) = do {
     p \<leftarrow> (if be_reg_d_lb1 (reg_at (bra_map ra) i) = addr then m0_be_reg_area_next ra i else Some (Some i));
     pos \<leftarrow> pass_stale ras addr pos;
     Some (p # pos)
   }"
| "pass_stale ras addr pos = Some []"

partial_function (option) merge_to_loop ::
  "m0_be_reg_area list \<Rightarrow> nat option list \<Rightarrow> u64 \<Rightarrow> mem \<times> m0_be_reg_area \<Rightarrow> (mem \<times> m0_be_reg_area) option" where
  "merge_to_loop ras pos addr st =
     (if \<exists>p \<in> set pos. p \<noteq> None then do {
        (addr, sz) \<leftarrow> be_reg_d_arr_first_subreg (pos_regs ras pos) addr;
        rd_new \<leftarrow> be_reg_area_merger_max_gen_idx (pos_regs ras pos) addr sz;
        st \<leftarrow> m0_be_reg_area_capture (fst st) (snd st) rd_new;
        pos \<leftarrow> pass_stale ras (addr + sz) pos;
        merge_to_loop ras pos (addr + sz) st
      } else Some st)"

declare merge_to_loop.simps [simp del]

fun merge_first :: "m0_be_reg_area list \<Rightarrow> nat option list option" where
  "merge_first [] = Some []"
| "merge_first (ra # ras) = do {
     p \<leftarrow> m0_be_reg_area_first ra;
     pos \<leftarrow> merge_first ras;
     Some (p # pos)
   }"

definition m0_be_reg_area_merger_merge_to :: "m0_be_reg_area_merger \<Rightarrow> mem \<Rightarrow> m0_be_reg_area \<Rightarrow> (mem \<times> m0_be_reg_area) option" where
  "m0_be_reg_area_merger_merge_to brm m ra = do {
     pos \<leftarrow> merge_first (brm_reg_areas brm);
     merge_to_loop (brm_reg_areas brm) pos 0 (m, ra)
   }"


section \<open>Regions over natural numbers\<close>

abbreviation rlo :: "m0_be_reg_d \<Rightarrow> nat" where
  "rlo r \<equiv> unat (br_addr (rd_reg r))"

abbreviation rsz :: "m0_be_reg_d \<Rightarrow> nat" where
  "rsz r \<equiv> unat (br_size (rd_reg r))"

abbreviation rhi :: "m0_be_reg_d \<Rightarrow> nat" where
  "rhi r \<equiv> rlo r + rsz r"

text \<open>A region that is not empty, does not start at \<^verbatim>\<open>NULL\<close> and does not reach the end of the address space.\<close>

definition reg_ok :: "m0_be_reg_d \<Rightarrow> bool" where
  "reg_ok r \<longleftrightarrow> 0 < rlo r \<and> 0 < rsz r \<and> rhi r < 2 ^ 64"

lemma reg_ok_invariant: "reg_ok r \<Longrightarrow> m0_be_reg_d__invariant r"
  by (auto simp: reg_ok_def m0_be_reg_d__invariant_def word_less_nat_alt)

lemma unat_reg_end:
  assumes "reg_ok r"
  shows "unat (br_addr (rd_reg r) + br_size (rd_reg r)) = rhi r"
  using assms by (simp add: reg_ok_def unat_add_noof)

lemma unat_reg_bytes:
  assumes "reg_ok r"
  shows "unat (be_reg_d_fb r) = rlo r" "unat (be_reg_d_fb1 r) = rlo r - 1"
    "unat (be_reg_d_lb r) = rhi r - 1" "unat (be_reg_d_lb1 r) = rhi r" "unat (be_reg_d_size r) = rsz r"
proof -
  have one: "1 \<le> w" if "0 < unat w" for w :: u64 using that by (simp add: word_le_nat_alt)
  have lb1: "be_reg_d_lb1 r = br_addr (rd_reg r) + br_size (rd_reg r)"
    by (simp add: be_reg_d_lb1_def be_reg_d_lb_def)
  show "unat (be_reg_d_fb r) = rlo r" "unat (be_reg_d_size r) = rsz r"
    by (simp_all add: be_reg_d_fb_def be_reg_d_size_def)
  show "unat (be_reg_d_lb1 r) = rhi r" unfolding lb1 by (rule unat_reg_end [OF assms])
  show "unat (be_reg_d_fb1 r) = rlo r - 1"
    using assms by (simp add: be_reg_d_fb1_def be_reg_d_fb_def unat_sub_noof one reg_ok_def)
  have "0 < rhi r" using assms by (simp add: reg_ok_def)
  then show "unat (be_reg_d_lb r) = rhi r - 1"
    unfolding be_reg_d_lb_def by (simp add: unat_sub_noof one unat_reg_end [OF assms])
qed

lemma is_in_nat:
  assumes "reg_ok r"
  shows "m0_be_reg_d_is_in r a \<longleftrightarrow> rlo r \<le> unat a \<and> unat a < rhi r"
  using unat_reg_end [OF assms]
  by (simp add: m0_be_reg_d_is_in_def m0_ext_is_in_def REGD_EXT_def word_le_nat_alt word_less_nat_alt)

lemma partof_nat:
  assumes "reg_ok r" "reg_ok s"
  shows "be_reg_d_is_partof r s \<longleftrightarrow> rlo r \<le> rlo s \<and> rhi s \<le> rhi r"
proof -
  have "be_reg_d_is_partof r s \<longleftrightarrow> rlo r \<le> rlo s \<and> rlo s < rhi r \<and> rhi s \<le> rhi r"
    using unat_reg_end [OF assms(1)] unat_reg_end [OF assms(2)]
    by (auto simp: be_reg_d_is_partof_def m0_ext_is_partof_def m0_ext_is_in_def REGD_EXT_def word_le_nat_alt word_less_nat_alt)
  then show ?thesis using assms(2) by (auto simp: reg_ok_def)
qed

lemma overlapping_nat:
  assumes "reg_ok r" "reg_ok s"
  shows "be_reg_d_are_overlapping r s \<longleftrightarrow> rlo r < rhi s \<and> rlo s < rhi r"
  using unat_reg_end [OF assms(1)] unat_reg_end [OF assms(2)] assms
  by (auto simp: be_reg_d_are_overlapping_def m0_ext_are_overlapping_def m0_ext_is_valid_def m0_ext_intersection_def
      REGD_EXT_def word_less_nat_alt reg_ok_def)

lemmas reg_nat = unat_reg_bytes is_in_nat partof_nat overlapping_nat

text \<open>Ordered lists of disjoint regions, and the regions of an array.\<close>

definition regs_ok :: "m0_be_reg_d list \<Rightarrow> bool" where
  "regs_ok rs \<longleftrightarrow> (\<forall>r \<in> set rs. reg_ok r) \<and> sorted_wrt (\<lambda>r s. rhi r \<le> rlo s) rs"

definition rdt_regs :: "m0_be_reg_d_tree \<Rightarrow> m0_be_reg_d list" where
  "rdt_regs rdt = take (brt_size rdt) (brt_r rdt)"

definition rdt_ok :: "m0_be_reg_d_tree \<Rightarrow> bool" where
  "rdt_ok rdt \<longleftrightarrow> brt_size rdt \<le> brt_size_max rdt \<and> length (brt_r rdt) = brt_size_max rdt \<and> regs_ok (rdt_regs rdt)"

lemma regs_ok_simps [simp]:
  "regs_ok []"
  "regs_ok (r # rs) \<longleftrightarrow> reg_ok r \<and> (\<forall>s \<in> set rs. rhi r \<le> rlo s) \<and> regs_ok rs"
  "regs_ok (rs @ ss) \<longleftrightarrow> regs_ok rs \<and> regs_ok ss \<and> (\<forall>r \<in> set rs. \<forall>s \<in> set ss. rhi r \<le> rlo s)"
  by (auto simp: regs_ok_def sorted_wrt_append)

lemma rdt_regs_nth:
  assumes "rdt_ok rdt"
  shows "length (rdt_regs rdt) = brt_size rdt" "i < brt_size rdt \<Longrightarrow> brt_r rdt ! i = rdt_regs rdt ! i"
  using assms by (simp_all add: rdt_ok_def rdt_regs_def)

lemma regs_ok_nth:
  assumes "regs_ok rs" "i < j" "j < length rs"
  shows "rhi (rs ! i) \<le> rlo (rs ! j)"
  using assms sorted_wrt_nth_less [of "\<lambda>r s. rhi r \<le> rlo s" rs i j] by (simp add: regs_ok_def)

lemma regs_ok_reg: "regs_ok rs \<Longrightarrow> i < length rs \<Longrightarrow> reg_ok (rs ! i)"
  by (simp add: regs_ok_def)

lemma rdt_ok_invariant:
  assumes "rdt_ok rdt"
  shows "m0_be_rdt__invariant rdt"
proof -
  have ok: "regs_ok (rdt_regs rdt)" using assms by (simp add: rdt_ok_def)
  have r: "reg_ok (brt_r rdt ! i)" if "i < brt_size rdt" for i
    using regs_ok_reg [OF ok] that by (simp add: rdt_regs_nth [OF assms])
  have s: "rhi (brt_r rdt ! i) \<le> rlo (brt_r rdt ! (i + 1))" if "i < brt_size rdt - 1" for i
    using regs_ok_nth [OF ok, of i "i + 1"] that by (simp add: rdt_regs_nth [OF assms])
  have lt: "rlo (brt_r rdt ! i) < rlo (brt_r rdt ! (i + 1))" if "i < brt_size rdt - 1" for i
  proof -
    have "i < brt_size rdt" using that by simp
    from r [OF this] s [OF that] show ?thesis unfolding reg_ok_def by linarith
  qed
  have no: "\<not> be_reg_d_are_overlapping (brt_r rdt ! i) (brt_r rdt ! (i + 1))" if "i < brt_size rdt - 1" for i
    using s [OF that] r [of i] r [of "i + 1"] that by (simp add: overlapping_nat)
  have "brt_r rdt \<noteq> [] \<or> brt_size rdt = 0" using assms by (auto simp: rdt_ok_def)
  then show ?thesis
    using assms r lt no reg_ok_invariant by (simp add: m0_be_rdt__invariant_def rdt_ok_def word_less_nat_alt)
qed

section \<open>The array\<close>

text \<open>The index of the first region that ends after an address.\<close>

definition fidx :: "nat \<Rightarrow> m0_be_reg_d list \<Rightarrow> nat" where
  "fidx a rs = length (takeWhile (\<lambda>r. rhi r \<le> a) rs)"

lemma fidx_le: "fidx a rs \<le> length rs"
  by (simp add: fidx_def length_takeWhile_le)

lemma fidx_below: "j < fidx a rs \<Longrightarrow> rhi (rs ! j) \<le> a"
  unfolding fidx_def by (rule takeWhile_prefix(1) [OF refl])

lemma fidx_at: "fidx a rs < length rs \<Longrightarrow> a < rhi (rs ! fidx a rs)"
  using nth_length_takeWhile [of "\<lambda>r. rhi r \<le> a" rs] by (simp add: fidx_def)

lemma fidx_unique:
  assumes "regs_ok rs" "i \<le> length rs" "0 < i \<Longrightarrow> rhi (rs ! (i - 1)) \<le> a" "i < length rs \<Longrightarrow> a < rhi (rs ! i)"
  shows "fidx a rs = i"
proof (rule antisym)
  show "fidx a rs \<le> i"
  proof (rule ccontr)
    assume "\<not> fidx a rs \<le> i"
    then show False using fidx_below [of i a rs] fidx_le [of a rs] assms(4) by simp
  qed
  show "i \<le> fidx a rs"
  proof (rule ccontr)
    let ?k = "fidx a rs"
    assume "\<not> i \<le> ?k"
    then have k: "?k < i" "?k < length rs" using assms(2) by auto
    have "rhi (rs ! ?k) \<le> rhi (rs ! (i - 1))"
      using regs_ok_nth [OF assms(1), of ?k "i - 1"] k assms(2) by (cases "?k = i - 1") force+
    then show False using fidx_at [OF k(2)] assms(3) k(1) by linarith
  qed
qed

lemma check_i_fidx:
  assumes "rdt_ok rdt" "i \<le> brt_size rdt"
  shows "be_rdt_check_i rdt addr i \<longleftrightarrow> i = fidx (unat addr) (rdt_regs rdt)"
proof -
  let ?rs = "rdt_regs rdt" and ?a = "unat addr" and ?n = "brt_size rdt"
  have ok: "regs_ok ?rs" using assms(1) by (simp add: rdt_ok_def)
  have n: "length ?rs = ?n" and r: "\<And>j. j < ?n \<Longrightarrow> brt_r rdt ! j = ?rs ! j" using rdt_regs_nth [OF assms(1)] by auto
  have pos: "\<And>j. j < ?n \<Longrightarrow> rlo (?rs ! j) < rhi (?rs ! j)" using regs_ok_reg [OF ok] n by (simp add: reg_ok_def)
  have isin: "\<And>j. j < ?n \<Longrightarrow> m0_be_reg_d_is_in (?rs ! j) addr \<longleftrightarrow> rlo (?rs ! j) \<le> ?a \<and> ?a < rhi (?rs ! j)"
    using is_in_nat regs_ok_reg [OF ok] n by simp
  have adj: "\<And>j. 0 < j \<Longrightarrow> j < ?n \<Longrightarrow> rhi (?rs ! (j - 1)) \<le> rlo (?rs ! j)" using regs_ok_nth [OF ok] n by simp
  have "be_rdt_check_i rdt addr i \<longleftrightarrow> (0 < i \<longrightarrow> rhi (?rs ! (i - 1)) \<le> ?a) \<and> (i < ?n \<longrightarrow> ?a < rhi (?rs ! i))"
  proof -
    consider "?n = 0" | "i = 0" "0 < ?n" | "i = ?n" "0 < ?n" | "0 < i" "i < ?n" using assms(2) by linarith
    then show ?thesis
    proof cases
      case 1
      then show ?thesis using assms(2) by (simp add: be_rdt_check_i_def m0_be_rdt_size_def)
    next
      case 2
      then have "be_rdt_check_i rdt addr i \<longleftrightarrow> (rlo (?rs ! 0) \<le> ?a \<and> ?a < rhi (?rs ! 0)) \<or> ?a < rlo (?rs ! 0)"
        by (auto simp: be_rdt_check_i_def m0_be_rdt_size_def word_less_nat_alt r isin Let_def)
      then show ?thesis using pos [of 0] 2 by auto
    next
      case 3
      then have "be_rdt_check_i rdt addr i \<longleftrightarrow> \<not> (rlo (?rs ! (?n - 1)) \<le> ?a \<and> ?a < rhi (?rs ! (?n - 1))) \<and> rlo (?rs ! (?n - 1)) < ?a"
        by (auto simp: be_rdt_check_i_def m0_be_rdt_size_def word_less_nat_alt r isin Let_def)
      then show ?thesis using pos [of "?n - 1"] 3 by auto
    next
      case 4
      then have "be_rdt_check_i rdt addr i \<longleftrightarrow> (rlo (?rs ! i) \<le> ?a \<and> ?a < rhi (?rs ! i)) \<or>
          (\<not> (rlo (?rs ! (i - 1)) \<le> ?a \<and> ?a < rhi (?rs ! (i - 1))) \<and> ?a < rlo (?rs ! i) \<and> rlo (?rs ! (i - 1)) < ?a)"
        by (auto simp: be_rdt_check_i_def m0_be_rdt_size_def word_less_nat_alt r isin Let_def)
      moreover have "i - 1 < ?n" using 4 by simp
      from pos [OF this] pos [OF 4(2)] adj [OF 4] have "rlo (?rs ! (i - 1)) < rhi (?rs ! (i - 1))"
        "rlo (?rs ! i) < rhi (?rs ! i)" "rhi (?rs ! (i - 1)) \<le> rlo (?rs ! i)" by simp_all
      ultimately show ?thesis using 4 by (simp del: less_add_same_cancel1) linarith
    qed
  qed
  also have "\<dots> \<longleftrightarrow> i = fidx ?a ?rs"
    using fidx_unique [OF ok, of i ?a] assms(2) n fidx_below [of "i - 1" ?a ?rs] fidx_at [of ?a ?rs] by auto
  finally show ?thesis .
qed

text \<open>The binary search brackets the index.\<close>

declare find_i_loop.simps [simp del]

lemma find_i_loop_brackets:
  assumes "b = 0 \<or> br_addr (rd_reg (r ! b)) < addr" "e = n \<or> \<not> br_addr (rd_reg (r ! e)) < addr" "b \<le> e"
  shows "\<exists>b' e'. find_i_loop r addr b e = Some (b', e') \<and> b \<le> b' \<and> b' \<le> e' \<and> e' \<le> e \<and> e' \<le> b' + 1 \<and> (b < e \<longrightarrow> b' < e') \<and>
    (b' = 0 \<or> br_addr (rd_reg (r ! b')) < addr) \<and> (e' = n \<or> \<not> br_addr (rd_reg (r ! e')) < addr)"
  using assms
proof (induction r addr b e rule: find_i_loop.induct)
  case (1 r addr b e)
  let ?mid = "(b + e) div 2"
  show ?case
  proof (cases "b + 1 < e")
    case True
    then have mid: "b < ?mid" "?mid < e" by auto
    show ?thesis
    proof (cases "br_addr (rd_reg (r ! ?mid)) < addr")
      case T: True
      have "find_i_loop r addr b e = find_i_loop r addr ?mid e"
        using True T mid by (subst find_i_loop.simps) (simp add: Let_def)
      then show ?thesis using "1.IH"(1) [OF True refl _ T] "1.prems"(2) T mid by (force intro: order_trans less_imp_le)
    next
      case F: False
      have "find_i_loop r addr b e = find_i_loop r addr b ?mid"
        using True F mid by (subst find_i_loop.simps) (simp add: Let_def)
      then show ?thesis using "1.IH"(2) [OF True refl _ F] "1.prems"(1) F mid by (force intro: order_trans less_imp_le)
    qed
  next
    case False
    then have "find_i_loop r addr b e = Some (b, e)" by (subst find_i_loop.simps) simp
    then show ?thesis using 1 False by auto
  qed
qed

lemma find_i_ok:
  assumes "rdt_ok rdt"
  shows "be_rdt_find_i rdt addr = Some (fidx (unat addr) (rdt_regs rdt))"
proof -
  let ?rs = "rdt_regs rdt" and ?n = "brt_size rdt" and ?k = "fidx (unat addr) (rdt_regs rdt)"
  have ok: "regs_ok ?rs" using assms by (simp add: rdt_ok_def)
  have n: "length ?rs = ?n" and r: "\<And>j. j < ?n \<Longrightarrow> brt_r rdt ! j = ?rs ! j" using rdt_regs_nth [OF assms] by auto
  obtain b e where l: "find_i_loop (brt_r rdt) addr 0 ?n = Some (b, e)" "b \<le> e" "e \<le> ?n" "e \<le> b + 1"
    "b = 0 \<or> br_addr (rd_reg (brt_r rdt ! b)) < addr" "e = ?n \<or> \<not> br_addr (rd_reg (brt_r rdt ! e)) < addr" "0 < ?n \<longrightarrow> b < e"
    using find_i_loop_brackets [of 0 "brt_r rdt" addr ?n ?n] by auto
  have k: "?k \<le> ?n" using fidx_le n by metis
  have "b \<le> ?k"
  proof (rule ccontr)
    assume *: "\<not> b \<le> ?k"
    then have kb: "?k < b" "b < ?n" "?k < length ?rs" using l n by auto
    have a: "unat addr < rhi (?rs ! ?k)" using fidx_at [OF kb(3)] .
    have "rhi (?rs ! ?k) \<le> rlo (?rs ! b)" using regs_ok_nth [OF ok kb(1)] kb n by simp
    then show False using a l(5) kb r [of b] by (auto simp: word_less_nat_alt)
  qed
  moreover have "?k \<le> e"
  proof (rule ccontr)
    assume *: "\<not> ?k \<le> e"
    then have e: "e < ?n" "e < ?k" using k by auto
    have "rhi (?rs ! e) \<le> unat addr" using fidx_below [OF e(2)] .
    moreover have "rlo (?rs ! e) < rhi (?rs ! e)" using regs_ok_reg [OF ok, of e] e n by (simp add: reg_ok_def)
    ultimately show False using l(6) e r [of e] by (simp add: word_less_nat_alt)
  qed
  ultimately have "b = ?k \<or> e = ?k" using l(4) by linarith
  then show ?thesis
    using l k check_i_fidx [OF assms, of _ addr] rdt_ok_invariant [OF assms]
    by (auto simp: be_rdt_find_i_def m0_be_rdt_size_def Let_def)
qed

lemma rdt_find_ok:
  assumes "rdt_ok rdt"
  shows "m0_be_rdt_find rdt addr =
    Some (let k = fidx (unat addr) (rdt_regs rdt) in if k = brt_size rdt then None else Some k)"
  using find_i_ok [OF assms] rdt_ok_invariant [OF assms] fidx_le [of "unat addr" "rdt_regs rdt"] rdt_regs_nth(1) [OF assms]
  by (simp add: m0_be_rdt_find_def be_rdt_contains_def Let_def)

lemma rdt_next_ok:
  assumes "rdt_ok rdt" "i < brt_size rdt"
  shows "m0_be_rdt_next rdt i = Some (if i + 1 = brt_size rdt then None else Some (i + 1))"
  using rdt_ok_invariant [OF assms(1)] assms(2)
  by (auto simp: m0_be_rdt_next_def be_rdt_contains_def Let_def)

text \<open>Insertion and removal shift the rest of the array.\<close>

lemma ins_loop_length [simp]: "length (ins_loop r n k) = length r"
  by (induction r n k rule: ins_loop.induct) auto

lemma ins_loop_nth:
  assumes "k \<le> n" "n < length r" "j < length r"
  shows "ins_loop r n k ! j = (if k < j \<and> j \<le> n then r ! (j - 1) else r ! j)"
  using assms
proof (induction r n k rule: ins_loop.induct)
  case (2 r i index)
  show ?case
  proof (cases "Suc i > index")
    case True
    then have "ins_loop r (Suc i) index ! j = ins_loop (r[Suc i := r ! i]) i index ! j" by simp
    also have "\<dots> = (if index < j \<and> j \<le> i then r[Suc i := r ! i] ! (j - 1) else r[Suc i := r ! i] ! j)"
      using 2 True by simp
    also have "\<dots> = (if index < j \<and> j \<le> Suc i then r ! (j - 1) else r ! j)"
      using True 2(3,4) by (auto simp: nth_list_update)
    finally show ?thesis .
  next
    case False
    then show ?thesis using 2(2) by auto
  qed
qed auto

lemma ins_loop_take:
  assumes "k \<le> n" "n < length r"
  shows "take (n + 1) ((ins_loop r n k)[k := x]) = take k (take n r) @ x # drop k (take n r)"
proof (rule nth_equalityI)
  show "length (take (n + 1) ((ins_loop r n k)[k := x])) = length (take k (take n r) @ x # drop k (take n r))"
    using assms by simp
  fix j
  assume "j < length (take (n + 1) ((ins_loop r n k)[k := x]))"
  then have j: "j \<le> n" "j < length r" using assms by auto
  have "(take k (take n r) @ x # drop k (take n r)) ! j = (if j < k then r ! j else if j = k then x else r ! (j - 1))"
  proof -
    consider "j < k" | "j = k" | x where "j = k + Suc x" by (metis less_imp_Suc_add linorder_neqE_nat add_Suc_right)
    then show ?thesis using j assms by cases (simp_all add: nth_append min_absorb2)
  qed
  then show "take (n + 1) ((ins_loop r n k)[k := x]) ! j = (take k (take n r) @ x # drop k (take n r)) ! j"
    using j assms ins_loop_nth [OF assms j(2)] by (simp add: nth_list_update)
qed

declare del_loop.simps [simp del]

lemma del_loop_nth:
  assumes "n \<le> length r"
  shows "length (del_loop r n i) = length r \<and>
    (\<forall>j < length r. del_loop r n i ! j = (if i \<le> j \<and> j + 1 < n then r ! (j + 1) else r ! j))"
  using assms
proof (induction r n i rule: del_loop.induct)
  case (1 r n i)
  show ?case
  proof (cases "i + 1 < n")
    case True
    then have "del_loop r n i = del_loop (r[i := r ! (i + 1)]) n (i + 1)" by (subst del_loop.simps) simp
    then show ?thesis using "1.IH" [OF True] "1.prems" True by (auto simp: nth_list_update)
  next
    case False
    then have "del_loop r n i = r" by (subst del_loop.simps) simp
    then show ?thesis using False by auto
  qed
qed

lemma del_loop_take:
  assumes "n \<le> length r" "i < n"
  shows "take (n - 1) (del_loop r n i) = take i (take n r) @ drop (i + 1) (take n r)"
proof (rule nth_equalityI)
  have len: "length (del_loop r n i) = length r" using del_loop_nth [OF assms(1)] by simp
  then show "length (take (n - 1) (del_loop r n i)) = length (take i (take n r) @ drop (i + 1) (take n r))"
    using assms by simp
  fix j
  assume "j < length (take (n - 1) (del_loop r n i))"
  then have j: "j < n - 1" "j < length r" using assms len by auto
  have "(take i (take n r) @ drop (i + 1) (take n r)) ! j = (if j < i then r ! j else r ! (j + 1))"
    using j assms by (auto simp: nth_append)
  then show "take (n - 1) (del_loop r n i) ! j = (take i (take n r) @ drop (i + 1) (take n r)) ! j"
    using j del_loop_nth [OF assms(1), of i] by auto
qed

lemma fidx_insert_ok:
  assumes "regs_ok rs" "reg_ok rd" "\<forall>r \<in> set rs. rhi r \<le> rlo rd \<or> rhi rd \<le> rlo r"
  shows "regs_ok (take (fidx (rlo rd) rs) rs @ rd # drop (fidx (rlo rd) rs) rs)"
proof -
  let ?P = "\<lambda>r. rhi r \<le> rlo rd"
  have td: "take (fidx (rlo rd) rs) rs = takeWhile ?P rs" "drop (fidx (rlo rd) rs) rs = dropWhile ?P rs"
    using takeWhile_prefix(2,3) [OF refl, of ?P rs] by (simp_all add: fidx_def)
  have split: "regs_ok (takeWhile ?P rs)" "regs_ok (dropWhile ?P rs)"
    "\<forall>r \<in> set (takeWhile ?P rs). \<forall>s \<in> set (dropWhile ?P rs). rhi r \<le> rlo s"
    using assms(1) regs_ok_simps(3) [of "takeWhile ?P rs" "dropWhile ?P rs"] by simp_all
  have after: "rhi rd \<le> rlo r" if "r \<in> set (dropWhile ?P rs)" for r
  proof -
    from that obtain h t where dw: "dropWhile ?P rs = h # t" by (cases "dropWhile ?P rs") auto
    then have h: "\<not> ?P h" using hd_dropWhile [of ?P rs] by simp
    have "h \<in> set rs" using dw set_dropWhileD [of h ?P rs] by simp
    then have "rhi rd \<le> rlo h" using assms(3) h by auto
    moreover have "rlo h \<le> rlo r" using split dw that by auto
    ultimately show ?thesis by simp
  qed
  show ?thesis unfolding td using split after assms(2) by (auto dest: set_takeWhileD)
qed

lemma rdt_ins_ok:
  assumes "rdt_ok rdt" "brt_size rdt < brt_size_max rdt" "reg_ok rd"
    "\<forall>r \<in> set (rdt_regs rdt). rhi r \<le> rlo rd \<or> rhi rd \<le> rlo r"
  shows "\<exists>rdt'. m0_be_rdt_ins rdt rd = Some rdt' \<and> rdt_ok rdt' \<and> brt_size_max rdt' = brt_size_max rdt \<and>
    rdt_regs rdt' = (let k = fidx (rlo rd) (rdt_regs rdt) in take k (rdt_regs rdt) @ rd # drop k (rdt_regs rdt))"
proof -
  let ?rs = "rdt_regs rdt" and ?n = "brt_size rdt"
  let ?k = "fidx (rlo rd) ?rs"
  let ?rdt = "rdt\<lparr>brt_size := ?n + 1, brt_r := (ins_loop (brt_r rdt) ?n ?k)[?k := rd]\<rparr>"
  have k: "?k \<le> ?n" using fidx_le rdt_regs_nth(1) [OF assms(1)] by metis
  have len: "?n < length (brt_r rdt)" using assms(1,2) by (simp add: rdt_ok_def)
  have regs: "rdt_regs ?rdt = take ?k ?rs @ rd # drop ?k ?rs"
    using ins_loop_take [OF k len, of rd] by (simp add: rdt_regs_def)
  have ok: "rdt_ok ?rdt"
    unfolding rdt_ok_def regs using assms fidx_insert_ok [of ?rs rd] by (simp add: rdt_ok_def)
  have "m0_be_rdt_ins rdt rd = Some ?rdt"
    using find_i_ok [OF assms(1)] rdt_ok_invariant [OF assms(1)] rdt_ok_invariant [OF ok] assms(2,3)
    by (simp add: m0_be_rdt_ins_def m0_be_rdt_size_def be_reg_d_fb_def Let_def reg_ok_def word_less_nat_alt)
  then show ?thesis using ok regs by (simp add: Let_def)
qed

lemma rdt_del_ok:
  assumes "rdt_ok rdt" "rdt_regs rdt = A @ r # B" "rd_reg r = rd_reg rd"
  shows "\<exists>rdt'. m0_be_rdt_del rdt rd = Some (rdt', if B = [] then None else Some (length A)) \<and> rdt_ok rdt' \<and>
    brt_size_max rdt' = brt_size_max rdt \<and> rdt_regs rdt' = A @ B"
proof -
  let ?n = "brt_size rdt" and ?i = "length A"
  let ?rdt = "rdt\<lparr>brt_r := del_loop (brt_r rdt) ?n ?i, brt_size := ?n - 1\<rparr>"
  have ok: "regs_ok (A @ r # B)" using assms(1,2) by (simp add: rdt_ok_def)
  have n: "?n = length A + 1 + length B" using rdt_regs_nth(1) [OF assms(1)] assms(2) by simp
  have len: "?n \<le> length (brt_r rdt)" using assms(1) by (simp add: rdt_ok_def)
  have nth: "brt_r rdt ! ?i = r" using rdt_regs_nth(2) [OF assms(1), of ?i] n assms(2) by simp
  have idx: "fidx (rlo rd) (A @ r # B) = ?i"
  proof (rule fidx_unique [OF ok])
    assume "0 < ?i"
    then show "rhi ((A @ r # B) ! (?i - 1)) \<le> rlo rd"
      using ok assms(3) by (cases A rule: rev_cases) (simp_all add: nth_append)
  next
    show "rlo rd < rhi ((A @ r # B) ! ?i)" using ok assms(3) by (simp add: reg_ok_def)
  qed simp
  have "take (?n - 1) (del_loop (brt_r rdt) ?n ?i) = take ?i (rdt_regs rdt) @ drop (?i + 1) (rdt_regs rdt)"
    unfolding rdt_regs_def by (rule del_loop_take [OF len]) (simp add: n)
  then have regs: "rdt_regs ?rdt = A @ B" unfolding assms(2) by (simp add: rdt_regs_def)
  have okn: "rdt_ok ?rdt"
    unfolding rdt_ok_def regs using assms(1) ok del_loop_nth [OF len, of ?i] by (auto simp: rdt_ok_def)
  have "m0_be_rdt_del rdt rd = Some (?rdt, if ?i = ?n - 1 then None else Some ?i)"
    using find_i_ok [OF assms(1)] rdt_ok_invariant [OF assms(1)] rdt_ok_invariant [OF okn] nth n idx assms(2,3)
    by (simp add: m0_be_rdt_del_def m0_be_rdt_size_def be_reg_d_fb_def m0_be_reg_eq_def Let_def)
  moreover have "?i = ?n - 1 \<longleftrightarrow> B = []" using n by auto
  ultimately show ?thesis using okn regs by simp
qed

section \<open>Properties\<close>

text \<open>C7. On a well-formed array of regions the binary search stops, passes its assertions, and returns the index of the
  first region that ends after the address, as a scan of the array from its start would.\<close>

theorem rdt_find_i_scan:
  assumes "rdt_ok rdt"
  shows "be_rdt_find_i rdt addr = Some (length (takeWhile (\<lambda>r. rhi r \<le> unat addr) (rdt_regs rdt)))"
  using find_i_ok [OF assms] by (simp add: fidx_def)

text \<open>C8. Inserting a region that overlaps no other in an array with room keeps the regions in order and disjoint, and
  deleting it again gives the old regions back.\<close>

theorem rdt_ins_del:
  assumes "rdt_ok rdt" "brt_size rdt < brt_size_max rdt" "reg_ok rd"
    "\<forall>r \<in> set (rdt_regs rdt). rhi r \<le> rlo rd \<or> rhi rd \<le> rlo r"
  shows "\<exists>rdt1 rdt2 nxt. m0_be_rdt_ins rdt rd = Some rdt1 \<and> rdt_ok rdt1 \<and> set (rdt_regs rdt1) = insert rd (set (rdt_regs rdt)) \<and>
    m0_be_rdt_del rdt1 rd = Some (rdt2, nxt) \<and> rdt_ok rdt2 \<and> rdt_regs rdt2 = rdt_regs rdt"
proof -
  define k where "k = fidx (rlo rd) (rdt_regs rdt)"
  obtain rdt1 where ins: "m0_be_rdt_ins rdt rd = Some rdt1" "rdt_ok rdt1"
    "rdt_regs rdt1 = take k (rdt_regs rdt) @ rd # drop k (rdt_regs rdt)"
    using rdt_ins_ok [OF assms] unfolding k_def Let_def by blast
  have "set (rdt_regs rdt1) = insert rd (set (take k (rdt_regs rdt) @ drop k (rdt_regs rdt)))"
    unfolding ins(3) set_append by simp
  then have "set (rdt_regs rdt1) = insert rd (set (rdt_regs rdt))" by simp
  moreover obtain rdt2 nxt where "m0_be_rdt_del rdt1 rd = Some (rdt2, nxt)" "rdt_ok rdt2" "rdt_regs rdt2 = rdt_regs rdt"
    using rdt_del_ok [OF ins(2,3) refl] by auto
  ultimately show ?thesis using ins by blast
qed

section \<open>Witnesses\<close>

definition region :: "u64 \<Rightarrow> u64 \<Rightarrow> u64 \<Rightarrow> m0_be_reg_d" where
  "region addr sz buf = \<lparr>rd_reg = \<lparr>br_seg = 0, br_size = sz, br_addr = addr\<rparr>, rd_buf = buf, rd_gen_idx = 0\<rparr>"

definition sample_rdt :: m0_be_reg_d_tree where
  "sample_rdt = \<lparr>brt_size = 2, brt_size_max = 3, brt_r = [region 16 4 0, region 32 8 0, region 0 0 0]\<rparr>"

lemma sample_rdt_ok: "rdt_ok sample_rdt" "rdt_regs sample_rdt = [region 16 4 0, region 32 8 0]"
proof -
  show regs: "rdt_regs sample_rdt = [region 16 4 0, region 32 8 0]"
    by (simp add: sample_rdt_def rdt_regs_def take_Cons')
  show "rdt_ok sample_rdt"
    unfolding rdt_ok_def regs by (simp add: sample_rdt_def region_def reg_ok_def)
qed

theorem rdt_find_i_scan_witness: "be_rdt_find_i sample_rdt 20 = Some 1"
  using rdt_find_i_scan [OF sample_rdt_ok(1), of 20] by (simp add: sample_rdt_ok(2)) (simp add: region_def)

theorem rdt_ins_del_witness:
  "\<exists>rdt1 rdt2 nxt. m0_be_rdt_ins sample_rdt (region 20 12 0) = Some rdt1 \<and> rdt_ok rdt1 \<and>
    set (rdt_regs rdt1) = insert (region 20 12 0) (set (rdt_regs sample_rdt)) \<and>
    m0_be_rdt_del rdt1 (region 20 12 0) = Some (rdt2, nxt) \<and> rdt_ok rdt2 \<and> rdt_regs rdt2 = rdt_regs sample_rdt"
proof (rule rdt_ins_del [OF sample_rdt_ok(1)])
  show "\<forall>r \<in> set (rdt_regs sample_rdt). rhi r \<le> rlo (region 20 12 0) \<or> rhi (region 20 12 0) \<le> rlo r"
    unfolding sample_rdt_ok(2) by (simp add: region_def)
qed (simp_all add: sample_rdt_def region_def reg_ok_def)

end
