(* ===== verification/Motr_RegArea.thy ===== *)
theory Motr_RegArea
  imports Motr_Regmap
begin

text \<open>
  What a map of regions and an area of \<^verbatim>\<open>src/be/tx_regmap.c\<close> record: the abstraction of a list of regions is
  the partial function from addresses to the bytes kept for them. The locale \<open>area_callbacks\<close> is the
  contract between a map and its table of callbacks; it is interpreted for both tables of the areas.
\<close>


section \<open>The bytes held by a list of regions\<close>

text \<open>Where a region keeps its copy of the byte at an address, and the byte recorded for an address.\<close>

definition buf_at :: "m0_be_reg_d \<Rightarrow> u64 \<Rightarrow> u64" where
  "buf_at r a = rd_buf r + (a - be_reg_d_fb r)"

fun area_bytes :: "mem \<Rightarrow> m0_be_reg_d list \<Rightarrow> u64 \<Rightarrow> u8 option" where
  "area_bytes m [] a = None"
| "area_bytes m (r # rs) a =
     (if m0_be_reg_d_is_in r a then Some (m (buf_at r a)) else area_bytes m rs a)"

lemma area_bytes_append:
  "area_bytes m (rs @ ss) a = (case area_bytes m rs a of None \<Rightarrow> area_bytes m ss a | Some x \<Rightarrow> Some x)"
  by (induction rs) auto

lemma area_bytes_None: "area_bytes m rs a = None \<longleftrightarrow> (\<forall>r \<in> set rs. \<not> m0_be_reg_d_is_in r a)"
  by (induction rs) auto

text \<open>The parts of a region before and after an address.\<close>

definition cut_tail :: "u64 \<Rightarrow> m0_be_reg_d \<Rightarrow> m0_be_reg_d" where
  "cut_tail x r = r\<lparr>rd_reg := (rd_reg r)\<lparr>br_size := x - be_reg_d_fb r\<rparr>\<rparr>"

definition cut_head :: "u64 \<Rightarrow> m0_be_reg_d \<Rightarrow> m0_be_reg_d" where
  "cut_head x r = r\<lparr>rd_reg := (rd_reg r)\<lparr>br_size := be_reg_d_lb1 r - x, br_addr := x\<rparr>,
     rd_buf := rd_buf r + (x - be_reg_d_fb r)\<rparr>"

definition absorbs :: "m0_be_reg_d \<Rightarrow> m0_be_reg_d \<Rightarrow> bool" where
  "absorbs r rd \<longleftrightarrow> rlo r < rlo rd \<and> rhi rd < rhi r"

text \<open>What is left of a region when another one, which it does not absorb, is taken out of it.\<close>

definition trim :: "m0_be_reg_d \<Rightarrow> m0_be_reg_d \<Rightarrow> m0_be_reg_d list" where
  "trim rd r =
     (if rhi r \<le> rlo rd \<or> rhi rd \<le> rlo r then [r]
      else if rlo r < rlo rd then [cut_tail (be_reg_d_fb rd) r]
      else if rhi rd < rhi r then [cut_head (be_reg_d_lb1 rd) r]
      else [])"

lemma cut_tail_nat:
  assumes "reg_ok r" "rlo r < unat x" "unat x < rhi r"
  shows "rlo (cut_tail x r) = rlo r" "rhi (cut_tail x r) = unat x" "reg_ok (cut_tail x r)"
proof -
  have "be_reg_d_fb r \<le> x" using assms(2) by (simp add: be_reg_d_fb_def word_le_nat_alt)
  then have sz: "rsz (cut_tail x r) = unat x - rlo r"
    using assms by (simp add: cut_tail_def unat_sub_noof reg_nat)
  show lo: "rlo (cut_tail x r) = rlo r" by (simp add: cut_tail_def)
  show hi: "rhi (cut_tail x r) = unat x" using sz lo assms(2) by simp
  show "reg_ok (cut_tail x r)" using hi lo sz assms by (auto simp: reg_ok_def)
qed

lemma cut_head_nat:
  assumes "reg_ok r" "rlo r < unat x" "unat x < rhi r"
  shows "rlo (cut_head x r) = unat x" "rhi (cut_head x r) = rhi r" "reg_ok (cut_head x r)"
proof -
  have "x \<le> be_reg_d_lb1 r" using assms by (simp add: reg_nat word_le_nat_alt)
  then have sz: "rsz (cut_head x r) = rhi r - unat x"
    using assms by (simp add: cut_head_def unat_sub_noof reg_nat)
  show lo: "rlo (cut_head x r) = unat x" by (simp add: cut_head_def)
  show hi: "rhi (cut_head x r) = rhi r" using sz lo assms(3) by simp
  show "reg_ok (cut_head x r)" using hi lo sz assms by (auto simp: reg_ok_def)
qed

lemma cut_buf:
  "buf_at (cut_tail x r) a = buf_at r a"
  "buf_at (cut_head x r) a = buf_at r a"
  by (simp_all add: buf_at_def cut_tail_def cut_head_def be_reg_d_fb_def)

lemma trim_cases:
  assumes "reg_ok r" "reg_ok rd"
  obtains (out) "rhi r \<le> rlo rd \<or> rhi rd \<le> rlo r" "trim rd r = [r]"
  | (tail) "rlo r < rlo rd" "rlo rd < rhi r" "trim rd r = [cut_tail (be_reg_d_fb rd) r]"
      "rlo (cut_tail (be_reg_d_fb rd) r) = rlo r" "rhi (cut_tail (be_reg_d_fb rd) r) = rlo rd" "reg_ok (cut_tail (be_reg_d_fb rd) r)"
  | (head) "rlo rd \<le> rlo r" "rlo r < rhi rd" "rhi rd < rhi r" "trim rd r = [cut_head (be_reg_d_lb1 rd) r]"
      "rlo (cut_head (be_reg_d_lb1 rd) r) = rhi rd" "rhi (cut_head (be_reg_d_lb1 rd) r) = rhi r" "reg_ok (cut_head (be_reg_d_lb1 rd) r)"
  | (all) "rlo rd \<le> rlo r" "rhi r \<le> rhi rd" "rlo rd < rhi r" "trim rd r = []"
proof -
  consider "rhi r \<le> rlo rd \<or> rhi rd \<le> rlo r" | "rlo r < rlo rd" "rlo rd < rhi r" "rlo r < rhi rd"
    | "rlo rd \<le> rlo r" "rlo r < rhi rd" "rhi rd < rhi r"
    | "rlo rd \<le> rlo r" "rhi r \<le> rhi rd" "rlo r < rhi rd" "rlo rd < rhi r" by linarith
  then show thesis
  proof cases
    case 1
    then show ?thesis by (intro out) (auto simp: trim_def)
  next
    case 2
    then show ?thesis using cut_tail_nat [OF assms(1), of "be_reg_d_fb rd"] assms
      by (intro tail) (simp_all add: trim_def reg_nat)
  next
    case 3
    then show ?thesis using cut_head_nat [OF assms(1), of "be_reg_d_lb1 rd"] assms
      by (intro head) (simp_all add: trim_def reg_nat)
  next
    case 4
    then show ?thesis by (intro all) (auto simp: trim_def)
  qed
qed

lemma trim_bounds:
  assumes "reg_ok r" "reg_ok rd" "p \<in> set (trim rd r)"
  shows "reg_ok p \<and> rlo r \<le> rlo p \<and> rhi p \<le> rhi r"
  using assms(3) by (cases rule: trim_cases [OF assms(1,2)]) (use assms in auto)

lemma trim_regs_ok:
  assumes "regs_ok rs" "reg_ok rd"
  shows "regs_ok (concat (map (trim rd) rs))"
  using assms(1)
proof (induction rs)
  case (Cons r rs)
  have r: "reg_ok r" and rs: "\<forall>s \<in> set rs. reg_ok s" using Cons.prems by (auto simp: regs_ok_def)
  have "regs_ok (trim rd r)" using trim_bounds [OF r assms(2)] by (auto simp: trim_def)
  moreover have "rhi p \<le> rlo q" if pq: "p \<in> set (trim rd r)" "s \<in> set rs" "q \<in> set (trim rd s)" for p q s
    using trim_bounds [OF r assms(2) pq(1)] trim_bounds [of s rd q] rs assms(2) pq Cons.prems by fastforce
  ultimately show ?case using Cons by auto
qed simp

lemma trim_away:
  assumes "reg_ok r" "reg_ok rd" "\<not> absorbs r rd" "p \<in> set (trim rd r)"
  shows "rhi p \<le> rlo rd \<or> rhi rd \<le> rlo p"
  using assms(4) by (cases rule: trim_cases [OF assms(1,2)]) auto

lemma trim_buf:
  assumes "reg_ok r" "reg_ok rd" "p \<in> set (trim rd r)"
  shows "buf_at p a = buf_at r a"
  using assms(3) by (cases rule: trim_cases [OF assms(1,2)]) (auto simp: cut_buf)

lemma trim_in:
  assumes "reg_ok r" "reg_ok rd" "\<not> absorbs r rd"
  shows "(\<exists>p \<in> set (trim rd r). m0_be_reg_d_is_in p a) \<longleftrightarrow> m0_be_reg_d_is_in r a \<and> \<not> m0_be_reg_d_is_in rd a"
  using assms(1,2)
proof (cases rule: trim_cases)
  case out
  then show ?thesis using assms by (auto simp: is_in_nat)
next
  case tail
  then show ?thesis using assms by (auto simp: is_in_nat absorbs_def)
next
  case head
  then show ?thesis using assms by (auto simp: is_in_nat)
next
  case all
  then show ?thesis using assms by (auto simp: is_in_nat)
qed

lemma trim_bytes:
  assumes "reg_ok r" "reg_ok rd" "\<not> absorbs r rd"
  shows "area_bytes m (trim rd r) a = (if m0_be_reg_d_is_in rd a then None else area_bytes m [r] a)"
proof -
  have "area_bytes m (trim rd r) a =
      (if \<exists>p \<in> set (trim rd r). m0_be_reg_d_is_in p a then Some (m (buf_at r a)) else None)"
    using trim_buf [OF assms(1,2), of _ a]
    by (cases rule: trim_cases [OF assms(1,2)]) auto
  then show ?thesis unfolding trim_in [OF assms] by simp
qed

lemma trim_all_bytes:
  assumes "\<forall>r \<in> set rs. reg_ok r \<and> \<not> absorbs r rd" "reg_ok rd"
  shows "area_bytes m (concat (map (trim rd) rs)) a = (if m0_be_reg_d_is_in rd a then None else area_bytes m rs a)"
  using assms(1) by (induction rs) (auto simp: area_bytes_append trim_bytes [OF _ assms(2)])

lemma trim_id:
  assumes "\<forall>r \<in> set rs. rhi r \<le> rlo rd \<or> rhi rd \<le> rlo r"
  shows "concat (map (trim rd) rs) = rs"
  using assms by (induction rs) (auto simp: trim_def)

lemma trim_Nil: "reg_ok r \<Longrightarrow> rlo rd \<le> rlo r \<Longrightarrow> rhi r \<le> rhi rd \<Longrightarrow> trim rd r = []"
  unfolding trim_def reg_ok_def by simp

lemma trim_length: "length (concat (map (trim rd) rs)) \<le> length rs"
  by (induction rs) (auto simp: trim_def)

section \<open>The map of regions and its callbacks\<close>

text \<open>
  What a map of regions relies on: cutting and splitting a region moves its buffer pointer along,
  deleting has no effect, and adding a region for which the state is \<open>ready\<close> gives it a buffer that
  holds the bytes found at its \<open>source\<close> and leaves the buffers \<open>in_use\<close> alone.
\<close>

definition bufs_in :: "u64 set \<Rightarrow> m0_be_reg_d list \<Rightarrow> bool" where
  "bufs_in U rs \<longleftrightarrow> (\<forall>r \<in> set rs. \<forall>a. m0_be_reg_d_is_in r a \<longrightarrow> buf_at r a \<in> U)"

locale area_callbacks =
  fixes ops :: "'d m0_be_regmap_ops"
    and mem_of :: "'d \<Rightarrow> mem"
    and in_use :: "'d \<Rightarrow> u64 set"
    and ready :: "'d \<Rightarrow> m0_be_reg_d \<Rightarrow> bool"
    and source :: "m0_be_reg_d \<Rightarrow> u64 \<Rightarrow> u64"
  assumes op_cut: "rmo_cut ops d rd s e = Some (d, rd\<lparr>rd_buf := rd_buf rd + s\<rparr>)"
    and op_del: "rmo_del ops d rd = Some d"
    and op_split: "rmo_split ops d rd rd_new =
      Some (d, \<lparr>rd_reg = (rd_reg rd_new)\<lparr>br_seg := br_seg (rd_reg rd)\<rparr>,
                rd_buf = rd_buf rd + br_size (rd_reg rd), rd_gen_idx = rd_gen_idx rd\<rparr>)"
    and op_add: "reg_ok rd \<Longrightarrow> ready d rd \<Longrightarrow> \<exists>d' b. rmo_add ops d rd = Some (d', rd\<lparr>rd_buf := b\<rparr>) \<and>
      in_use d \<subseteq> in_use d' \<and> (\<forall>a \<in> in_use d. mem_of d' a = mem_of d a) \<and>
      (\<forall>a. m0_be_reg_d_is_in rd a \<longrightarrow>
         buf_at (rd\<lparr>rd_buf := b\<rparr>) a \<in> in_use d' \<and> mem_of d' (buf_at (rd\<lparr>rd_buf := b\<rparr>) a) = mem_of d (source rd a))"

lemma bufs_in_trim:
  assumes "regs_ok rs" "reg_ok rd" "bufs_in U rs"
  shows "bufs_in U (concat (map (trim rd) rs))"
proof -
  have "buf_at p a \<in> U" if r: "r \<in> set rs" and p: "p \<in> set (trim rd r)" and a: "m0_be_reg_d_is_in p a" for r p a
  proof -
    have ok: "reg_ok r" using assms(1) r by (simp add: regs_ok_def)
    have "reg_ok p \<and> rlo r \<le> rlo p \<and> rhi p \<le> rhi r" using trim_bounds [OF ok assms(2) p] .
    then have "m0_be_reg_d_is_in r a" using a ok by (auto simp: is_in_nat)
    then show ?thesis using assms(3) r trim_buf [OF ok assms(2) p, of a] by (auto simp: bufs_in_def)
  qed
  then show ?thesis by (auto simp: bufs_in_def)
qed

lemma area_bytes_mem:
  assumes "bufs_in U rs" "\<forall>a \<in> U. m' a = m a"
  shows "area_bytes m' rs a = area_bytes m rs a"
  using assms by (induction rs) (auto simp: bufs_in_def)

lemma area_bytes_insert:
  assumes "\<forall>r \<in> set rs. m0_be_reg_d_is_in x a \<longrightarrow> \<not> m0_be_reg_d_is_in r a"
  shows "area_bytes m (take k rs @ x # drop k rs) a =
    (if m0_be_reg_d_is_in x a then Some (m (buf_at x a)) else area_bytes m rs a)"
proof -
  have "area_bytes m (take k rs) a = None" if "m0_be_reg_d_is_in x a"
    using assms that by (auto simp: area_bytes_None dest: in_set_takeD)
  moreover have "area_bytes m rs a = (case area_bytes m (take k rs) a of None \<Rightarrow> area_bytes m (drop k rs) a | Some y \<Rightarrow> Some y)"
    by (metis append_take_drop_id area_bytes_append)
  ultimately show ?thesis by (auto simp: area_bytes_append split: option.splits)
qed

lemma bufs_in_insert:
  assumes "bufs_in U rs" "U \<subseteq> U'" "\<forall>a. m0_be_reg_d_is_in x a \<longrightarrow> buf_at x a \<in> U'"
  shows "bufs_in U' (take k rs @ x # drop k rs)"
  using assms unfolding bufs_in_def set_append list.set by (blast dest: in_set_takeD in_set_dropD)

text \<open>An assignment to a region of the map.\<close>

lemma reg_at_ok:
  assumes "rdt_ok (br_rdt rm)" "rdt_regs (br_rdt rm) = A @ r # B"
  shows "reg_at rm (length A) = r" "length A < brt_size (br_rdt rm)" "reg_ok r"
proof -
  have n: "brt_size (br_rdt rm) = length A + 1 + length B" using rdt_regs_nth(1) [OF assms(1)] assms(2) by simp
  then show "reg_at rm (length A) = r" "length A < brt_size (br_rdt rm)"
    using rdt_regs_nth(2) [OF assms(1), of "length A"] assms(2) by simp_all
  show "reg_ok r" using assms by (simp add: rdt_ok_def)
qed

lemma reg_put_ok:
  assumes "rdt_ok (br_rdt rm)" "rdt_regs (br_rdt rm) = A @ r # B"
    and "reg_ok r'" "rlo r \<le> rlo r'" "rhi r' \<le> rhi r"
  shows "rdt_ok (br_rdt (reg_put rm (length A) r'))"
    "rdt_regs (br_rdt (reg_put rm (length A) r')) = A @ r' # B"
    "brt_size_max (br_rdt (reg_put rm (length A) r')) = brt_size_max (br_rdt rm)"
proof -
  show regs: "rdt_regs (br_rdt (reg_put rm (length A) r')) = A @ r' # B"
    using assms(2) by (simp add: reg_put_def rdt_regs_def take_update_swap)
  show "brt_size_max (br_rdt (reg_put rm (length A) r')) = brt_size_max (br_rdt rm)" by (simp add: reg_put_def)
  have "regs_ok (A @ r # B)" using assms(1,2) by (simp add: rdt_ok_def)
  then have "regs_ok (A @ r' # B)" using assms(3-5) by (auto intro: order_trans)
  then show "rdt_ok (br_rdt (reg_put rm (length A) r'))"
    using assms(1) regs by (simp add: rdt_ok_def) (simp add: reg_put_def)
qed

context area_callbacks
begin

lemma cut_end_eval:
  assumes "br_ops rm = ops" "rdt_ok (br_rdt rm)" "rdt_regs (br_rdt rm) = A @ r # B" "rlo r < unat x" "unat x < rhi r"
    "e = be_reg_d_lb1 r - x"
  shows "be_regmap_reg_d_cut rm d (length A) 0 e = Some (reg_put rm (length A) (cut_tail x r), d)"
proof -
  have r: "reg_ok r" using assms(2,3) by (simp add: rdt_ok_def)
  note c = cut_tail_nat [OF r assms(4,5)]
  note at = reg_at_ok(1) [OF assms(2,3)]
  have "x \<le> be_reg_d_lb1 r" using assms(5) r by (simp add: word_le_nat_alt reg_nat)
  then have "unat e = rhi r - unat x" using assms(6) r by (simp add: unat_sub_noof reg_nat)
  then have lt: "e < br_size (rd_reg r)" using assms(4,5) by (simp add: word_less_nat_alt)
  have "br_size (rd_reg r) - e = x - br_addr (rd_reg r)"
    by (simp add: assms(6) be_reg_d_lb1_def be_reg_d_lb_def)
  then have "r\<lparr>rd_reg := (rd_reg r)\<lparr>br_size := br_size (rd_reg r) - e\<rparr>\<rparr> = cut_tail x r"
    by (simp add: cut_tail_def be_reg_d_fb_def)
  then show ?thesis
    using lt reg_ok_invariant [OF r] reg_ok_invariant [OF c(3)] at
    by (simp add: be_regmap_reg_d_cut_def assms(1) op_cut Let_def)
qed

lemma cut_start_eval:
  assumes "br_ops rm = ops" "rdt_ok (br_rdt rm)" "rdt_regs (br_rdt rm) = A @ r # B" "rlo r < unat x" "unat x < rhi r"
    "s = x - be_reg_d_fb r"
  shows "be_regmap_reg_d_cut rm d (length A) s 0 = Some (reg_put rm (length A) (cut_head x r), d)"
proof -
  have r: "reg_ok r" using assms(2,3) by (simp add: rdt_ok_def)
  note c = cut_head_nat [OF r assms(4,5)]
  note at = reg_at_ok(1) [OF assms(2,3)]
  have "be_reg_d_fb r \<le> x" using assms(4) r by (simp add: word_le_nat_alt reg_nat)
  then have "unat s = unat x - rlo r" using assms(6) r by (simp add: unat_sub_noof reg_nat)
  then have lt: "s < br_size (rd_reg r)" using assms(4,5) by (simp add: word_less_nat_alt)
  have "br_size (rd_reg r) - s = be_reg_d_lb1 r - x" "br_addr (rd_reg r) + s = x"
    by (simp_all add: assms(6) be_reg_d_lb1_def be_reg_d_lb_def be_reg_d_fb_def)
  then have "r\<lparr>rd_buf := rd_buf r + s, rd_reg := (rd_reg r)\<lparr>br_size := br_size (rd_reg r) - s, br_addr := br_addr (rd_reg r) + s\<rparr>\<rparr> = cut_head x r"
    by (simp add: cut_head_def assms(6))
  then show ?thesis
    using lt reg_ok_invariant [OF r] reg_ok_invariant [OF c(3)] at
    by (simp add: be_regmap_reg_d_cut_def assms(1) op_cut Let_def)
qed

lemma del_loop_ok:
  assumes "br_ops rm = ops" "rdt_ok (br_rdt rm)" "rdt_regs (br_rdt rm) = A @ C" "reg_ok rd" "\<forall>c \<in> set C. rlo rd \<le> rlo c"
  shows "\<exists>rdt. regmap_del_loop rm d rd (if C = [] then None else Some (length A)) =
      Some (rm\<lparr>br_rdt := rdt\<rparr>, d, if dropWhile (\<lambda>c. rhi c \<le> rhi rd) C = [] then None else Some (length A)) \<and>
    rdt_ok rdt \<and> brt_size_max rdt = brt_size_max (br_rdt rm) \<and> rdt_regs rdt = A @ dropWhile (\<lambda>c. rhi c \<le> rhi rd) C"
  using assms
proof (induction C arbitrary: rm)
  case Nil
  then show ?case by (intro exI [of _ "br_rdt rm"]) (simp add: regmap_del_loop.simps)
next
  case (Cons c C)
  have c: "reg_ok c" using Cons.prems(2,3) by (simp add: rdt_ok_def)
  note at = reg_at_ok(1) [OF Cons.prems(2,3)]
  have part: "be_reg_d_is_partof rd c \<longleftrightarrow> rhi c \<le> rhi rd" using Cons.prems(5) c assms(4) by (simp add: partof_nat)
  show ?case
  proof (cases "rhi c \<le> rhi rd")
    case False
    then show ?thesis
      using Cons.prems part at by (intro exI [of _ "br_rdt rm"]) (simp add: regmap_del_loop.simps)
  next
    case True
    obtain rdt' where del: "m0_be_rdt_del (br_rdt rm) c = Some (rdt', if C = [] then None else Some (length A))"
      "rdt_ok rdt'" "brt_size_max rdt' = brt_size_max (br_rdt rm)" "rdt_regs rdt' = A @ C"
      using rdt_del_ok [OF Cons.prems(2,3) refl] by blast
    have "regmap_del_loop rm d rd (Some (length A)) =
        regmap_del_loop (rm\<lparr>br_rdt := rdt'\<rparr>) d rd (if C = [] then None else Some (length A))"
      using True part at del(1) Cons.prems(1) by (subst regmap_del_loop.simps) (simp add: op_del)
    then show ?thesis
      using Cons.IH [of "rm\<lparr>br_rdt := rdt'\<rparr>"] Cons.prems del True by simp
  qed
qed

lemma del_rest_ok:
  assumes "br_ops rm = ops" "rdt_ok (br_rdt rm)" "rdt_regs (br_rdt rm) = A @ C" "reg_ok rd" "\<forall>c \<in> set C. rlo rd \<le> rlo c"
  shows "\<exists>rdt. (do {
       (rm, d, rdi) \<leftarrow> regmap_del_loop rm d rd (if C = [] then None else Some (length A));
       regmap_del_last rm d rd rdi
     }) = Some (rm\<lparr>br_rdt := rdt\<rparr>, d) \<and>
    rdt_ok rdt \<and> brt_size_max rdt = brt_size_max (br_rdt rm) \<and> rdt_regs rdt = A @ concat (map (trim rd) C)"
proof -
  let ?P = "\<lambda>c. rhi c \<le> rhi rd"
  obtain rdt where l: "regmap_del_loop rm d rd (if C = [] then None else Some (length A)) =
      Some (rm\<lparr>br_rdt := rdt\<rparr>, d, if dropWhile ?P C = [] then None else Some (length A))"
    "rdt_ok rdt" "brt_size_max rdt = brt_size_max (br_rdt rm)" "rdt_regs rdt = A @ dropWhile ?P C"
    using del_loop_ok [OF assms] by blast
  have C: "\<forall>c \<in> set C. reg_ok c" using assms(2,3) by (simp add: rdt_ok_def regs_ok_def)
  have "concat (map (trim rd) (takeWhile ?P C)) = []"
    using assms(5) C by (auto dest!: set_takeWhileD intro: trim_Nil)
  moreover have "concat (map (trim rd) C) = concat (map (trim rd) (takeWhile ?P C @ dropWhile ?P C))" by simp
  ultimately have tr: "concat (map (trim rd) C) = concat (map (trim rd) (dropWhile ?P C))"
    unfolding map_append concat_append by simp
  show ?thesis
  proof (cases "dropWhile ?P C")
    case Nil
    then show ?thesis using l tr unfolding Nil by (intro exI [of _ rdt]) (simp add: regmap_del_last_def)
  next
    case (Cons y B)
    let ?rm = "rm\<lparr>br_rdt := rdt\<rparr>" and ?x = "be_reg_d_lb1 rd"
    have hy: "rhi rd < rhi y" using Cons hd_dropWhile [of ?P C] by simp
    have yC: "y \<in> set C" using Cons set_dropWhileD [of y ?P C] by simp
    then have y: "reg_ok y" "rlo rd \<le> rlo y" using C assms(5) by auto
    have regs: "rdt_regs (br_rdt ?rm) = A @ y # B" "rdt_ok (br_rdt ?rm)" using l Cons by simp_all
    have B: "concat (map (trim rd) B) = B"
      using regs hy y(1) by (intro trim_id) (auto simp: rdt_ok_def)
    note at = reg_at_ok(1) [OF regs(2,1)]
    have cond: "\<not> m0_be_reg_d_is_in y (be_reg_d_fb1 rd) \<and> m0_be_reg_d_is_in y (be_reg_d_lb rd) \<longleftrightarrow> rlo y < rhi rd"
      using y assms(4) hy by (auto simp: reg_nat reg_ok_def)
    show ?thesis
    proof (cases "rlo y < rhi rd")
      case True
      have ux: "unat ?x = rhi rd" using assms(4) by (simp add: reg_nat)
      note c = cut_head_nat [OF y(1), of ?x, unfolded ux, OF True hy]
      note p = reg_put_ok [OF regs(2,1) c(3)]
      have e: "be_reg_d_size y - (be_reg_d_lb y - be_reg_d_lb rd) = ?x - be_reg_d_fb y"
        by (simp add: be_reg_d_size_def be_reg_d_lb_def be_reg_d_lb1_def be_reg_d_fb_def)
      have "be_regmap_reg_d_cut ?rm d (length A) (?x - be_reg_d_fb y) 0 = Some (reg_put ?rm (length A) (cut_head ?x y), d)"
        by (rule cut_start_eval [OF _ regs(2,1)]) (use assms(1) True hy ux in auto)
      moreover have "trim rd y = [cut_head ?x y]" using True hy y(2) by (auto simp: trim_def)
      moreover have "reg_put ?rm (length A) (cut_head ?x y) = rm\<lparr>br_rdt := br_rdt (reg_put ?rm (length A) (cut_head ?x y))\<rparr>"
        by (simp add: reg_put_def)
      ultimately show ?thesis
        using l(1,3) Cons cond True at e p c tr B
        by (intro exI [of _ "br_rdt (reg_put ?rm (length A) (cut_head ?x y))"]) (simp add: regmap_del_last_def Let_def)
    next
      case False
      then have "trim rd y = [y]" by (auto simp: trim_def)
      then show ?thesis using l Cons cond False at tr B by (intro exI [of _ rdt]) (auto simp: regmap_del_last_def)
    qed
  qed
qed

lemma del_first_cut_ok:
  assumes "br_ops rm = ops" "rdt_ok (br_rdt rm)" "rdt_regs (br_rdt rm) = A @ r # B" "reg_ok rd"
    "rlo r < rlo rd" "rlo rd < rhi r" "rhi r \<le> rhi rd"
  shows "\<exists>rdt. regmap_del_first rm d rd (Some (length A)) =
      Some (rm\<lparr>br_rdt := rdt\<rparr>, d, if B = [] then None else Some (length (A @ [cut_tail (be_reg_d_fb rd) r]))) \<and>
    rdt_ok rdt \<and> brt_size_max rdt = brt_size_max (br_rdt rm) \<and> rdt_regs rdt = (A @ [cut_tail (be_reg_d_fb rd) r]) @ B"
proof -
  let ?c = "cut_tail (be_reg_d_fb rd) r" and ?k = "length A"
  let ?rm = "reg_put rm ?k ?c"
  note r = reg_at_ok [OF assms(2,3)]
  have x: "unat (be_reg_d_fb rd) = rlo rd" by (simp add: be_reg_d_fb_def)
  note c = cut_tail_nat [OF r(3), of "be_reg_d_fb rd", unfolded x, OF assms(5,6)]
  have "rlo r \<le> rlo ?c" "rhi ?c \<le> rhi r" using c assms(6) by simp_all
  note p = reg_put_ok [OF assms(2,3) c(3) this]
  have cond: "m0_be_reg_d_is_in r (be_reg_d_fb rd) \<and> \<not> m0_be_reg_d_is_in r (be_reg_d_lb1 rd) \<and> \<not> be_reg_d_is_partof rd r"
    using assms(4-7) r(3) by (auto simp: reg_nat)
  have e: "be_reg_d_size r - (be_reg_d_fb rd - be_reg_d_fb r) = be_reg_d_lb1 r - be_reg_d_fb rd"
    by (simp add: be_reg_d_size_def be_reg_d_lb_def be_reg_d_lb1_def be_reg_d_fb_def)
  have cut: "be_regmap_reg_d_cut rm d ?k 0 (be_reg_d_lb1 r - be_reg_d_fb rd) = Some (?rm, d)"
    using cut_end_eval [OF assms(1-3), of "be_reg_d_fb rd", OF _ _ refl] assms(5,6) x by simp
  have "brt_size (br_rdt ?rm) = ?k + 1 + length B" using rdt_regs_nth(1) [OF p(1)] p(2) by simp
  then have nxt: "m0_be_rdt_next (br_rdt ?rm) ?k = Some (if B = [] then None else Some (length (A @ [?c])))"
    using rdt_next_ok [OF p(1), of ?k] by auto
  have "regmap_del_first rm d rd (Some ?k) = Some (?rm, d, if B = [] then None else Some (length (A @ [?c])))"
    using cond cut nxt by (simp add: regmap_del_first_def r(1) e Let_def)
  moreover have "?rm = rm\<lparr>br_rdt := br_rdt ?rm\<rparr>" by (simp add: reg_put_def)
  ultimately show ?thesis using p by (metis append.assoc append_Cons append_Nil)
qed

lemma regmap_del_ok:
  assumes "br_ops rm = ops" "rdt_ok (br_rdt rm)" "reg_ok rd"
  shows "\<exists>rdt. m0_be_regmap_del rm d rd = Some (rm\<lparr>br_rdt := rdt\<rparr>, d) \<and> rdt_ok rdt \<and>
    brt_size_max rdt = brt_size_max (br_rdt rm) \<and>
    rdt_regs rdt = (let rs = rdt_regs (br_rdt rm)
      in if \<exists>r \<in> set rs. absorbs r rd then rs else concat (map (trim rd) rs))"
proof -
  let ?rs = "rdt_regs (br_rdt rm)"
  define k where "k = fidx (rlo rd) ?rs"
  define A where "A = take k ?rs"
  define C where "C = drop k ?rs"
  have split: "?rs = A @ C" "length A = k"
    using fidx_le [of "rlo rd" ?rs] by (simp_all add: A_def C_def k_def)
  have ok: "regs_ok (A @ C)" using assms(2) split(1) by (simp add: rdt_ok_def)
  have A: "\<forall>r \<in> set A. rhi r \<le> rlo rd"
    using fidx_below [of _ "rlo rd" ?rs] fidx_le [of "rlo rd" ?rs] by (auto simp: A_def k_def in_set_conv_nth)
  then have trA: "concat (map (trim rd) A) = A" by (intro trim_id) auto
  have absA: "\<not> absorbs r rd" if "r \<in> set A" for r using A that assms(3) by (auto simp: absorbs_def reg_ok_def)
  have kC: "k = brt_size (br_rdt rm) \<longleftrightarrow> C = []" using rdt_regs_nth(1) [OF assms(2)] split by auto
  have find: "be_regmap_find_fb rm rd = Some (if C = [] then None else Some k)"
    by (simp add: be_regmap_find_fb_def be_reg_d_fb_def rdt_find_ok [OF assms(2)] k_def [symmetric] kC Let_def)
  note inv = rdt_ok_invariant [OF assms(2)] reg_ok_invariant [OF assms(3)]
  note eval = m0_be_regmap_del_def m0_be_regmap__invariant_def
  show ?thesis
  proof (cases C)
    case Nil
    then show ?thesis
      using find inv del_rest_ok [OF assms(1,2) split(1) assms(3), of d] trA absA split
      by (simp add: eval regmap_del_first_def)
  next
    case (Cons r B)
    have r: "reg_ok r" "\<forall>b \<in> set B. rhi r \<le> rlo b" using ok Cons by auto
    have regs: "?rs = A @ r # B" using split(1) Cons by simp
    note at = reg_at_ok(1) [OF assms(2) regs, unfolded split(2)]
    have hr: "rlo rd < rhi r" using fidx_at [of "rlo rd" ?rs] split Cons by (simp add: k_def nth_append)
    consider (first) "rlo r < rlo rd" "rhi r \<le> rhi rd" | (absorb) "absorbs r rd" | (rest) "rlo rd \<le> rlo r"
      unfolding absorbs_def by linarith
    then show ?thesis
    proof cases
      case first
      let ?c = "cut_tail (be_reg_d_fb rd) r"
      obtain rdt1 where cut: "regmap_del_first rm d rd (Some k) =
          Some (rm\<lparr>br_rdt := rdt1\<rparr>, d, if B = [] then None else Some (length (A @ [?c])))"
        and rdt1: "rdt_ok rdt1" "brt_size_max rdt1 = brt_size_max (br_rdt rm)" "rdt_regs rdt1 = (A @ [?c]) @ B"
        using del_first_cut_ok [OF assms(1,2) regs assms(3) first(1) hr first(2), of d] split(2) by blast
      have lo: "\<forall>b \<in> set B. rlo rd \<le> rlo b" using r(2) hr by auto
      obtain rdt where rest: "(do {
         (rm, d, rdi) \<leftarrow> regmap_del_loop (rm\<lparr>br_rdt := rdt1\<rparr>) d rd (if B = [] then None else Some (length (A @ [?c])));
         regmap_del_last rm d rd rdi
         }) = Some (rm\<lparr>br_rdt := rdt\<rparr>, d)"
        "rdt_ok rdt" "brt_size_max rdt = brt_size_max rdt1" "rdt_regs rdt = (A @ [?c]) @ concat (map (trim rd) B)"
        using del_rest_ok [of "rm\<lparr>br_rdt := rdt1\<rparr>" "A @ [?c]" B rd d] assms(1,3) rdt1 lo by auto
      have "trim rd r = [?c]" using first hr by (auto simp: trim_def)
      then have tr: "concat (map (trim rd) ?rs) = rdt_regs rdt" using trA rest(4) regs by simp
      have "\<not> absorbs b rd" if "b \<in> set C" for b
        using that Cons first r(2) hr by (auto simp: absorbs_def)
      then have na: "\<not> (\<exists>r \<in> set ?rs. absorbs r rd)" using absA split(1) by auto
      have "m0_be_regmap_del rm d rd = Some (rm\<lparr>br_rdt := rdt\<rparr>, d)"
        using find inv cut rest(1) Cons by (simp add: eval)
      then show ?thesis using rest(2,3) rdt1(2) tr na by (intro exI [of _ rdt]) simp
    next
      case absorb
      then have b: "rlo r < rlo rd" "rhi rd < rhi r" by (auto simp: absorbs_def)
      then have "m0_be_reg_d_is_in r (be_reg_d_lb1 rd)" "\<not> be_reg_d_is_partof rd r" "m0_be_reg_d_is_in r (be_reg_d_fb1 rd)"
        using r(1) assms(3) by (auto simp: reg_nat reg_ok_def)
      then have "m0_be_regmap_del rm d rd = Some (rm\<lparr>br_rdt := br_rdt rm\<rparr>, d)"
        using find inv at Cons by (simp add: eval regmap_del_loop.simps regmap_del_first_def regmap_del_last_def)
      then show ?thesis using assms(2) absorb split(1) Cons by (intro exI [of _ "br_rdt rm"]) (auto simp: Let_def)
    next
      case rest
      then have cond: "\<not> (m0_be_reg_d_is_in r (be_reg_d_fb rd) \<and> \<not> m0_be_reg_d_is_in r (be_reg_d_lb1 rd) \<and> \<not> be_reg_d_is_partof rd r)"
        using r(1) assms(3) by (auto simp: reg_nat reg_ok_def)
      have lo: "\<forall>c \<in> set C. rlo rd \<le> rlo c" using rest r(2) Cons hr by auto
      then have "\<not> absorbs b rd" if "b \<in> set C" for b using that by (auto simp: absorbs_def)
      then have na: "\<not> (\<exists>r \<in> set ?rs. absorbs r rd)" using absA split(1) by auto
      obtain rdt where r: "(do {
         (rm, d, rdi) \<leftarrow> regmap_del_loop rm d rd (if C = [] then None else Some (length A));
         regmap_del_last rm d rd rdi
         }) = Some (rm\<lparr>br_rdt := rdt\<rparr>, d)"
        "rdt_ok rdt" "brt_size_max rdt = brt_size_max (br_rdt rm)" "rdt_regs rdt = A @ concat (map (trim rd) C)"
        using del_rest_ok [OF assms(1,2) split(1) assms(3) lo, of d] by blast
      have "regmap_del_first rm d rd (Some k) = Some (rm, d, Some k)"
        using cond by (auto simp: regmap_del_first_def at)
      then have "m0_be_regmap_del rm d rd = Some (rm\<lparr>br_rdt := rdt\<rparr>, d)"
        using find inv r(1) Cons split(2) by (simp add: eval)
      moreover have "concat (map (trim rd) ?rs) = rdt_regs rdt" using trA r(4) split(1) by simp
      ultimately show ?thesis using r(2,3) na by (intro exI [of _ rdt]) simp
    qed
  qed
qed

lemma split_ok:
  assumes "br_ops rm = ops" "rdt_ok (br_rdt rm)" "rdt_regs (br_rdt rm) = A @ r # B" "reg_ok rd" "absorbs r rd"
    "brt_size (br_rdt rm) < brt_size_max (br_rdt rm)"
  shows "\<exists>rm' rdt. be_regmap_reg_d_split rm d (length A) rd = Some (rm', d, cut_head (be_reg_d_lb1 rd) r) \<and>
    m0_be_rdt_ins (br_rdt rm') (cut_head (be_reg_d_lb1 rd) r) = Some rdt \<and> rm'\<lparr>br_rdt := rdt\<rparr> = rm\<lparr>br_rdt := rdt\<rparr> \<and>
    rdt_ok rdt \<and> brt_size_max rdt = brt_size_max (br_rdt rm) \<and>
    rdt_regs rdt = A @ cut_tail (be_reg_d_lb1 rd) r # cut_head (be_reg_d_lb1 rd) r # B"
proof -
  let ?x = "be_reg_d_lb1 rd"
  let ?t = "cut_tail ?x r" and ?h = "cut_head ?x r" and ?i = "length A"
  let ?rm = "reg_put rm ?i ?t"
  note r = reg_at_ok [OF assms(2,3)]
  have x: "unat ?x = rhi rd" using assms(4) by (simp add: reg_nat)
  have lt: "rlo r < unat ?x" "unat ?x < rhi r" using assms(5) by (auto simp: absorbs_def x)
  note t = cut_tail_nat [OF r(3) lt] and h = cut_head_nat [OF r(3) lt]
  have "rlo r \<le> rlo ?t" "rhi ?t \<le> rhi r" using t lt by simp_all
  note p = reg_put_ok [OF assms(2,3) t(3) this]
  have ok: "regs_ok (A @ ?t # B)" "regs_ok (A @ r # B)" using p(1,2) assms(2,3) by (simp_all add: rdt_ok_def)
  have pos: "0 < be_reg_d_fb rd - be_reg_d_fb r" "0 < be_reg_d_lb1 r - ?x"
    using assms(4,5) r(3) unat_sub_noof [of "be_reg_d_fb r" "be_reg_d_fb rd"] unat_sub_noof [of ?x "be_reg_d_lb1 r"]
    by (simp_all add: reg_nat absorbs_def word_less_nat_alt word_le_nat_alt)
  have cut: "be_regmap_reg_d_cut rm d ?i 0 (be_reg_d_lb1 r - ?x) = Some (?rm, d)"
    by (rule cut_end_eval [OF assms(1-3) lt refl])
  have at: "reg_at ?rm ?i = ?t" using reg_at_ok(1) [OF p(1,2)] .
  have "rd_buf ?t + br_size (rd_reg ?t) = rd_buf ?h" by (simp add: cut_tail_def cut_head_def)
  then have sp: "be_regmap_reg_d_split rm d ?i rd = Some (?rm, d, ?h)"
    using pos cut at assms(1)
    by (simp add: be_regmap_reg_d_split_def r(1) Let_def reg_put_def op_split) (simp add: cut_head_def cut_tail_def)
  have idx: "fidx (rlo ?h) (A @ ?t # B) = ?i + 1"
  proof (rule fidx_unique [OF ok(1)])
    assume "?i + 1 < length (A @ ?t # B)"
    then obtain b B' where "B = b # B'" by (cases B) auto
    then show "rlo ?h < rhi ((A @ ?t # B) ! (?i + 1))" using ok(2) h(1) lt by (auto simp: nth_append)
  qed (use t h in \<open>simp_all add: nth_append\<close>)
  have away: "\<forall>s \<in> set (rdt_regs (br_rdt ?rm)). rhi s \<le> rlo ?h \<or> rhi ?h \<le> rlo s"
    unfolding p(2) using ok(2) t h lt by (auto intro: order_trans)
  have "brt_size (br_rdt ?rm) < brt_size_max (br_rdt ?rm)" using assms(6) by (simp add: reg_put_def)
  then obtain rdt where "m0_be_rdt_ins (br_rdt ?rm) ?h = Some rdt" "rdt_ok rdt" "brt_size_max rdt = brt_size_max (br_rdt ?rm)"
    "rdt_regs rdt = A @ ?t # ?h # B"
    using rdt_ins_ok [OF p(1) _ h(3) away] unfolding p(2) Let_def idx by auto
  then show ?thesis using sp p(3) by (auto simp: reg_put_def)
qed

lemma split_bytes:
  assumes "regs_ok (A @ r # B)" "reg_ok rd" "absorbs r rd"
  defines "rs \<equiv> A @ cut_tail (be_reg_d_lb1 rd) r # cut_head (be_reg_d_lb1 rd) r # B"
  shows "area_bytes m rs = area_bytes m (A @ r # B)" "bufs_in U (A @ r # B) \<Longrightarrow> bufs_in U rs"
    "s \<in> set rs \<Longrightarrow> \<not> absorbs s rd"
proof -
  let ?x = "be_reg_d_lb1 rd"
  have r: "reg_ok r" using assms(1) by simp
  have x: "unat ?x = rhi rd" using assms(2) by (simp add: reg_nat)
  have lt: "rlo r < unat ?x" "unat ?x < rhi r" using assms(3) by (auto simp: absorbs_def x)
  note t = cut_tail_nat [OF r lt] and h = cut_head_nat [OF r lt]
  have in_r: "m0_be_reg_d_is_in r a \<longleftrightarrow> m0_be_reg_d_is_in (cut_tail ?x r) a \<or> m0_be_reg_d_is_in (cut_head ?x r) a" for a
    using t h r lt by (auto simp: is_in_nat)
  show "area_bytes m rs = area_bytes m (A @ r # B)"
    by (rule ext) (auto simp: rs_def area_bytes_append cut_buf in_r split: option.splits)
  show "bufs_in U (A @ r # B) \<Longrightarrow> bufs_in U rs"
    using in_r by (auto simp: rs_def bufs_in_def cut_buf)
  show "s \<in> set rs \<Longrightarrow> \<not> absorbs s rd"
    using assms(1-3) t h lt x by (fastforce simp: rs_def absorbs_def)
qed

lemma add_absorb_ok:
  assumes "br_ops rm = ops" "rdt_ok (br_rdt rm)" "reg_ok rd" "br_split_on_absorb rm"
    "brt_size (br_rdt rm) + (if brt_size (br_rdt rm) = 0 then 1 else 2) \<le> brt_size_max (br_rdt rm)"
    "bufs_in U (rdt_regs (br_rdt rm))"
  shows "\<exists>rdt. (do { rdi \<leftarrow> be_regmap_find_fb rm rd; regmap_add_absorb rm d rd rdi }) = Some (rm\<lparr>br_rdt := rdt\<rparr>, d, False) \<and>
    rdt_ok rdt \<and> brt_size_max rdt = brt_size_max (br_rdt rm) \<and>
    length (rdt_regs rdt) + 1 \<le> brt_size (br_rdt rm) + (if brt_size (br_rdt rm) = 0 then 1 else 2) \<and>
    (\<forall>r \<in> set (rdt_regs rdt). \<not> absorbs r rd) \<and> bufs_in U (rdt_regs rdt) \<and>
    area_bytes m (rdt_regs rdt) = area_bytes m (rdt_regs (br_rdt rm))"
proof -
  let ?rs = "rdt_regs (br_rdt rm)" and ?x = "be_reg_d_lb1 rd"
  define k where "k = fidx (rlo rd) ?rs"
  have find: "be_regmap_find_fb rm rd = Some (if k = length ?rs then None else Some k)"
    using rdt_regs_nth(1) [OF assms(2)]
    by (simp add: be_regmap_find_fb_def be_reg_d_fb_def rdt_find_ok [OF assms(2)] k_def [symmetric] Let_def)
  have k: "k \<le> length ?rs" unfolding k_def by (rule fidx_le)
  have ok: "regs_ok ?rs" using assms(2) by (simp add: rdt_ok_def)
  have only: "k < length ?rs \<and> r = ?rs ! k" if r: "r \<in> set ?rs" and a: "absorbs r rd" for r
  proof -
    obtain i where i: "i < length ?rs" "r = ?rs ! i" using r by (auto simp: in_set_conv_nth)
    have "fidx (rlo rd) ?rs = i"
    proof (rule fidx_unique [OF ok])
      show "0 < i \<Longrightarrow> rhi (?rs ! (i - 1)) \<le> rlo rd"
        using regs_ok_nth [OF ok, of "i - 1" i] i a by (simp add: absorbs_def)
    qed (use i a in \<open>auto simp: absorbs_def\<close>)
    then show ?thesis using i by (simp add: k_def)
  qed
  show ?thesis
  proof (cases "k < length ?rs \<and> absorbs (?rs ! k) rd")
    case False
    then have na: "\<forall>r \<in> set ?rs. \<not> absorbs r rd" using only by auto
    have "reg_at rm k = ?rs ! k \<and> reg_ok (?rs ! k)" if "k < length ?rs"
      using rdt_regs_nth [OF assms(2)] that regs_ok_reg [OF ok] by simp
    then have "regmap_add_absorb rm d rd (if k = length ?rs then None else Some k) = Some (rm, d, False)"
      using False k assms(3) by (auto simp: regmap_add_absorb_def absorbs_def reg_nat word_less_nat_alt reg_ok_def)
    then show ?thesis
      using find na assms(2,5,6) rdt_regs_nth(1) [OF assms(2)] by (intro exI [of _ "br_rdt rm"]) auto
  next
    case True
    define A B where "A = take k ?rs" and "B = drop (Suc k) ?rs"
    have A: "?rs = A @ ?rs ! k # B" "length A = k" using True by (simp_all add: A_def B_def id_take_nth_drop)
    note at = reg_at_ok [OF assms(2) A(1), unfolded A(2)]
    have "brt_size (br_rdt rm) < brt_size_max (br_rdt rm)" using assms(5) at(2) by simp
    from split_ok [OF assms(1,2) A(1) assms(3) _ this, of d, unfolded A(2)] True
    obtain rm' rdt where sp: "be_regmap_reg_d_split rm d k rd = Some (rm', d, cut_head ?x (?rs ! k))"
      "m0_be_rdt_ins (br_rdt rm') (cut_head ?x (?rs ! k)) = Some rdt" "rm'\<lparr>br_rdt := rdt\<rparr> = rm\<lparr>br_rdt := rdt\<rparr>"
      "rdt_ok rdt" "brt_size_max rdt = brt_size_max (br_rdt rm)"
      and regs: "rdt_regs rdt = A @ cut_tail ?x (?rs ! k) # cut_head ?x (?rs ! k) # B" by blast
    have "be_reg_d_fb (?rs ! k) < be_reg_d_fb rd \<and> be_reg_d_lb (?rs ! k) > be_reg_d_lb rd"
      using True assms(3) at(3) by (auto simp: absorbs_def reg_nat word_less_nat_alt reg_ok_def)
    then have "regmap_add_absorb rm d rd (Some k) = Some (rm\<lparr>br_rdt := rdt\<rparr>, d, False)"
      using assms(4) sp(1-3) by (simp add: regmap_add_absorb_def at(1))
    moreover have "regs_ok (A @ ?rs ! k # B)" using ok A(1) by simp
    note sb = split_bytes [OF this assms(3), folded A(1)]
    have "brt_size (br_rdt rm) = length A + 1 + length B"
      using rdt_regs_nth(1) [OF assms(2)] arg_cong [OF A(1), of length] by simp
    ultimately show ?thesis
      using find True sp(4,5) sb assms(6) unfolding regs by (intro exI [of _ rdt]) (simp add: regs)
  qed
qed

text \<open>Adding a region replaces the bytes recorded for its addresses, and only those.\<close>

lemma regmap_add_ok:
  assumes "br_ops rm = ops" "rdt_ok (br_rdt rm)" "reg_ok rd" "br_split_on_absorb rm" "ready d rd"
    "brt_size (br_rdt rm) + (if brt_size (br_rdt rm) = 0 then 1 else 2) \<le> brt_size_max (br_rdt rm)"
    "bufs_in (in_use d) (rdt_regs (br_rdt rm))"
  shows "\<exists>rdt d' rd'. m0_be_regmap_add rm d rd = Some (rm\<lparr>br_rdt := rdt\<rparr>, d') \<and> rmo_add ops d rd = Some (d', rd') \<and>
    rdt_ok rdt \<and> brt_size_max rdt = brt_size_max (br_rdt rm) \<and> bufs_in (in_use d') (rdt_regs rdt) \<and>
    brt_size rdt \<le> brt_size (br_rdt rm) + (if brt_size (br_rdt rm) = 0 then 1 else 2) \<and>
    area_bytes (mem_of d') (rdt_regs rdt) =
      (\<lambda>a. if m0_be_reg_d_is_in rd a then Some (mem_of d (source rd a))
           else area_bytes (mem_of d) (rdt_regs (br_rdt rm)) a)"
proof -
  obtain rdt1 where abs: "(do { rdi \<leftarrow> be_regmap_find_fb rm rd; regmap_add_absorb rm d rd rdi }) = Some (rm\<lparr>br_rdt := rdt1\<rparr>, d, False)"
    and ok1: "rdt_ok rdt1" "brt_size_max rdt1 = brt_size_max (br_rdt rm)"
    and len: "length (rdt_regs rdt1) + 1 \<le> brt_size (br_rdt rm) + (if brt_size (br_rdt rm) = 0 then 1 else 2)"
    and na: "\<forall>r \<in> set (rdt_regs rdt1). \<not> absorbs r rd" and bufs1: "bufs_in (in_use d) (rdt_regs rdt1)"
    and bytes1: "area_bytes (mem_of d) (rdt_regs rdt1) = area_bytes (mem_of d) (rdt_regs (br_rdt rm))"
    using add_absorb_ok [OF assms(1-4,6,7), of d "mem_of d"] by blast
  have regs1: "regs_ok (rdt_regs rdt1)" using ok1 by (simp add: rdt_ok_def)
  obtain rdt2 where del: "m0_be_regmap_del (rm\<lparr>br_rdt := rdt1\<rparr>) d rd = Some (rm\<lparr>br_rdt := rdt2\<rparr>, d)"
    and ok2: "rdt_ok rdt2" "brt_size_max rdt2 = brt_size_max rdt1"
    and regs2: "rdt_regs rdt2 = concat (map (trim rd) (rdt_regs rdt1))"
    using regmap_del_ok [of "rm\<lparr>br_rdt := rdt1\<rparr>" rd d] assms(1,3) ok1 na by auto
  obtain d' b where add: "rmo_add ops d rd = Some (d', rd\<lparr>rd_buf := b\<rparr>)" "in_use d \<subseteq> in_use d'"
    "\<forall>a \<in> in_use d. mem_of d' a = mem_of d a"
    and new: "\<forall>a. m0_be_reg_d_is_in rd a \<longrightarrow>
       buf_at (rd\<lparr>rd_buf := b\<rparr>) a \<in> in_use d' \<and> mem_of d' (buf_at (rd\<lparr>rd_buf := b\<rparr>) a) = mem_of d (source rd a)"
    using op_add [OF assms(3,5)] by blast
  let ?rd = "rd\<lparr>rd_buf := b\<rparr>" and ?rs = "rdt_regs rdt2"
  have same: "reg_ok ?rd" "m0_be_reg_d_is_in ?rd a \<longleftrightarrow> m0_be_reg_d_is_in rd a" for a
    using assms(3) by (simp_all add: reg_ok_def m0_be_reg_d_is_in_def REGD_EXT_def)
  have away: "\<forall>r \<in> set ?rs. rhi r \<le> rlo ?rd \<or> rhi ?rd \<le> rlo r"
    unfolding regs2 using trim_away [OF _ assms(3)] regs1 na by (auto simp: regs_ok_def)
  have bufs2: "bufs_in (in_use d) ?rs" unfolding regs2 by (rule bufs_in_trim [OF regs1 assms(3) bufs1])
  have "length ?rs \<le> length (rdt_regs rdt1)" unfolding regs2 by (rule trim_length)
  then have n2: "brt_size rdt2 + 1 \<le> brt_size (br_rdt rm) + (if brt_size (br_rdt rm) = 0 then 1 else 2)"
    using len rdt_regs_nth(1) [OF ok2(1)] by simp
  then have room: "brt_size rdt2 < brt_size_max rdt2" using assms(6) ok1(2) ok2(2) by simp
  define k where "k = fidx (rlo ?rd) ?rs"
  obtain rdt where ins: "m0_be_rdt_ins rdt2 ?rd = Some rdt" "rdt_ok rdt" "brt_size_max rdt = brt_size_max rdt2"
    "rdt_regs rdt = take k ?rs @ ?rd # drop k ?rs"
    using rdt_ins_ok [OF ok2(1) room same(1) away] unfolding k_def Let_def by blast
  have k: "k \<le> length ?rs" unfolding k_def by (rule fidx_le)
  have size: "brt_size rdt = brt_size rdt2 + 1"
    using rdt_regs_nth(1) [OF ins(2)] rdt_regs_nth(1) [OF ok2(1)] ins(4) k by simp
  obtain rdi where rdi: "be_regmap_find_fb rm rd = Some rdi" "regmap_add_absorb rm d rd rdi = Some (rm\<lparr>br_rdt := rdt1\<rparr>, d, False)"
    using abs by (auto simp: bind_eq_Some_conv)
  have eval: "m0_be_regmap_add rm d rd = Some (rm\<lparr>br_rdt := rdt\<rparr>, d')"
    using rdi del add(1) ins(1) assms(1) rdt_ok_invariant [OF assms(2)] rdt_ok_invariant [OF ins(2)] reg_ok_invariant [OF assms(3)]
    by (simp add: m0_be_regmap_add_def m0_be_regmap__invariant_def)
  have bufs: "bufs_in (in_use d') (rdt_regs rdt)"
    unfolding ins(4) by (rule bufs_in_insert [OF bufs2 add(2)]) (use new same(2) in simp)
  have excl: "\<forall>r \<in> set ?rs. m0_be_reg_d_is_in ?rd a \<longrightarrow> \<not> m0_be_reg_d_is_in r a" for a
    using away same(1) ok2(1) by (auto simp: is_in_nat rdt_ok_def regs_ok_def)
  have "area_bytes (mem_of d') (rdt_regs rdt) a =
      (if m0_be_reg_d_is_in rd a then Some (mem_of d (source rd a)) else area_bytes (mem_of d) (rdt_regs (br_rdt rm)) a)" for a
  proof -
    have "area_bytes (mem_of d') (rdt_regs rdt) a =
        (if m0_be_reg_d_is_in ?rd a then Some (mem_of d' (buf_at ?rd a)) else area_bytes (mem_of d') ?rs a)"
      unfolding ins(4) by (rule area_bytes_insert [OF excl])
    also have "area_bytes (mem_of d') ?rs a = area_bytes (mem_of d) ?rs a" by (rule area_bytes_mem [OF bufs2 add(3)])
    also have "\<dots> = (if m0_be_reg_d_is_in rd a then None else area_bytes (mem_of d) (rdt_regs (br_rdt rm)) a)"
      unfolding regs2 bytes1 [symmetric] using regs1 na assms(3) by (intro trim_all_bytes) (auto simp: regs_ok_def)
    finally show ?thesis using new same(2) by simp
  qed
  then show ?thesis
    using eval add(1) ins(2,3) ok1(2) ok2(2) bufs size n2
    by (intro exI [of _ rdt] exI [of _ d'] exI [of _ ?rd]) (simp add: fun_eq_iff)
qed

end


section \<open>The callbacks of areas\<close>

definition copy_in_use :: "area_data \<Rightarrow> u64 set" where
  "copy_in_use d = {a. a - bra_area (snd d) < bra_area_used (snd d)}"

definition copy_ready :: "area_data \<Rightarrow> m0_be_reg_d \<Rightarrow> bool" where
  "copy_ready d rd \<longleftrightarrow> rd_buf rd = 0 \<and>
     unat (bra_area_used (snd d)) + rsz rd \<le> unat (tc_reg_size (bra_prepared (snd d)))"

lemma offset_less:
  assumes "reg_ok rd" "m0_be_reg_d_is_in rd a"
  shows "unat (a - be_reg_d_fb rd) < rsz rd"
proof -
  have "rlo rd \<le> unat a" "unat a < rhi rd" using assms by (simp_all add: is_in_nat)
  then show ?thesis using assms(1) by (simp add: unat_sub_noof be_reg_d_fb_def word_le_nat_alt)
qed

lemma add_copy_ok:
  assumes "reg_ok rd" "copy_ready d rd"
  shows "\<exists>d' b. be_reg_area_add_copy d rd = Some (d', rd\<lparr>rd_buf := b\<rparr>) \<and>
    copy_in_use d \<subseteq> copy_in_use d' \<and> (\<forall>a \<in> copy_in_use d. fst d' a = fst d a) \<and>
    (\<forall>a. m0_be_reg_d_is_in rd a \<longrightarrow>
       buf_at (rd\<lparr>rd_buf := b\<rparr>) a \<in> copy_in_use d' \<and> fst d' (buf_at (rd\<lparr>rd_buf := b\<rparr>) a) = fst d a)"
proof -
  obtain m buf where d: "d = (m, buf)" by (cases d)
  let ?u = "bra_area_used buf" and ?s = "br_size (rd_reg rd)"
  let ?buf = "buf\<lparr>bra_area_used := ?u + ?s\<rparr>" and ?b = "bra_area buf + ?u"
  let ?m = "memmove m ?b (br_addr (rd_reg rd)) ?s"
  have room: "unat ?u + unat ?s \<le> unat (tc_reg_size (bra_prepared buf))" "rd_buf rd = 0"
    using assms(2) by (simp_all add: copy_ready_def d)
  have lt: "unat ?u + unat ?s < 2 ^ 64" using room(1) unat_lt_u64 [of "tc_reg_size (bra_prepared buf)"] by simp
  have us: "unat (?u + ?s) = unat ?u + unat ?s" using lt by (simp add: unat_add_noof)
  have eval: "be_reg_area_add_copy d rd = Some ((?m, ?buf), rd\<lparr>rd_buf := ?b\<rparr>)"
    using room us reg_ok_invariant [OF assms(1)]
    by (simp add: be_reg_area_add_copy_def be_reg_area_alloc_def be_reg_d_cpy_def d Let_def word_le_nat_alt)
  have mono: "copy_in_use d \<subseteq> copy_in_use (?m, ?buf)"
    using us by (auto simp: copy_in_use_def d word_less_nat_alt)
  have keep: "?m a = m a" if "a \<in> copy_in_use d" for a
  proof -
    have u: "unat (a - bra_area buf) < unat ?u" using that by (simp add: copy_in_use_def d word_less_nat_alt)
    have "\<not> a - ?b < ?s"
    proof
      assume "a - ?b < ?s"
      then have "unat ((a - ?b) + ?u) = unat (a - ?b) + unat ?u"
        using lt by (intro unat_add_noof) (simp add: word_less_nat_alt)
      moreover have "(a - ?b) + ?u = a - bra_area buf" by simp
      ultimately show False using u by simp
    qed
    then show ?thesis by (simp add: memmove_def)
  qed
  have new: "buf_at (rd\<lparr>rd_buf := ?b\<rparr>) a \<in> copy_in_use (?m, ?buf) \<and> ?m (buf_at (rd\<lparr>rd_buf := ?b\<rparr>) a) = m a"
    if "m0_be_reg_d_is_in rd a" for a
  proof -
    let ?k = "a - br_addr (rd_reg rd)"
    have k: "unat ?k < unat ?s" using offset_less [OF assms(1) that] by (simp add: be_reg_d_fb_def)
    have at: "buf_at (rd\<lparr>rd_buf := ?b\<rparr>) a = ?b + ?k" by (simp add: buf_at_def be_reg_d_fb_def)
    have "unat (?u + ?k) = unat ?u + unat ?k" using k lt by (intro unat_add_noof) simp
    then have "?u + ?k < ?u + ?s" using k us by (simp add: word_less_nat_alt)
    moreover have "?k < ?s" using k by (simp add: word_less_nat_alt)
    ultimately show ?thesis unfolding at by (simp add: copy_in_use_def memmove_def add.assoc)
  qed
  show ?thesis using eval mono keep new unfolding d by fastforce
qed

lemma copy_ops [simp]: "rmo_add be_reg_area_ops_data_copy = be_reg_area_add_copy"
  by (simp add: be_reg_area_ops_data_copy_def)

interpretation data_copy: area_callbacks be_reg_area_ops_data_copy fst copy_in_use copy_ready "\<lambda>rd a. a"
  by (unfold_locales, unfold copy_ops)
    (rule add_copy_ok | simp add: be_reg_area_ops_data_copy_def be_reg_area_cut_def be_reg_area_del_def be_reg_area_split_def)+

interpretation data_nocopy: area_callbacks be_reg_area_ops_data_nocopy fst "\<lambda>d. UNIV" "\<lambda>d rd. rd_buf rd \<noteq> 0" buf_at
proof unfold_locales
  fix rd :: m0_be_reg_d and d :: area_data
  assume "rd_buf rd \<noteq> 0"
  then have "rmo_add be_reg_area_ops_data_nocopy d rd = Some (d, rd\<lparr>rd_buf := rd_buf rd\<rparr>)"
    by (simp add: be_reg_area_ops_data_nocopy_def be_reg_area_add_def)
  then show "\<exists>d' b. rmo_add be_reg_area_ops_data_nocopy d rd = Some (d', rd\<lparr>rd_buf := b\<rparr>) \<and>
      UNIV \<subseteq> (UNIV :: u64 set) \<and> (\<forall>a \<in> UNIV. fst d' a = fst d a) \<and>
      (\<forall>a. m0_be_reg_d_is_in rd a \<longrightarrow> buf_at (rd\<lparr>rd_buf := b\<rparr>) a \<in> UNIV \<and> fst d' (buf_at (rd\<lparr>rd_buf := b\<rparr>) a) = fst d (buf_at rd a))"
    by (intro exI [of _ d] exI [of _ "rd_buf rd"]) simp
qed (simp_all add: be_reg_area_ops_data_nocopy_def be_reg_area_cut_def be_reg_area_del_def be_reg_area_split_def)

section \<open>Areas\<close>

definition area_regs :: "m0_be_reg_area \<Rightarrow> m0_be_reg_d list" where
  "area_regs ra = rdt_regs (br_rdt (bra_map ra))"

text \<open>The addresses of the buffers that an area has given to its regions, those of its whole buffer, and where the
  bytes of a region come from.\<close>

definition area_in_use :: "m0_be_reg_area_type \<Rightarrow> be_area_buf \<Rightarrow> u64 set" where
  "area_in_use ty buf = (case ty of
     M0_BE_REG_AREA_DATA_COPY \<Rightarrow> {a. a - bra_area buf < bra_area_used buf}
   | M0_BE_REG_AREA_DATA_NOCOPY \<Rightarrow> UNIV)"

definition area_buffer :: "m0_be_reg_area \<Rightarrow> u64 set" where
  "area_buffer ra = (case bra_type ra of
     M0_BE_REG_AREA_DATA_COPY \<Rightarrow> {a. a - bra_area (bra_buf ra) < tc_reg_size (bra_prepared (bra_buf ra))}
   | M0_BE_REG_AREA_DATA_NOCOPY \<Rightarrow> {})"

definition area_source :: "m0_be_reg_area_type \<Rightarrow> m0_be_reg_d \<Rightarrow> u64 \<Rightarrow> u64" where
  "area_source ty rd a = (case ty of M0_BE_REG_AREA_DATA_COPY \<Rightarrow> a | M0_BE_REG_AREA_DATA_NOCOPY \<Rightarrow> buf_at rd a)"

text \<open>
  A sound area: its regions are in order and disjoint and have their buffers in use, its array is as large as
  the prepared credit demands, and neither the regions nor the buffer exceed what has been captured.
\<close>

definition area_ok :: "m0_be_reg_area \<Rightarrow> bool" where
  "area_ok ra \<longleftrightarrow>
     br_ops (bra_map ra) = be_reg_area_ops (bra_type ra) \<and> br_split_on_absorb (bra_map ra) \<and>
     rdt_ok (br_rdt (bra_map ra)) \<and>
     brt_size_max (br_rdt (bra_map ra)) = 2 * unat (tc_reg_nr (bra_prepared (bra_buf ra))) - 1 \<and>
     brt_size (br_rdt (bra_map ra)) \<le> 2 * unat (tc_reg_nr (bra_captured ra)) - 1 \<and>
     unat (bra_area_used (bra_buf ra)) \<le> unat (tc_reg_size (bra_captured ra)) \<and>
     unat (tc_reg_nr (bra_captured ra)) \<le> unat (tc_reg_nr (bra_prepared (bra_buf ra))) \<and>
     unat (tc_reg_size (bra_captured ra)) \<le> unat (tc_reg_size (bra_prepared (bra_buf ra))) \<and>
     bufs_in (area_in_use (bra_type ra) (bra_buf ra)) (area_regs ra)"

text \<open>The credit that is left covers a region.\<close>

definition has_credit :: "m0_be_reg_area \<Rightarrow> nat \<Rightarrow> nat \<Rightarrow> bool" where
  "has_credit ra nr sz \<longleftrightarrow>
     unat (tc_reg_nr (bra_captured ra)) + nr \<le> unat (tc_reg_nr (bra_prepared (bra_buf ra))) \<and>
     unat (tc_reg_size (bra_captured ra)) + sz \<le> unat (tc_reg_size (bra_prepared (bra_buf ra)))"

lemma area_ok_invariant:
  assumes "area_ok ra"
  shows "m0_be_reg_area__invariant ra"
  using assms rdt_ok_invariant
  by (auto simp: area_ok_def m0_be_reg_area__invariant_def m0_be_regmap__invariant_def m0_be_tx_credit_le_def word_le_nat_alt)

lemma add_copy_frame:
  assumes "be_reg_area_add_copy (m, buf) rd = Some ((m', buf'), rd')" "unat (bra_area_used buf) + rsz rd < 2 ^ 64"
  shows "bra_area buf' = bra_area buf" "bra_prepared buf' = bra_prepared buf"
    "unat (bra_area_used buf') = unat (bra_area_used buf) + rsz rd"
    "\<not> a - bra_area buf < tc_reg_size (bra_prepared buf) \<Longrightarrow> m' a = m a"
proof -
  let ?b = "bra_area buf + bra_area_used buf" and ?s = "br_size (rd_reg rd)"
  have e: "buf' = buf\<lparr>bra_area_used := bra_area_used buf + ?s\<rparr>" "m' = memmove m ?b (br_addr (rd_reg rd)) ?s"
    "bra_area_used buf + ?s \<le> tc_reg_size (bra_prepared buf)"
    using assms(1) by (auto simp: be_reg_area_add_copy_def be_reg_area_alloc_def be_reg_d_cpy_def Let_def)
  show "bra_area buf' = bra_area buf" "bra_prepared buf' = bra_prepared buf"
    "unat (bra_area_used buf') = unat (bra_area_used buf) + rsz rd"
    using e assms(2) by (simp_all add: unat_add_noof)
  assume out: "\<not> a - bra_area buf < tc_reg_size (bra_prepared buf)"
  have "\<not> a - ?b < ?s"
  proof
    assume lt: "a - ?b < ?s"
    then have "unat ((a - ?b) + bra_area_used buf) = unat (a - ?b) + unat (bra_area_used buf)"
      using assms(2) by (intro unat_add_noof) (simp add: word_less_nat_alt)
    moreover have "(a - ?b) + bra_area_used buf = a - bra_area buf" by simp
    ultimately have "unat (a - bra_area buf) < unat (bra_area_used buf + ?s)"
      using lt assms(2) by (simp add: unat_add_noof word_less_nat_alt)
    then show False using out e(3) by (simp add: word_less_nat_alt word_le_nat_alt)
  qed
  then show "m' a = m a" by (simp add: e(2) memmove_def)
qed

text \<open>Room for one more region follows from the credit.\<close>

lemma area_room:
  assumes "area_ok ra" "has_credit ra 1 sz"
  shows "brt_size (br_rdt (bra_map ra)) + (if brt_size (br_rdt (bra_map ra)) = 0 then 1 else 2) \<le>
      2 * (unat (tc_reg_nr (bra_captured ra)) + 1) - 1"
    "2 * (unat (tc_reg_nr (bra_captured ra)) + 1) - 1 \<le> brt_size_max (br_rdt (bra_map ra))"
  using assms by (auto simp: area_ok_def has_credit_def)

lemma area_add_ok:
  assumes ok: "area_ok ra" and rd: "reg_ok rd" and buf: "rd_buf rd = 0 \<longleftrightarrow> bra_type ra = M0_BE_REG_AREA_DATA_COPY"
    and credit: "has_credit ra 1 (rsz rd)"
  shows "\<exists>rdt m' buf'. m0_be_regmap_add (bra_map ra) (m, bra_buf ra) rd = Some ((bra_map ra)\<lparr>br_rdt := rdt\<rparr>, m', buf') \<and>
    rdt_ok rdt \<and> brt_size_max rdt = brt_size_max (br_rdt (bra_map ra)) \<and>
    brt_size rdt \<le> 2 * (unat (tc_reg_nr (bra_captured ra)) + 1) - 1 \<and>
    bufs_in (area_in_use (bra_type ra) buf') (rdt_regs rdt) \<and>
    bra_area buf' = bra_area (bra_buf ra) \<and> bra_prepared buf' = bra_prepared (bra_buf ra) \<and>
    unat (bra_area_used buf') \<le> unat (tc_reg_size (bra_captured ra)) + rsz rd \<and>
    (\<forall>a. a \<notin> area_buffer ra \<longrightarrow> m' a = m a) \<and>
    area_bytes m' (rdt_regs rdt) =
      (\<lambda>a. if m0_be_reg_d_is_in rd a then Some (m (area_source (bra_type ra) rd a)) else area_bytes m (area_regs ra) a)"
proof (cases "bra_type ra")
  case M0_BE_REG_AREA_DATA_COPY
  have use: "copy_in_use (m, b) = area_in_use (bra_type ra) b" for m b
    by (simp add: copy_in_use_def area_in_use_def M0_BE_REG_AREA_DATA_COPY)
  have used: "unat (bra_area_used (bra_buf ra)) + rsz rd \<le> unat (tc_reg_size (bra_prepared (bra_buf ra)))"
    using ok credit by (simp add: area_ok_def has_credit_def)
  then have ready: "copy_ready (m, bra_buf ra) rd" using buf M0_BE_REG_AREA_DATA_COPY by (simp add: copy_ready_def)
  have "unat (bra_area_used (bra_buf ra)) + rsz rd < 2 ^ 64"
    using used unat_lt_u64 [of "tc_reg_size (bra_prepared (bra_buf ra))"] by simp
  note frame = add_copy_frame [OF _ this]
  have o: "br_ops (bra_map ra) = be_reg_area_ops_data_copy" using ok M0_BE_REG_AREA_DATA_COPY by (simp add: area_ok_def be_reg_area_ops_def)
  have p: "rdt_ok (br_rdt (bra_map ra))" "br_split_on_absorb (bra_map ra)"
    "bufs_in (copy_in_use (m, bra_buf ra)) (rdt_regs (br_rdt (bra_map ra)))"
    using ok by (simp_all add: area_ok_def use area_regs_def)
  obtain rdt m' buf' rd' where add: "m0_be_regmap_add (bra_map ra) (m, bra_buf ra) rd = Some ((bra_map ra)\<lparr>br_rdt := rdt\<rparr>, m', buf')"
    "be_reg_area_add_copy (m, bra_buf ra) rd = Some ((m', buf'), rd')"
    "rdt_ok rdt" "brt_size_max rdt = brt_size_max (br_rdt (bra_map ra))" "bufs_in (copy_in_use (m', buf')) (rdt_regs rdt)"
    "brt_size rdt \<le> brt_size (br_rdt (bra_map ra)) + (if brt_size (br_rdt (bra_map ra)) = 0 then 1 else 2)"
    "area_bytes m' (rdt_regs rdt) = (\<lambda>a. if m0_be_reg_d_is_in rd a then Some (m a) else area_bytes m (rdt_regs (br_rdt (bra_map ra))) a)"
    using data_copy.regmap_add_ok [OF o p(1) rd p(2) ready order_trans [OF area_room [OF ok credit]] p(3)]
    by (simp only: split_paired_Ex fst_conv copy_ops) blast
  have "unat (bra_area_used buf') \<le> unat (tc_reg_size (bra_captured ra)) + rsz rd"
    using frame(3) [OF add(2)] ok by (simp add: area_ok_def)
  then show ?thesis
    using add frame(1,2) [OF add(2)] frame(4) [OF add(2)] order_trans [OF add(6) area_room(1) [OF ok credit]]
    by (intro exI [of _ rdt] exI [of _ m'] exI [of _ buf'])
      (simp add: use area_source_def area_buffer_def M0_BE_REG_AREA_DATA_COPY area_regs_def cong: if_cong)
next
  case M0_BE_REG_AREA_DATA_NOCOPY
  have o: "br_ops (bra_map ra) = be_reg_area_ops_data_nocopy" using ok M0_BE_REG_AREA_DATA_NOCOPY by (simp add: area_ok_def be_reg_area_ops_def)
  have p: "rdt_ok (br_rdt (bra_map ra))" "br_split_on_absorb (bra_map ra)" "bufs_in UNIV (rdt_regs (br_rdt (bra_map ra)))"
    using ok by (simp_all add: area_ok_def bufs_in_def)
  have ready: "rd_buf rd \<noteq> 0" using buf M0_BE_REG_AREA_DATA_NOCOPY by simp
  obtain rdt m' buf' rd' where add: "m0_be_regmap_add (bra_map ra) (m, bra_buf ra) rd = Some ((bra_map ra)\<lparr>br_rdt := rdt\<rparr>, m', buf')"
    "rmo_add be_reg_area_ops_data_nocopy (m, bra_buf ra) rd = Some ((m', buf'), rd')"
    "rdt_ok rdt" "brt_size_max rdt = brt_size_max (br_rdt (bra_map ra))"
    "brt_size rdt \<le> brt_size (br_rdt (bra_map ra)) + (if brt_size (br_rdt (bra_map ra)) = 0 then 1 else 2)"
    "area_bytes m' (rdt_regs rdt) = (\<lambda>a. if m0_be_reg_d_is_in rd a then Some (m (buf_at rd a)) else area_bytes m (rdt_regs (br_rdt (bra_map ra))) a)"
    using data_nocopy.regmap_add_ok [where d = "(m, bra_buf ra)", OF o p(1) rd p(2) ready order_trans [OF area_room [OF ok credit]] p(3)]
    by (simp only: split_paired_Ex fst_conv copy_ops) blast
  have same: "m' = m" "buf' = bra_buf ra"
    using add(2) ready by (auto simp: be_reg_area_ops_data_nocopy_def be_reg_area_add_def)
  have "unat (bra_area_used (bra_buf ra)) \<le> unat (tc_reg_size (bra_captured ra))" using ok by (simp add: area_ok_def)
  then show ?thesis
    using add order_trans [OF add(5) area_room(1) [OF ok credit]] unfolding same
    by (intro exI [of _ rdt] exI [of _ m] exI [of _ "bra_buf ra"])
      (simp add: area_source_def M0_BE_REG_AREA_DATA_NOCOPY area_regs_def area_in_use_def area_buffer_def bufs_in_def cong: if_cong)
qed

lemma capture_ok:
  assumes ok: "area_ok ra" and rd: "reg_ok rd" and buf: "rd_buf rd = 0 \<longleftrightarrow> bra_type ra = M0_BE_REG_AREA_DATA_COPY"
    and credit: "has_credit ra 1 (rsz rd)"
  shows "\<exists>m' ra'. m0_be_reg_area_capture m ra rd = Some (m', ra') \<and> area_ok ra' \<and> bra_type ra' = bra_type ra \<and>
    bra_area (bra_buf ra') = bra_area (bra_buf ra) \<and> bra_prepared (bra_buf ra') = bra_prepared (bra_buf ra) \<and>
    bra_captured ra' = m0_be_tx_credit_add (bra_captured ra) (M0_BE_REG_D_CREDIT rd) \<and>
    (\<forall>nr sz. has_credit ra (nr + 1) (sz + rsz rd) \<longrightarrow> has_credit ra' nr sz) \<and>
    (\<forall>a. a \<notin> area_buffer ra \<longrightarrow> m' a = m a) \<and>
    area_bytes m' (area_regs ra') =
      (\<lambda>a. if m0_be_reg_d_is_in rd a then Some (m (area_source (bra_type ra) rd a)) else area_bytes m (area_regs ra) a)"
proof -
  obtain rdt m' buf' where add: "m0_be_regmap_add (bra_map ra) (m, bra_buf ra) rd = Some ((bra_map ra)\<lparr>br_rdt := rdt\<rparr>, m', buf')"
    "rdt_ok rdt" "brt_size_max rdt = brt_size_max (br_rdt (bra_map ra))"
    "brt_size rdt \<le> 2 * (unat (tc_reg_nr (bra_captured ra)) + 1) - 1"
    "bufs_in (area_in_use (bra_type ra) buf') (rdt_regs rdt)"
    "bra_area buf' = bra_area (bra_buf ra)" "bra_prepared buf' = bra_prepared (bra_buf ra)"
    "unat (bra_area_used buf') \<le> unat (tc_reg_size (bra_captured ra)) + rsz rd"
    "\<forall>a. a \<notin> area_buffer ra \<longrightarrow> m' a = m a"
    "area_bytes m' (rdt_regs rdt) =
      (\<lambda>a. if m0_be_reg_d_is_in rd a then Some (m (area_source (bra_type ra) rd a)) else area_bytes m (area_regs ra) a)"
    using area_add_ok [OF assms, of m] by blast
  let ?c = "m0_be_tx_credit_add (bra_captured ra) (M0_BE_REG_D_CREDIT rd)"
  let ?ra = "ra\<lparr>bra_map := (bra_map ra)\<lparr>br_rdt := rdt\<rparr>, bra_buf := buf', bra_captured := ?c\<rparr>"
  have le: "unat (tc_reg_nr (bra_captured ra)) + 1 \<le> unat (tc_reg_nr (bra_prepared (bra_buf ra)))"
    "unat (tc_reg_size (bra_captured ra)) + rsz rd \<le> unat (tc_reg_size (bra_prepared (bra_buf ra)))"
    using credit by (simp_all add: has_credit_def)
  have c: "unat (tc_reg_nr ?c) = unat (tc_reg_nr (bra_captured ra)) + 1"
    "unat (tc_reg_size ?c) = unat (tc_reg_size (bra_captured ra)) + rsz rd"
    using le unat_lt_u64 [of "tc_reg_nr (bra_prepared (bra_buf ra))"] unat_lt_u64 [of "tc_reg_size (bra_prepared (bra_buf ra))"]
    by (simp_all add: m0_be_tx_credit_add_def M0_BE_REG_D_CREDIT_def M0_BE_TX_CREDIT_def M0_BE_TX_CB_CREDIT_def unat_add_noof)
  have okn: "area_ok ?ra"
    using ok add c le by (simp add: area_ok_def area_regs_def)
  have "m0_be_tx_credit_le ?c (bra_prepared (bra_buf ra))"
    using c le by (simp add: m0_be_tx_credit_le_def word_le_nat_alt)
  then have "m0_be_reg_area_capture m ra rd = Some (m', ?ra)"
    using add(1) area_ok_invariant [OF ok] area_ok_invariant [OF okn] reg_ok_invariant [OF rd]
    by (simp add: m0_be_reg_area_capture_def Let_def)
  then show ?thesis
    using okn add c by (intro exI [of _ m'] exI [of _ ?ra]) (simp add: area_regs_def has_credit_def)
qed


lemma area_del_ok:
  assumes ok: "area_ok ra" and rd: "reg_ok rd"
  shows "\<exists>rdt. m0_be_regmap_del (bra_map ra) (m, bra_buf ra) rd = Some ((bra_map ra)\<lparr>br_rdt := rdt\<rparr>, m, bra_buf ra) \<and>
    rdt_ok rdt \<and> brt_size_max rdt = brt_size_max (br_rdt (bra_map ra)) \<and>
    rdt_regs rdt = (if \<exists>r \<in> set (area_regs ra). absorbs r rd then area_regs ra else concat (map (trim rd) (area_regs ra)))"
proof (cases "bra_type ra")
  case M0_BE_REG_AREA_DATA_COPY
  then have "br_ops (bra_map ra) = be_reg_area_ops_data_copy" "rdt_ok (br_rdt (bra_map ra))"
    using ok by (simp_all add: area_ok_def be_reg_area_ops_def)
  from data_copy.regmap_del_ok [OF this rd, of "(m, bra_buf ra)"] show ?thesis
    by (simp only: area_regs_def Let_def)
next
  case M0_BE_REG_AREA_DATA_NOCOPY
  then have "br_ops (bra_map ra) = be_reg_area_ops_data_nocopy" "rdt_ok (br_rdt (bra_map ra))"
    using ok by (simp_all add: area_ok_def be_reg_area_ops_def)
  from data_nocopy.regmap_del_ok [OF this rd, of "(m, bra_buf ra)"] show ?thesis
    by (simp only: area_regs_def Let_def)
qed

lemma uncapture_ok:
  assumes ok: "area_ok ra" and rd: "reg_ok rd"
  shows "\<exists>ra'. m0_be_reg_area_uncapture m ra rd = Some (m, ra') \<and> area_ok ra' \<and> bra_type ra' = bra_type ra \<and>
    bra_buf ra' = bra_buf ra \<and> bra_captured ra' = bra_captured ra \<and>
    area_bytes m (area_regs ra') =
      (if \<exists>r \<in> set (area_regs ra). absorbs r rd then area_bytes m (area_regs ra)
       else (\<lambda>a. if m0_be_reg_d_is_in rd a then None else area_bytes m (area_regs ra) a))"
proof -
  let ?rs = "area_regs ra"
  obtain rdt where del: "m0_be_regmap_del (bra_map ra) (m, bra_buf ra) rd = Some ((bra_map ra)\<lparr>br_rdt := rdt\<rparr>, m, bra_buf ra)"
    "rdt_ok rdt" "brt_size_max rdt = brt_size_max (br_rdt (bra_map ra))"
    "rdt_regs rdt = (if \<exists>r \<in> set ?rs. absorbs r rd then ?rs else concat (map (trim rd) ?rs))"
    using area_del_ok [OF assms, of m] by blast
  let ?ra = "ra\<lparr>bra_map := (bra_map ra)\<lparr>br_rdt := rdt\<rparr>\<rparr>"
  have regs: "regs_ok ?rs" "length ?rs = brt_size (br_rdt (bra_map ra))" "rdt_ok (br_rdt (bra_map ra))"
    using ok rdt_regs_nth(1) by (auto simp: area_ok_def area_regs_def rdt_ok_def)
  have "length (rdt_regs rdt) \<le> length ?rs" using trim_length [of rd ?rs] del(4) by simp
  then have sz: "brt_size rdt \<le> brt_size (br_rdt (bra_map ra))" using regs(2) rdt_regs_nth(1) [OF del(2)] by simp
  have bufs: "bufs_in (area_in_use (bra_type ra) (bra_buf ra)) (rdt_regs rdt)"
    using ok del(4) bufs_in_trim [OF regs(1) rd] by (simp add: area_ok_def)
  have okn: "area_ok ?ra" using ok del(2,3) sz bufs by (simp add: area_ok_def area_regs_def)
  have "m0_be_reg_area_uncapture m ra rd = Some (m, ?ra)"
    using del(1) area_ok_invariant [OF ok] area_ok_invariant [OF okn] reg_ok_invariant [OF rd]
    by (simp add: m0_be_reg_area_uncapture_def Let_def)
  moreover have "area_bytes m (area_regs ?ra) =
      (if \<exists>r \<in> set ?rs. absorbs r rd then area_bytes m ?rs
       else (\<lambda>a. if m0_be_reg_d_is_in rd a then None else area_bytes m ?rs a))"
    using trim_all_bytes [OF _ rd, of ?rs m] regs(1) del(4) by (auto simp: area_regs_def regs_ok_def fun_eq_iff)
  ultimately show ?thesis using okn by (intro exI [of _ ?ra]) simp
qed

lemma area_init_ok:
  assumes nr: "2 * unat (tc_reg_nr prepared) < 2 ^ 64"
    and r: "length r = 2 * unat (tc_reg_nr prepared) - 1"
    and area: "ty = M0_BE_REG_AREA_DATA_COPY \<longrightarrow> area \<noteq> 0"
  shows "\<exists>ra. m0_be_reg_area_init (Some r) area prepared ty = Some (0, ra) \<and> area_ok ra \<and> area_regs ra = [] \<and>
    bra_type ra = ty \<and> bra_prepared (bra_buf ra) = prepared \<and> bra_captured ra = M0_BE_TX_CREDIT 0 0 \<and>
    bra_area (bra_buf ra) = (if ty = M0_BE_REG_AREA_DATA_COPY then area else 0)"
proof -
  let ?nr = "tc_reg_nr prepared"
  let ?rdt = "\<lparr>brt_size = 0, brt_size_max = 2 * unat ?nr - 1, brt_r = r\<rparr>"
  let ?ra = "\<lparr>bra_map = \<lparr>br_rdt = ?rdt, br_ops = be_reg_area_ops ty, br_split_on_absorb = True\<rparr>, bra_type = ty,
    bra_buf = \<lparr>bra_area = (if ty = M0_BE_REG_AREA_DATA_COPY then area else 0), bra_area_used = 0, bra_prepared = prepared\<rparr>,
    bra_captured = M0_BE_TX_CREDIT 0 0\<rparr>"
  have sz: "unat (if ?nr = 0 then 0 else ?nr * 2 - 1) = 2 * unat ?nr - 1"
  proof (cases "?nr = 0")
    case False
    have "unat (?nr * 2) = unat ?nr * 2" using nr by (simp add: unat_mult_lem [THEN iffD1])
    moreover have "1 \<le> ?nr * 2" using calculation False by (simp add: word_le_nat_alt unat_gt_0 Suc_leI)
    ultimately show ?thesis using False by (simp add: unat_sub_noof)
  qed simp
  have ok: "area_ok ?ra"
    using r by (simp add: area_ok_def area_regs_def rdt_ok_def rdt_regs_def bufs_in_def M0_BE_TX_CREDIT_def M0_BE_TX_CB_CREDIT_def)
  have inv: "m0_be_rdt__invariant ?rdt"
    using area_ok_invariant [OF ok] by (simp add: m0_be_reg_area__invariant_def m0_be_regmap__invariant_def)
  have "m0_be_reg_area_init (Some r) area prepared ty = Some (0, ?ra)"
    using area_ok_invariant [OF ok] inv area sz
    by (cases ty) (simp_all add: m0_be_reg_area_init_def m0_be_regmap_init_def m0_be_rdt_init_def be_reg_area_zero_def
        be_rdt_zero_def m0_be_regmap__invariant_def Let_def)
  then show ?thesis using ok by (intro exI [of _ ?ra]) (simp add: area_regs_def rdt_regs_def)
qed

lemma area_reset_ok:
  assumes ok: "area_ok ra"
  shows "\<exists>ra'. m0_be_reg_area_reset ra = Some ra' \<and> area_ok ra' \<and> area_regs ra' = [] \<and> bra_type ra' = bra_type ra \<and>
    bra_prepared (bra_buf ra') = bra_prepared (bra_buf ra) \<and> bra_area (bra_buf ra') = bra_area (bra_buf ra) \<and>
    bra_captured ra' = M0_BE_TX_CREDIT 0 0"
proof -
  let ?rdt = "(br_rdt (bra_map ra))\<lparr>brt_size := 0\<rparr>"
  let ?ra = "ra\<lparr>bra_map := (bra_map ra)\<lparr>br_rdt := ?rdt\<rparr>, bra_buf := (bra_buf ra)\<lparr>bra_area_used := 0\<rparr>,
    bra_captured := M0_BE_TX_CREDIT 0 0\<rparr>"
  have okn: "area_ok ?ra"
    using ok by (simp add: area_ok_def area_regs_def rdt_ok_def rdt_regs_def bufs_in_def M0_BE_TX_CREDIT_def M0_BE_TX_CB_CREDIT_def)
  have inv: "m0_be_rdt__invariant (br_rdt (bra_map ra))" "m0_be_rdt__invariant ?rdt"
    using area_ok_invariant [OF ok] area_ok_invariant [OF okn]
    by (simp_all add: m0_be_reg_area__invariant_def m0_be_regmap__invariant_def)
  have "m0_be_reg_area_reset ra = Some ?ra"
    using inv area_ok_invariant [OF ok] area_ok_invariant [OF okn]
    by (simp add: m0_be_reg_area_reset_def m0_be_regmap_reset_def m0_be_rdt_reset_def m0_be_rdt_size_def Let_def)
  then show ?thesis using okn by (intro exI [of _ ?ra]) (simp add: area_regs_def rdt_regs_def)
qed


section \<open>Walking over an area\<close>

lemma card_in_reg:
  assumes "reg_ok r"
  shows "card {a. m0_be_reg_d_is_in r a} = rsz r"
proof -
  have "unat ` {a. m0_be_reg_d_is_in r a} = {rlo r..<rhi r}"
  proof (intro set_eqI iffI)
    fix n
    assume n: "n \<in> {rlo r..<rhi r}"
    then have "unat (of_nat n :: u64) = n" using assms by (simp add: unat_of_nat reg_ok_def)
    then show "n \<in> unat ` {a. m0_be_reg_d_is_in r a}"
      using n by (intro image_eqI [of _ _ "of_nat n"]) (auto simp: is_in_nat [OF assms])
  qed (auto simp: is_in_nat [OF assms])
  moreover have "inj_on unat {a. m0_be_reg_d_is_in r a}" by (simp add: inj_on_def word_unat_eq_iff)
  ultimately have "card {a. m0_be_reg_d_is_in r a} = card {rlo r..<rhi r}" by (metis card_image)
  then show ?thesis by simp
qed

lemma card_area_bytes:
  assumes "regs_ok rs"
  shows "card (dom (area_bytes m rs)) = (\<Sum>r\<leftarrow>rs. rsz r)"
  using assms
proof (induction rs)
  case (Cons r rs)
  have "dom (area_bytes m (r # rs)) = {a. m0_be_reg_d_is_in r a} \<union> dom (area_bytes m rs)"
    by (auto split: if_splits)
  moreover have "{a. m0_be_reg_d_is_in r a} \<inter> dom (area_bytes m rs) = {}"
  proof -
    have "\<not> m0_be_reg_d_is_in s a" if "m0_be_reg_d_is_in r a" "s \<in> set rs" for s a
      using that Cons.prems is_in_nat [of r a] is_in_nat [of s a] by (fastforce simp: regs_ok_def)
    then have "area_bytes m rs a = None" if "m0_be_reg_d_is_in r a" for a
      using that by (auto simp: area_bytes_None)
    then show ?thesis by auto
  qed
  ultimately show ?case
    using Cons card_in_reg [of r] by (simp add: card_Un_disjoint del: area_bytes.simps)
qed (simp add: dom_def)

lemma sum_regs_bound:
  assumes "regs_ok rs" "\<forall>r \<in> set rs. lo \<le> rlo r" "lo < 2 ^ 64"
  shows "lo + (\<Sum>r\<leftarrow>rs. rsz r) < 2 ^ 64"
  using assms
proof (induction rs arbitrary: lo)
  case (Cons r rs)
  have "rhi r + (\<Sum>r\<leftarrow>rs. rsz r) < 2 ^ 64"
    using Cons.prems by (intro Cons.IH) (auto simp: reg_ok_def)
  then show ?case using Cons.prems(2) by simp
qed simp

lemma length_le_sum_regs: "regs_ok rs \<Longrightarrow> length rs \<le> (\<Sum>r\<leftarrow>rs. rsz r)"
  by (induction rs) (auto simp: reg_ok_def)

lemma area_walk:
  assumes "area_ok ra"
  shows "m0_be_regmap_first (bra_map ra) = Some (if area_regs ra = [] then None else Some 0)"
    "i < length (area_regs ra) \<Longrightarrow>
      m0_be_regmap_next (bra_map ra) i = Some (if i + 1 = length (area_regs ra) then None else Some (i + 1))"
    "i < length (area_regs ra) \<Longrightarrow> reg_at (bra_map ra) i = area_regs ra ! i"
proof -
  have ok: "rdt_ok (br_rdt (bra_map ra))" using assms by (simp add: area_ok_def)
  have n: "length (area_regs ra) = brt_size (br_rdt (bra_map ra))" using rdt_regs_nth(1) [OF ok] by (simp add: area_regs_def)
  have "fidx 0 (area_regs ra) = 0"
    using ok by (cases "area_regs ra") (auto simp: fidx_def rdt_ok_def area_regs_def reg_ok_def)
  then show "m0_be_regmap_first (bra_map ra) = Some (if area_regs ra = [] then None else Some 0)"
    using n by (auto simp: m0_be_regmap_first_def rdt_find_ok [OF ok] area_regs_def Let_def)
  show "m0_be_regmap_next (bra_map ra) i = Some (if i + 1 = length (area_regs ra) then None else Some (i + 1))"
    if "i < length (area_regs ra)"
    using that n rdt_next_ok [OF ok] by (simp add: m0_be_regmap_next_def)
  show "reg_at (bra_map ra) i = area_regs ra ! i" if "i < length (area_regs ra)"
    using that n rdt_regs_nth(2) [OF ok] by (simp add: area_regs_def)
qed

lemma used_loop_ok:
  assumes "area_ok ra" "i \<le> length (area_regs ra)"
  shows "area_used_loop ra (if i = length (area_regs ra) then None else Some i) used =
    Some (foldl (\<lambda>c r. m0_be_tx_credit_add c (M0_BE_REG_D_CREDIT r)) used (drop i (area_regs ra)))"
  using assms(2)
proof (induction "length (area_regs ra) - i" arbitrary: i used)
  case 0
  then show ?case by (simp add: area_used_loop.simps)
next
  case (Suc n)
  then have i: "i < length (area_regs ra)" by simp
  then show ?case
    using Suc.hyps(1) [of "i + 1"] Suc.hyps(2)
    by (subst area_used_loop.simps) (simp add: area_walk [OF assms(1)] Cons_nth_drop_Suc [symmetric] Let_def)
qed

lemma credit_foldl:
  "tc_reg_nr (foldl (\<lambda>c r. m0_be_tx_credit_add c (M0_BE_REG_D_CREDIT r)) c rs) = tc_reg_nr c + of_nat (length rs)"
  "tc_reg_size (foldl (\<lambda>c r. m0_be_tx_credit_add c (M0_BE_REG_D_CREDIT r)) c rs) = tc_reg_size c + of_nat (\<Sum>r\<leftarrow>rs. rsz r)"
  by (induction rs arbitrary: c)
    (simp_all add: m0_be_tx_credit_add_def M0_BE_REG_D_CREDIT_def M0_BE_TX_CREDIT_def M0_BE_TX_CB_CREDIT_def)

lemma merge_in_loop_ok:
  assumes src: "area_ok src" "\<forall>r \<in> set (area_regs src). rd_buf r \<noteq> 0"
    and "area_ok ra" "bra_type ra = M0_BE_REG_AREA_DATA_NOCOPY" "i \<le> length (area_regs src)"
    "has_credit ra (length (drop i (area_regs src))) (\<Sum>r\<leftarrow>drop i (area_regs src). rsz r)"
  shows "\<exists>ra'. merge_in_loop src (m, ra) (if i = length (area_regs src) then None else Some i) = Some (m, ra') \<and>
    area_ok ra' \<and> area_bytes m (area_regs ra') =
      (\<lambda>a. case area_bytes m (drop i (area_regs src)) a of None \<Rightarrow> area_bytes m (area_regs ra) a | Some x \<Rightarrow> Some x)"
  using assms(3-)
proof (induction "length (area_regs src) - i" arbitrary: i ra)
  case 0
  then show ?case by (simp add: merge_in_loop.simps)
next
  case (Suc n)
  let ?rs = "area_regs src"
  have i: "i < length ?rs" using Suc.hyps(2) by simp
  have dr: "drop i ?rs = ?rs ! i # drop (i + 1) ?rs" using Cons_nth_drop_Suc [OF i] by simp
  have regs: "regs_ok ?rs" using src(1) by (simp add: area_ok_def rdt_ok_def area_regs_def)
  have r: "reg_ok (?rs ! i)" "rd_buf (?rs ! i) \<noteq> 0" using regs_ok_reg [OF regs] i src(2) by auto
  have rdi: "regs_ok (?rs ! i # drop (i + 1) ?rs)"
    using regs append_take_drop_id [of i ?rs] unfolding dr by (metis regs_ok_simps(3))
  have credit: "has_credit ra 1 (rsz (?rs ! i))" using Suc.prems(4) unfolding dr by (simp add: has_credit_def)
  have buf: "rd_buf (?rs ! i) = 0 \<longleftrightarrow> bra_type ra = M0_BE_REG_AREA_DATA_COPY" using r(2) Suc.prems(2) by simp
  obtain m' ra' where cap: "m0_be_reg_area_capture m ra (?rs ! i) = Some (m', ra')" "area_ok ra'" "bra_type ra' = bra_type ra"
    "\<And>nr sz. has_credit ra (nr + 1) (sz + rsz (?rs ! i)) \<Longrightarrow> has_credit ra' nr sz" "\<And>a. a \<notin> area_buffer ra \<Longrightarrow> m' a = m a"
    "area_bytes m' (area_regs ra') = (\<lambda>a. if m0_be_reg_d_is_in (?rs ! i) a then Some (m (area_source (bra_type ra) (?rs ! i) a))
       else area_bytes m (area_regs ra) a)"
    using capture_ok [OF Suc.prems(1) r(1) buf credit, of m] by blast
  have m: "m' = m" using cap(5) Suc.prems(2) by (auto simp: area_buffer_def)
  have "has_credit ra' (length (drop (i + 1) ?rs)) (\<Sum>r\<leftarrow>drop (i + 1) ?rs. rsz r)"
    using Suc.prems(4) unfolding dr by (intro cap(4)) (simp add: add.commute)
  moreover have "n = length ?rs - (i + 1)" "i + 1 \<le> length ?rs" "bra_type ra' = M0_BE_REG_AREA_DATA_NOCOPY"
    using Suc.hyps(2) cap(3) Suc.prems(2) i by simp_all
  ultimately obtain ra'' where next': "merge_in_loop src (m, ra') (if i + 1 = length ?rs then None else Some (i + 1)) = Some (m, ra'')"
    "area_ok ra''" "area_bytes m (area_regs ra'') =
      (\<lambda>a. case area_bytes m (drop (i + 1) ?rs) a of None \<Rightarrow> area_bytes m (area_regs ra') a | Some x \<Rightarrow> Some x)"
    using Suc.hyps(1) [OF _ cap(2)] by blast
  have "area_bytes m (drop (i + 1) ?rs) a = None" if "m0_be_reg_d_is_in (?rs ! i) a" for a
    using that rdi is_in_nat [of _ a] by (fastforce simp: area_bytes_None regs_ok_def)
  then have "area_bytes m (area_regs ra'') =
      (\<lambda>a. case area_bytes m (drop i ?rs) a of None \<Rightarrow> area_bytes m (area_regs ra) a | Some x \<Rightarrow> Some x)"
    using cap(6) Suc.prems(2) unfolding next'(3) dr m by (auto simp: area_source_def fun_eq_iff split: option.split)
  moreover have "merge_in_loop src (m, ra) (Some i) = Some (m, ra'')"
    using cap(1) next'(1) i by (subst merge_in_loop.simps) (simp add: m m0_be_reg_area_next_def area_walk [OF src(1)])
  ultimately show ?case using next'(2) i by auto
qed


section \<open>Histories of an area\<close>

text \<open>
  What happens to an area between its initialisation and its finalisation: the user writes to memory, captures
  and uncaptures regions, and the area is reset. \<open>legal\<close> is what the callers of the code keep: the credit suffices, a
  region captured by copying lies apart from the buffer of the area, memory that was captured by reference is not written,
  and a region that lies strictly inside a captured one is not uncaptured.
\<close>

datatype area_event = User_write u64 u8 | Capture m0_be_reg_d | Uncapture m0_be_reg_d | Reset

fun area_do :: "area_event \<Rightarrow> mem \<times> m0_be_reg_area \<Rightarrow> (mem \<times> m0_be_reg_area) option" where
  "area_do (User_write a v) (m, ra) = Some (m(a := v), ra)"
| "area_do (Capture rd) (m, ra) = m0_be_reg_area_capture m ra rd"
| "area_do (Uncapture rd) (m, ra) = m0_be_reg_area_uncapture m ra rd"
| "area_do Reset (m, ra) = map_option (Pair m) (m0_be_reg_area_reset ra)"

fun legal :: "area_event \<Rightarrow> m0_be_reg_area \<Rightarrow> bool" where
  "legal (User_write a v) ra = (\<forall>r \<in> set (area_regs ra). \<not> a - rd_buf r < br_size (rd_reg r))"
| "legal (Capture rd) ra =
     (reg_ok rd \<and> (rd_buf rd = 0) = (bra_type ra = M0_BE_REG_AREA_DATA_COPY) \<and> has_credit ra 1 (rsz rd) \<and>
      (bra_type ra = M0_BE_REG_AREA_DATA_COPY \<longrightarrow>
         rhi rd \<le> unat (bra_area (bra_buf ra)) \<or>
         unat (bra_area (bra_buf ra)) + unat (tc_reg_size (bra_prepared (bra_buf ra))) \<le> rlo rd))"
| "legal (Uncapture rd) ra = (reg_ok rd \<and> (\<forall>r \<in> set (area_regs ra). \<not> absorbs r rd))"
| "legal Reset ra = True"

text \<open>What an area promises, over the user's memory alone and without any buffer, array or credit.\<close>

fun spec_do :: "m0_be_reg_area_type \<Rightarrow> area_event \<Rightarrow> mem \<times> (u64 \<Rightarrow> u8 option) \<Rightarrow> mem \<times> (u64 \<Rightarrow> u8 option)" where
  "spec_do ty (User_write a v) (m, c) = (m(a := v), c)"
| "spec_do ty (Capture rd) (m, c) = (m, \<lambda>a. if m0_be_reg_d_is_in rd a then Some (m (area_source ty rd a)) else c a)"
| "spec_do ty (Uncapture rd) (m, c) = (m, \<lambda>a. if m0_be_reg_d_is_in rd a then None else c a)"
| "spec_do ty Reset (m, c) = (m, \<lambda>a. None)"

fun legal_run :: "area_event list \<Rightarrow> mem \<times> m0_be_reg_area \<Rightarrow> bool" where
  "legal_run [] st = True"
| "legal_run (e # es) st = (legal e (snd st) \<and> (case area_do e st of None \<Rightarrow> True | Some st' \<Rightarrow> legal_run es st'))"

fun area_run :: "area_event list \<Rightarrow> mem \<times> m0_be_reg_area \<Rightarrow> (mem \<times> m0_be_reg_area) option" where
  "area_run [] st = Some st"
| "area_run (e # es) st = (case area_do e st of None \<Rightarrow> None | Some st' \<Rightarrow> area_run es st')"

text \<open>The relation of an area to its specification.\<close>

definition area_rel :: "m0_be_reg_area_type \<Rightarrow> mem \<times> m0_be_reg_area \<Rightarrow> mem \<times> (u64 \<Rightarrow> u8 option) \<Rightarrow> bool" where
  "area_rel ty = (\<lambda>(m, ra) (um, c). area_ok ra \<and> bra_type ra = ty \<and> area_bytes m (area_regs ra) = c \<and>
     (\<forall>a. a \<notin> area_buffer ra \<longrightarrow> m a = um a) \<and>
     (ty = M0_BE_REG_AREA_DATA_COPY \<longrightarrow>
        unat (bra_area (bra_buf ra)) + unat (tc_reg_size (bra_prepared (bra_buf ra))) \<le> 2 ^ 64))"

lemma buf_at_bytes:
  assumes "reg_ok r" "m0_be_reg_d_is_in r a"
  shows "buf_at r a - rd_buf r < br_size (rd_reg r)"
proof -
  have "rlo r \<le> unat a" "unat a < rhi r" using assms is_in_nat by auto
  then show ?thesis
    by (simp add: buf_at_def be_reg_d_fb_def word_less_nat_alt unat_sub_noof word_le_nat_alt)
qed

lemma write_bytes:
  assumes "regs_ok rs" "\<forall>r \<in> set rs. \<not> x - rd_buf r < br_size (rd_reg r)"
  shows "area_bytes (m(x := v)) rs = area_bytes m rs"
proof
  fix a
  have "\<And>r. r \<in> set rs \<Longrightarrow> m0_be_reg_d_is_in r a \<Longrightarrow> buf_at r a \<noteq> x"
    using assms buf_at_bytes regs_ok_def by blast
  then show "area_bytes (m(x := v)) rs a = area_bytes m rs a" by (induction rs) auto
qed

lemma source_apart:
  assumes "reg_ok rd" "m0_be_reg_d_is_in rd a" "legal (Capture rd) ra"
    "bra_type ra = M0_BE_REG_AREA_DATA_COPY \<Longrightarrow> unat (bra_area (bra_buf ra)) + unat (tc_reg_size (bra_prepared (bra_buf ra))) \<le> 2 ^ 64"
  shows "area_source (bra_type ra) rd a \<notin> area_buffer ra"
proof (cases "bra_type ra")
  case M0_BE_REG_AREA_DATA_COPY
  let ?b = "bra_area (bra_buf ra)" and ?s = "tc_reg_size (bra_prepared (bra_buf ra))"
  have a: "rlo rd \<le> unat a" "unat a < rhi rd" using is_in_nat [OF assms(1)] assms(2) by auto
  have "\<not> a - ?b < ?s"
  proof (cases "?b \<le> a")
    case True
    then have "unat (a - ?b) = unat a - unat ?b" by (rule unat_sub_noof)
    moreover have "unat ?b \<le> unat a" using True by (simp add: word_le_nat_alt)
    ultimately show ?thesis using a assms(3) M0_BE_REG_AREA_DATA_COPY by (auto simp: word_less_nat_alt)
  next
    case False
    then have lt: "unat a < unat ?b" by (simp add: word_le_nat_alt)
    have "unat (a - ?b) = 2 ^ 64 + unat a - unat ?b"
      using unat_sub_if_size [of a ?b] lt by (simp add: word_le_nat_alt word_size)
    then show ?thesis using assms(4) [OF M0_BE_REG_AREA_DATA_COPY] lt by (simp add: word_less_nat_alt)
  qed
  then show ?thesis by (simp add: area_source_def area_buffer_def M0_BE_REG_AREA_DATA_COPY)
qed (simp add: area_buffer_def)

lemma area_buffer_cong:
  assumes "bra_type ra' = bra_type ra" "bra_area (bra_buf ra') = bra_area (bra_buf ra)"
    "bra_prepared (bra_buf ra') = bra_prepared (bra_buf ra)"
  shows "area_buffer ra' = area_buffer ra"
  using assms by (cases "bra_type ra") (simp_all add: area_buffer_def)

lemma area_step:
  assumes rel: "area_rel ty (m, ra) (um, c)" and legal: "legal e ra"
  shows "\<exists>st'. area_do e (m, ra) = Some st' \<and> area_rel ty st' (spec_do ty e (um, c))"
proof (cases e)
  case (User_write a v)
  have "regs_ok (area_regs ra)" using rel by (simp add: area_rel_def area_ok_def rdt_ok_def area_regs_def)
  then show ?thesis using rel legal User_write write_bytes [of "area_regs ra" a m v] by (auto simp: area_rel_def)
next
  case (Capture rd)
  have ok: "area_ok ra" "bra_type ra = ty" using rel by (simp_all add: area_rel_def)
  have l: "reg_ok rd" "(rd_buf rd = 0) = (bra_type ra = M0_BE_REG_AREA_DATA_COPY)" "has_credit ra 1 (rsz rd)"
    using legal Capture by simp_all
  obtain m' ra' where cap: "m0_be_reg_area_capture m ra rd = Some (m', ra')" "area_ok ra'" "bra_type ra' = bra_type ra"
    "bra_area (bra_buf ra') = bra_area (bra_buf ra)" "bra_prepared (bra_buf ra') = bra_prepared (bra_buf ra)"
    "\<forall>a. a \<notin> area_buffer ra \<longrightarrow> m' a = m a"
    "area_bytes m' (area_regs ra') = (\<lambda>a. if m0_be_reg_d_is_in rd a then Some (m (area_source (bra_type ra) rd a))
       else area_bytes m (area_regs ra) a)"
    using capture_ok [OF ok(1) l, of m] by blast
  have "m (area_source ty rd a) = um (area_source ty rd a)" if "m0_be_reg_d_is_in rd a" for a
    using source_apart [OF l(1) that] legal Capture rel ok(2) by (auto simp: area_rel_def)
  moreover have "area_buffer ra' = area_buffer ra" by (rule area_buffer_cong [OF cap(3-5)])
  ultimately have "area_rel ty (m', ra') (spec_do ty e (um, c))"
    using cap rel by (auto simp: Capture area_rel_def fun_eq_iff)
  then show ?thesis using cap(1) by (simp add: Capture)
next
  case (Uncapture rd)
  have "area_ok ra" "reg_ok rd" "\<not> (\<exists>r \<in> set (area_regs ra). absorbs r rd)" using rel legal Uncapture by (simp_all add: area_rel_def)
  then obtain ra' where unc: "m0_be_reg_area_uncapture m ra rd = Some (m, ra')" "area_ok ra'" "bra_type ra' = bra_type ra"
    "bra_buf ra' = bra_buf ra" "area_bytes m (area_regs ra') = (\<lambda>a. if m0_be_reg_d_is_in rd a then None else area_bytes m (area_regs ra) a)"
    using uncapture_ok [of ra rd m] by (simp only: if_False) blast
  then show ?thesis using rel area_buffer_cong [of ra' ra] by (auto simp: Uncapture area_rel_def)
next
  case Reset
  have "area_ok ra" using rel by (simp add: area_rel_def)
  then obtain ra' where "m0_be_reg_area_reset ra = Some ra'" "area_ok ra'" "area_regs ra' = []" "bra_type ra' = bra_type ra"
    "bra_prepared (bra_buf ra') = bra_prepared (bra_buf ra)" "bra_area (bra_buf ra') = bra_area (bra_buf ra)"
    using area_reset_ok by blast
  then show ?thesis using rel area_buffer_cong [of ra' ra] by (simp add: Reset area_rel_def fun_eq_iff)
qed

lemma area_run_refines:
  assumes "area_rel ty st s" "legal_run es st"
  shows "\<exists>st'. area_run es st = Some st' \<and> area_rel ty st' (fold (spec_do ty) es s)"
  using assms
proof (induction es arbitrary: st s)
  case (Cons e es)
  have "area_rel ty (fst st, snd st) (fst s, snd s)" "legal e (snd st)" using Cons.prems by simp_all
  from area_step [OF this] obtain st' where "area_do e st = Some st'" "area_rel ty st' (spec_do ty e s)" by auto
  then show ?case using Cons.IH [of st' "spec_do ty e s"] Cons.prems(2) by simp
qed simp

text \<open>What an event does to the credits, and a way to show that a history is legal without running the code.\<close>

fun captured_after :: "area_event \<Rightarrow> m0_be_tx_credit \<Rightarrow> m0_be_tx_credit" where
  "captured_after (Capture rd) c = m0_be_tx_credit_add c (M0_BE_REG_D_CREDIT rd)"
| "captured_after Reset c = M0_BE_TX_CREDIT 0 0"
| "captured_after e c = c"

lemma area_do_fields:
  assumes "area_ok ra" "legal e ra" "area_do e (m, ra) = Some (m', ra')"
  shows "bra_area (bra_buf ra') = bra_area (bra_buf ra) \<and> bra_prepared (bra_buf ra') = bra_prepared (bra_buf ra) \<and>
    bra_captured ra' = captured_after e (bra_captured ra)"
proof (cases e)
  case (Capture rd)
  then show ?thesis using capture_ok [OF assms(1), of rd m] assms(2,3) by auto
next
  case (Uncapture rd)
  then show ?thesis using uncapture_ok [OF assms(1), of rd m] assms(2,3) by auto
next
  case Reset
  then show ?thesis using area_reset_ok [OF assms(1)] assms(3) by auto
qed (use assms(3) in auto)

lemma legal_run_Cons:
  assumes "area_rel ty (m, ra) s" "legal e ra"
    "\<And>m' ra'. area_rel ty (m', ra') (spec_do ty e s) \<Longrightarrow> bra_area (bra_buf ra') = bra_area (bra_buf ra) \<Longrightarrow>
       bra_prepared (bra_buf ra') = bra_prepared (bra_buf ra) \<Longrightarrow> bra_captured ra' = captured_after e (bra_captured ra) \<Longrightarrow>
       legal_run es (m', ra')"
  shows "legal_run (e # es) (m, ra)"
proof -
  obtain um c where s: "s = (um, c)" by (cases s)
  obtain m' ra' where st: "area_do e (m, ra) = Some (m', ra')" "area_rel ty (m', ra') (spec_do ty e s)"
    using area_step [OF assms(1,2) [unfolded s]] by (auto simp: s)
  have "area_ok ra" using assms(1) by (simp add: s area_rel_def)
  from area_do_fields [OF this assms(2) st(1)] assms(3) [OF st(2)] show ?thesis using assms(2) st(1) by simp
qed

text \<open>Memory apart from the buffer may always be written, and an address that is not captured bounds the regions.\<close>

lemma legal_write_apart:
  assumes "area_ok ra" "bra_type ra = M0_BE_REG_AREA_DATA_COPY" "x \<notin> area_buffer ra"
  shows "legal (User_write x v) ra"
proof -
  have "\<not> x - rd_buf r < br_size (rd_reg r)" if r: "r \<in> set (area_regs ra)" for r
  proof
    assume lt: "x - rd_buf r < br_size (rd_reg r)"
    let ?a = "be_reg_d_fb r + (x - rd_buf r)"
    have ok: "reg_ok r" using assms(1) r by (simp add: area_ok_def rdt_ok_def area_regs_def regs_ok_def)
    then have "unat ?a = rlo r + unat (x - rd_buf r)"
      using lt by (subst unat_add_noof) (simp_all add: be_reg_d_fb_def reg_ok_def word_less_nat_alt)
    then have "m0_be_reg_d_is_in r ?a" using lt by (simp add: is_in_nat [OF ok] word_less_nat_alt)
    then have "buf_at r ?a \<in> area_in_use (bra_type ra) (bra_buf ra)" using assms(1) r by (auto simp: area_ok_def bufs_in_def)
    then have "x - bra_area (bra_buf ra) < bra_area_used (bra_buf ra)" using assms(2) by (simp add: buf_at_def area_in_use_def)
    moreover have "bra_area_used (bra_buf ra) \<le> tc_reg_size (bra_prepared (bra_buf ra))"
      using assms(1) by (simp add: area_ok_def word_le_nat_alt)
    ultimately show False using assms(2,3) by (simp add: area_buffer_def)
  qed
  then show ?thesis by simp
qed

lemma legal_uncapture_edge:
  assumes "area_rel ty (m, ra) (um, c)" "reg_ok rd" "c x = None" "unat x + 1 = rlo rd"
  shows "legal (Uncapture rd) ra"
proof -
  have "\<not> absorbs r rd" if r: "r \<in> set (area_regs ra)" for r
  proof -
    have "regs_ok (area_regs ra)" "area_bytes m (area_regs ra) x = None"
      using assms(1,3) by (auto simp: area_rel_def area_ok_def rdt_ok_def area_regs_def)
    then have "reg_ok r" "\<not> m0_be_reg_d_is_in r x" using r by (auto simp: regs_ok_def area_bytes_None)
    then show ?thesis using assms(2,4) by (auto simp: is_in_nat absorbs_def reg_ok_def)
  qed
  then show ?thesis using assms(2) by simp
qed

lemma init_rel:
  assumes "2 * unat (tc_reg_nr prepared) < 2 ^ 64" "length r = 2 * unat (tc_reg_nr prepared) - 1"
    "ty = M0_BE_REG_AREA_DATA_COPY \<longrightarrow> area \<noteq> 0 \<and> unat area + unat (tc_reg_size prepared) \<le> 2 ^ 64"
  shows "\<exists>ra. m0_be_reg_area_init (Some r) area prepared ty = Some (0, ra) \<and> area_rel ty (m, ra) (m, \<lambda>a. None)"
  proof -
  obtain ra where "m0_be_reg_area_init (Some r) area prepared ty = Some (0, ra)" "area_ok ra" "area_regs ra = []"
    "bra_type ra = ty" "bra_prepared (bra_buf ra) = prepared"
    "bra_area (bra_buf ra) = (if ty = M0_BE_REG_AREA_DATA_COPY then area else 0)"
    using area_init_ok [OF assms(1,2), of ty area] assms(3) by blast
  then show ?thesis using assms(3) by (auto simp: area_rel_def)
qed

text \<open>An example: an area of three regions and 64 bytes, at address 4096.\<close>

definition history_sample :: "area_event list" where
  "history_sample = [Capture (region 16 8 0), User_write 18 7, Capture (region 18 2 0), Uncapture (region 16 2 0)]"

lemmas credit_simps = M0_BE_TX_CREDIT_def M0_BE_TX_CB_CREDIT_def M0_BE_REG_D_CREDIT_def m0_be_tx_credit_add_def

lemma region_in: "m0_be_reg_d_is_in (region a n b) x \<longleftrightarrow> a \<le> x \<and> x < a + n"
  by (simp add: m0_be_reg_d_is_in_def m0_ext_is_in_def REGD_EXT_def region_def)

lemma history_sample_legal:
  assumes "m0_be_reg_area_init (Some (replicate 5 (region 0 0 0))) 4096 (M0_BE_TX_CREDIT 3 64) M0_BE_REG_AREA_DATA_COPY = Some (0, ra)"
  shows "legal_run history_sample (\<lambda>_. 0, ra)"
proof -
  let ?ty = M0_BE_REG_AREA_DATA_COPY
  have "area_rel ?ty (\<lambda>_. 0, ra) (\<lambda>_. 0, \<lambda>a. None)" and
    f: "bra_area (bra_buf ra) = 4096" "bra_prepared (bra_buf ra) = M0_BE_TX_CREDIT 3 64" "bra_captured ra = M0_BE_TX_CREDIT 0 0"
    using init_rel [of "M0_BE_TX_CREDIT 3 64" "replicate 5 (region 0 0 0)" ?ty 4096 "\<lambda>_. 0"] assms
      area_init_ok [of "M0_BE_TX_CREDIT 3 64" "replicate 5 (region 0 0 0)" ?ty 4096] by (auto simp: credit_simps)
  then show ?thesis
    unfolding history_sample_def
    apply -
    apply (rule legal_run_Cons, assumption)
     apply (simp add: area_rel_def has_credit_def region_def reg_ok_def credit_simps)
    apply (rule legal_run_Cons, assumption)
     apply (rule legal_write_apart; simp add: area_rel_def area_buffer_def credit_simps)
    apply (rule legal_run_Cons, assumption)
     apply (simp add: area_rel_def has_credit_def region_def reg_ok_def credit_simps)
    apply (rule legal_run_Cons, assumption)
     apply (simp only: spec_do.simps)
     apply (rule legal_uncapture_edge [of _ _ _ _ _ _ 15], assumption)
       apply (simp_all add: region_in)
     apply (simp_all add: region_def reg_ok_def)
    done
qed

section \<open>Properties\<close>

text \<open>
  C1. A region area holds exactly the bytes its user captured. After a successful initialisation, with an array and a buffer of
  the prepared sizes, every history of writes, captures within the credit, uncaptures and resets runs
  without a failed assertion, and the regions then in the area give, for every address, the byte that memory had when the address
  was last captured, and nothing for an address that was uncaptured since or not captured at all. It holds for areas
  that copy the bytes and for those that refer to them.
\<close>

theorem reg_area_history:
  assumes "2 * unat (tc_reg_nr prepared) < 2 ^ 64" "length r = 2 * unat (tc_reg_nr prepared) - 1"
    "ty = M0_BE_REG_AREA_DATA_COPY \<longrightarrow> area \<noteq> 0 \<and> unat area + unat (tc_reg_size prepared) \<le> 2 ^ 64"
  shows "\<exists>ra. m0_be_reg_area_init (Some r) area prepared ty = Some (0, ra) \<and>
    (legal_run es (m, ra) \<longrightarrow> (\<exists>m' ra'. area_run es (m, ra) = Some (m', ra') \<and> m0_be_reg_area__invariant ra' \<and>
       area_bytes m' (area_regs ra') = snd (fold (spec_do ty) es (m, \<lambda>a. None))))"
proof -
  obtain ra where ra: "m0_be_reg_area_init (Some r) area prepared ty = Some (0, ra)" "area_rel ty (m, ra) (m, \<lambda>a. None)"
    using init_rel [OF assms] by blast
  have "\<exists>m' ra'. area_run es (m, ra) = Some (m', ra') \<and> m0_be_reg_area__invariant ra' \<and>
      area_bytes m' (area_regs ra') = snd (fold (spec_do ty) es (m, \<lambda>a. None))" if l: "legal_run es (m, ra)"
    using area_run_refines [OF ra(2) l] by (auto simp: area_rel_def split_beta dest: area_ok_invariant)
  then show ?thesis using ra(1) by blast
qed

theorem reg_area_history_witness:
  "\<exists>ra m' ra'. m0_be_reg_area_init (Some (replicate 5 (region 0 0 0))) 4096 (M0_BE_TX_CREDIT 3 64) M0_BE_REG_AREA_DATA_COPY =
      Some (0, ra) \<and> area_run history_sample (\<lambda>_. 0, ra) = Some (m', ra') \<and>
    map (area_bytes m' (area_regs ra')) [15, 17, 18, 20] = [None, None, Some 7, Some 0]"
proof -
  have "\<exists>ra. m0_be_reg_area_init (Some (replicate 5 (region 0 0 0))) 4096 (M0_BE_TX_CREDIT 3 64) M0_BE_REG_AREA_DATA_COPY =
      Some (0, ra) \<and> (legal_run history_sample (\<lambda>_. 0, ra) \<longrightarrow>
        (\<exists>m' ra'. area_run history_sample (\<lambda>_. 0, ra) = Some (m', ra') \<and> m0_be_reg_area__invariant ra' \<and>
       area_bytes m' (area_regs ra') = snd (fold (spec_do M0_BE_REG_AREA_DATA_COPY) history_sample (\<lambda>_. 0, \<lambda>a. None))))"
    by (rule reg_area_history) (simp_all add: credit_simps)
  moreover have "map (snd (fold (spec_do M0_BE_REG_AREA_DATA_COPY) history_sample (\<lambda>_. 0, \<lambda>a. None))) [15, 17, 18, 20] =
      [None, None, Some 7, Some 0]"
    by (simp add: history_sample_def area_source_def region_in)
  ultimately show ?thesis using history_sample_legal by metis
qed

text \<open>
  C2. Uncapturing any region after any history does not fail either. It takes exactly the bytes of the region out
  of the area, unless a captured region reaches beyond it on both sides, and then it changes nothing: two regions in place of one
  could exceed the credit, and the tests of the module state the same.
\<close>

theorem reg_area_uncapture_result:
  assumes "2 * unat (tc_reg_nr prepared) < 2 ^ 64" "length r = 2 * unat (tc_reg_nr prepared) - 1"
    "ty = M0_BE_REG_AREA_DATA_COPY \<longrightarrow> area \<noteq> 0 \<and> unat area + unat (tc_reg_size prepared) \<le> 2 ^ 64"
    "m0_be_reg_area_init (Some r) area prepared ty = Some (0, ra0)" "legal_run es (m0, ra0)" "area_run es (m0, ra0) = Some (m, ra)"
    "reg_ok rd"
  shows "\<exists>ra'. m0_be_reg_area_uncapture m ra rd = Some (m, ra') \<and> m0_be_reg_area__invariant ra' \<and>
    bra_buf ra' = bra_buf ra \<and> bra_captured ra' = bra_captured ra \<and>
    area_bytes m (area_regs ra') =
      (if \<exists>r \<in> set (area_regs ra). absorbs r rd then area_bytes m (area_regs ra)
       else (\<lambda>a. if m0_be_reg_d_is_in rd a then None else area_bytes m (area_regs ra) a))"
proof -
  have "area_rel ty (m0, ra0) (m0, \<lambda>a. None)" using init_rel [OF assms(1-3), of m0] assms(4) by auto
  then have "area_ok ra" using area_run_refines assms(5,6) by (fastforce simp: area_rel_def split_beta)
  then show ?thesis using uncapture_ok [OF _ assms(7), of ra m] area_ok_invariant by blast
qed

theorem reg_area_uncapture_result_witness:
  "\<exists>ra0 m ra ra'. m0_be_reg_area_init (Some (replicate 5 (region 0 0 0))) 4096 (M0_BE_TX_CREDIT 3 64) M0_BE_REG_AREA_DATA_COPY =
      Some (0, ra0) \<and> area_run history_sample (\<lambda>_. 0, ra0) = Some (m, ra) \<and>
    m0_be_reg_area_uncapture m ra (region 18 1 0) = Some (m, ra') \<and> m0_be_reg_area__invariant ra'"
proof -
  obtain ra0 where i: "m0_be_reg_area_init (Some (replicate 5 (region 0 0 0))) 4096 (M0_BE_TX_CREDIT 3 64)
      M0_BE_REG_AREA_DATA_COPY = Some (0, ra0)" "area_rel M0_BE_REG_AREA_DATA_COPY (\<lambda>_. 0, ra0) (\<lambda>_. 0, \<lambda>a. None)"
    using init_rel [of "M0_BE_TX_CREDIT 3 64" "replicate 5 (region 0 0 0)" M0_BE_REG_AREA_DATA_COPY 4096 "\<lambda>_. 0"]
    by (auto simp: credit_simps)
  have l: "legal_run history_sample (\<lambda>_. 0, ra0)" by (rule history_sample_legal [OF i(1)])
  obtain m ra where run: "area_run history_sample (\<lambda>_. 0, ra0) = Some (m, ra)" using area_run_refines [OF i(2) l] by auto
  have "\<exists>ra'. m0_be_reg_area_uncapture m ra (region 18 1 0) = Some (m, ra') \<and> m0_be_reg_area__invariant ra' \<and>
      bra_buf ra' = bra_buf ra \<and> bra_captured ra' = bra_captured ra \<and>
      area_bytes m (area_regs ra') =
        (if \<exists>r \<in> set (area_regs ra). absorbs r (region 18 1 0) then area_bytes m (area_regs ra)
         else (\<lambda>a. if m0_be_reg_d_is_in (region 18 1 0) a then None else area_bytes m (area_regs ra) a))"
    by (rule reg_area_uncapture_result [OF _ _ _ i(1) l run]) (simp_all add: credit_simps region_def reg_ok_def)
  then show ?thesis using i(1) run by blast
qed


text \<open>
  C5. Counting what an area uses terminates on every sound area, and the sums do not wrap around: it finds the number of the
  regions and the number of the bytes that are captured.
\<close>

theorem reg_area_used_counts:
  assumes ok: "area_ok ra"
  shows "\<exists>used. m0_be_reg_area_used ra = Some used \<and> unat (tc_reg_nr used) = length (area_regs ra) \<and>
    unat (tc_reg_size used) = card (dom (area_bytes m (area_regs ra)))"
proof -
  let ?rs = "area_regs ra"
  let ?used = "foldl (\<lambda>c r. m0_be_tx_credit_add c (M0_BE_REG_D_CREDIT r)) (M0_BE_TX_CREDIT 0 0) ?rs"
  have regs: "regs_ok ?rs" using ok by (simp add: area_ok_def rdt_ok_def area_regs_def)
  have eq: "(if ?rs = [] then None else Some 0) = (if 0 = length ?rs then None else Some (0 :: nat))" by simp
  have "m0_be_reg_area_used ra = Some ?used"
    using used_loop_ok [OF ok, of 0 "M0_BE_TX_CREDIT 0 0"] area_ok_invariant [OF ok]
    by (simp add: m0_be_reg_area_used_def area_walk(1) [OF ok] eq del: length_0_conv)
  moreover have "(\<Sum>r\<leftarrow>?rs. rsz r) < 2 ^ 64" using sum_regs_bound [OF regs, of 0] by simp
  then have "unat (tc_reg_nr ?used) = length ?rs" "unat (tc_reg_size ?used) = (\<Sum>r\<leftarrow>?rs. rsz r)"
    using length_le_sum_regs [OF regs]
    by (simp_all only: credit_foldl) (simp_all add: unat_of_nat M0_BE_TX_CREDIT_def M0_BE_TX_CB_CREDIT_def)
  ultimately show ?thesis using card_area_bytes [OF regs, of m] by (intro exI [of _ ?used]) simp
qed

definition sample_area :: m0_be_reg_area where
  "sample_area =
     \<lparr>bra_map = \<lparr>br_rdt = \<lparr>brt_size = 2, brt_size_max = 3, brt_r = [region 16 8 4096, region 32 4 8192, region 0 0 0]\<rparr>,
                 br_ops = be_reg_area_ops M0_BE_REG_AREA_DATA_NOCOPY, br_split_on_absorb = True\<rparr>,
      bra_type = M0_BE_REG_AREA_DATA_NOCOPY,
      bra_buf = \<lparr>bra_area = 0, bra_area_used = 0, bra_prepared = M0_BE_TX_CREDIT 2 12\<rparr>,
      bra_captured = M0_BE_TX_CREDIT 2 12\<rparr>"

lemma sample_area_ok: "area_ok sample_area" "area_regs sample_area = [region 16 8 4096, region 32 4 8192]"
proof -
  show regs: "area_regs sample_area = [region 16 8 4096, region 32 4 8192]"
    by (simp add: sample_area_def area_regs_def rdt_regs_def take_Cons')
  show "area_ok sample_area"
    unfolding area_ok_def rdt_ok_def area_regs_def [symmetric] regs
    by (simp add: sample_area_def region_def reg_ok_def bufs_in_def area_in_use_def credit_simps)
qed

theorem reg_area_used_counts_witness:
  "\<exists>used. m0_be_reg_area_used sample_area = Some used \<and> unat (tc_reg_nr used) = 2 \<and> unat (tc_reg_size used) = 12"
proof -
  have "regs_ok (area_regs sample_area)" using sample_area_ok(1) by (simp add: area_ok_def rdt_ok_def area_regs_def)
  from card_area_bytes [OF this, of "\<lambda>_. 0"] have "card (dom (area_bytes (\<lambda>_. 0) (area_regs sample_area))) = 12"
    unfolding sample_area_ok(2) by (simp add: region_def)
  then show ?thesis
    using reg_area_used_counts [OF sample_area_ok(1), of "\<lambda>_. 0"] by (simp add: sample_area_ok(2) numeral_2_eq_2)
qed

text \<open>
  C4. Merging an area into another one that refers to its bytes, and whose credit suffices for all regions of the first, terminates without a
  failed assertion, changes no memory, and the result holds the bytes of the first area and, elsewhere, those it held before.
\<close>

theorem reg_area_merge_in_bytes:
  assumes "area_ok src" "\<forall>r \<in> set (area_regs src). rd_buf r \<noteq> 0" "area_ok ra" "bra_type ra = M0_BE_REG_AREA_DATA_NOCOPY"
    "has_credit ra (length (area_regs src)) (\<Sum>r\<leftarrow>area_regs src. rsz r)"
  shows "\<exists>ra'. m0_be_reg_area_merge_in m ra src = Some (m, ra') \<and> area_ok ra' \<and>
    area_bytes m (area_regs ra') = area_bytes m (area_regs ra) ++ area_bytes m (area_regs src)"
proof -
  have eq: "(if area_regs src = [] then None else Some 0) = (if 0 = length (area_regs src) then None else Some (0 :: nat))" by simp
  show ?thesis
    using merge_in_loop_ok [OF assms(1-4), of 0 m] assms(5)
    by (simp add: m0_be_reg_area_merge_in_def m0_be_reg_area_first_def area_walk(1) [OF assms(1)] eq map_add_def del: length_0_conv)
qed

theorem reg_area_merge_in_bytes_witness:
  "\<exists>ra ra'. m0_be_reg_area_init (Some (replicate 7 (region 0 0 0))) 0 (M0_BE_TX_CREDIT 4 64) M0_BE_REG_AREA_DATA_NOCOPY = Some (0, ra) \<and>
    m0_be_reg_area_merge_in (\<lambda>a. ucast a) ra sample_area = Some (\<lambda>a. ucast a, ra') \<and>
    map (area_bytes (\<lambda>a. ucast a) (area_regs ra')) [15, 17, 33] = [None, Some 1, Some 1]"
proof -
  obtain ra where ra: "m0_be_reg_area_init (Some (replicate 7 (region 0 0 0))) 0 (M0_BE_TX_CREDIT 4 64) M0_BE_REG_AREA_DATA_NOCOPY = Some (0, ra)"
    "area_ok ra" "area_regs ra = []" "bra_type ra = M0_BE_REG_AREA_DATA_NOCOPY" "bra_prepared (bra_buf ra) = M0_BE_TX_CREDIT 4 64"
    "bra_captured ra = M0_BE_TX_CREDIT 0 0"
    using area_init_ok [of "M0_BE_TX_CREDIT 4 64" "replicate 7 (region 0 0 0)" M0_BE_REG_AREA_DATA_NOCOPY 0]
    by (auto simp: credit_simps)
  have "\<exists>ra'. m0_be_reg_area_merge_in (\<lambda>a. ucast a) ra sample_area = Some (\<lambda>a. ucast a, ra') \<and> area_ok ra' \<and>
      area_bytes (\<lambda>a. ucast a) (area_regs ra') =
        area_bytes (\<lambda>a. ucast a) (area_regs ra) ++ area_bytes (\<lambda>a. ucast a) (area_regs sample_area)"
    by (rule reg_area_merge_in_bytes [OF sample_area_ok(1) _ ra(2,4)])
      (simp_all add: sample_area_ok(2) region_def has_credit_def ra(5,6) credit_simps)
  moreover have "map (Map.empty ++ area_bytes (\<lambda>a. ucast a) (area_regs sample_area)) [15, 17, 33] = [None, Some 1, Some (1 :: u8)]"
    unfolding sample_area_ok(2) by (simp add: region_in map_add_def) (simp add: buf_at_def be_reg_d_fb_def region_def)
  moreover have "area_bytes (\<lambda>a. ucast a) (area_regs ra) = Map.empty" by (simp add: ra(3) fun_eq_iff)
  ultimately show ?thesis using ra(1) by metis
qed

text \<open>
  C6. The initialisation of an area fails only with \<^verbatim>\<open>-ENOMEM\<close>, when the array of regions or the buffer cannot be
  allocated, and then leaves nothing behind: the area is zeroed and no assertion fails.
\<close>

theorem reg_area_init_errors:
  assumes "2 * unat (tc_reg_nr prepared) < 2 ^ 64" "length r = 2 * unat (tc_reg_nr prepared) - 1" "alloc = None \<or> alloc = Some r"
  shows "m0_be_reg_area_init alloc area prepared ty = Some (- ENOMEM, be_reg_area_zero) \<longleftrightarrow>
    alloc = None \<or> ty = M0_BE_REG_AREA_DATA_COPY \<and> area = 0"
proof -
  have "m0_be_reg_area_init None area prepared ty = Some (- ENOMEM, be_reg_area_zero)"
    by (simp add: m0_be_reg_area_init_def m0_be_regmap_init_def m0_be_rdt_init_def Let_def)
  moreover have "m0_be_reg_area_init (Some r) 0 prepared M0_BE_REG_AREA_DATA_COPY = Some (- ENOMEM, be_reg_area_zero)"
    using area_init_ok [OF assms(1,2), of M0_BE_REG_AREA_DATA_COPY 1]
    by (auto simp: m0_be_reg_area_init_def m0_be_regmap_init_def m0_be_rdt_init_def m0_be_regmap_fini_def m0_be_rdt_fini_def
        be_reg_area_zero_def Let_def bind_eq_Some_conv split: if_splits)
  moreover have "m0_be_reg_area_init (Some r) area prepared ty = Some (- ENOMEM, be_reg_area_zero) \<Longrightarrow>
      ty = M0_BE_REG_AREA_DATA_COPY \<and> area = 0"
    using area_init_ok [OF assms(1,2), of ty area] by auto
  ultimately show ?thesis using assms(3) by auto
qed

theorem reg_area_init_errors_witness:
  "m0_be_reg_area_init (Some (replicate 5 (region 0 0 0))) 0 (M0_BE_TX_CREDIT 3 64) M0_BE_REG_AREA_DATA_COPY =
     Some (- ENOMEM, be_reg_area_zero)"
  using reg_area_init_errors [of "M0_BE_TX_CREDIT 3 64" "replicate 5 (region 0 0 0)" "Some (replicate 5 (region 0 0 0))" 0
      M0_BE_REG_AREA_DATA_COPY] by (simp add: credit_simps)

end
