(* ===== verification/Motr_RegMerge.thy ===== *)
theory Motr_RegMerge
  imports Motr_RegArea
begin

text \<open>
  The merger of the areas of a group of transactions, at the end of \<^verbatim>\<open>src/be/tx_regmap.c\<close>. It walks over all areas at once,
  cuts the regions into pieces at every address where a region starts or ends, and captures each piece from the region
  with the greatest generation. The number of pieces and the number of bytes to come bound the loop and the credit it needs.
\<close>

section \<open>The next piece\<close>

text \<open>The two least members of a set of addresses.\<close>

definition two_least :: "u64 set \<Rightarrow> u64 \<times> u64 \<Rightarrow> bool" where
  "two_least B arr \<longleftrightarrow> fst arr < snd arr \<and> fst arr \<in> B \<and> snd arr \<in> B \<and> (\<forall>v \<in> B. v = fst arr \<or> snd arr \<le> v)"

lemma insert2_two_least:
  assumes "two_least B arr" "0 \<notin> B"
  shows "\<exists>arr'. be_reg_d_arr_insert2 arr v = Some arr' \<and> two_least (insert v B) arr'"
proof -
  have "fst arr \<noteq> 0" "snd arr \<noteq> 0" using assms by (auto simp: two_least_def)
  then show ?thesis using assms(1) by (auto simp: be_reg_d_arr_insert2_def two_least_def)
qed

text \<open>The addresses from \<open>start\<close> on where the list of the regions that are current changes.\<close>

definition bounds :: "u64 \<Rightarrow> m0_be_reg_d \<Rightarrow> u64 set" where
  "bounds start r = {max (be_reg_d_fb r) start, be_reg_d_lb1 r}"

definition current :: "u64 \<Rightarrow> m0_be_reg_d \<Rightarrow> bool" where
  "current start r \<longleftrightarrow> reg_ok r \<and> unat start < rhi r"

lemma current_bounds:
  assumes "current start r"
  shows "max (be_reg_d_fb r) start < be_reg_d_lb1 r" "0 \<notin> bounds start r" "two_least (bounds start r) (max (be_reg_d_fb r) start, be_reg_d_lb1 r)"
proof -
  have ok: "reg_ok r" "unat start < rhi r" using assms by (simp_all add: current_def)
  have "0 < be_reg_d_fb r" using ok(1) by (simp add: be_reg_d_fb_def reg_ok_def word_less_nat_alt)
  moreover show lt: "max (be_reg_d_fb r) start < be_reg_d_lb1 r"
    using ok by (auto simp: max_def word_less_nat_alt unat_reg_bytes [OF ok(1)] reg_ok_def)
  ultimately show "0 \<notin> bounds start r" by (auto simp: bounds_def max_def split: if_splits)
  show "two_least (bounds start r) (max (be_reg_d_fb r) start, be_reg_d_lb1 r)" using lt by (auto simp: two_least_def bounds_def)
qed

lemma first_subreg_loop_more:
  assumes "\<forall>r. Some r \<in> set hs \<longrightarrow> current start r" "two_least B arr" "0 \<notin> B"
  shows "\<exists>arr'. first_subreg_loop start hs arr = Some arr' \<and> two_least (B \<union> \<Union> (bounds start ` {r. Some r \<in> set hs})) arr'"
  using assms
proof (induction hs arbitrary: B arr)
  case (Cons h hs)
  show ?case
  proof (cases h)
    case None
    then show ?thesis using Cons by simp
  next
    case (Some r)
    have cur: "current start r" using Cons.prems(1) Some by simp
    let ?f = "max (be_reg_d_fb r) start" and ?e = "be_reg_d_lb1 r"
    have nz: "?f \<noteq> 0" "?e \<noteq> 0" using current_bounds(2) [OF cur] by (auto simp: bounds_def)
    obtain arr1 where a1: "be_reg_d_arr_insert2 arr ?f = Some arr1" "two_least (insert ?f B) arr1"
      using insert2_two_least [OF Cons.prems(2,3)] by blast
    have "0 \<notin> insert ?f B" using nz Cons.prems(3) by auto
    from insert2_two_least [OF a1(2) this, of ?e]
    obtain arr2 where a2: "be_reg_d_arr_insert2 arr1 ?e = Some arr2" "two_least (insert ?e (insert ?f B)) arr2" by blast
    have B: "insert ?e (insert ?f B) = B \<union> bounds start r" by (auto simp: bounds_def)
    have "0 \<notin> B \<union> bounds start r" using Cons.prems(3) current_bounds(2) [OF cur] by simp
    from Cons.IH [OF _ a2(2) [unfolded B] this] Cons.prems(1)
    obtain arr' where rest: "first_subreg_loop start hs arr2 = Some arr'"
      "two_least (B \<union> bounds start r \<union> \<Union> (bounds start ` {r. Some r \<in> set hs})) arr'" by auto
    have "fst arr \<noteq> 0" using Cons.prems(2,3) by (auto simp: two_least_def)
    then have "first_subreg_loop start (h # hs) arr = Some arr'"
      using a1(1) a2(1) rest(1) current_bounds(1) [OF cur] by (simp add: Some Let_def)
    moreover have "B \<union> bounds start r \<union> \<Union> (bounds start ` {r. Some r \<in> set hs}) = B \<union> \<Union> (bounds start ` {r. Some r \<in> set (h # hs)})"
      by (auto simp: Some)
    ultimately show ?thesis using rest(2) by metis
  qed
qed simp

lemma first_subreg_loop_ok:
  assumes "\<forall>r. Some r \<in> set hs \<longrightarrow> current start r" "Some s \<in> set hs"
  shows "\<exists>arr. first_subreg_loop start hs (0, 0) = Some arr \<and> two_least (\<Union> (bounds start ` {r. Some r \<in> set hs})) arr"
  using assms
proof (induction hs)
  case (Cons h hs)
  show ?case
  proof (cases h)
    case None
    then show ?thesis using Cons by simp
  next
    case (Some r)
    have cur: "current start r" using Cons.prems(1) Some by simp
    have hs: "\<forall>r. Some r \<in> set hs \<longrightarrow> current start r" using Cons.prems(1) by simp
    have eq: "bounds start r \<union> \<Union> (bounds start ` {r. Some r \<in> set hs}) = \<Union> (bounds start ` {r. Some r \<in> set (h # hs)})"
      by (auto simp: Some)
    from first_subreg_loop_more [OF hs current_bounds(3,2) [OF cur]] show ?thesis
      using current_bounds(1) [OF cur] unfolding eq by (simp add: Some Let_def)
  qed
qed simp

text \<open>
  The piece that the merger takes next: it starts where the first current region does, and each current region
  covers it or lies after it.
\<close>

lemma first_subreg_ok:
  assumes "\<forall>r. Some r \<in> set hs \<longrightarrow> current start r" "Some s \<in> set hs"
  obtains a sz where "be_reg_d_arr_first_subreg hs start = Some (a, sz)" "reg_ok \<lparr>rd_reg = \<lparr>br_seg = 0, br_size = sz, br_addr = a\<rparr>, rd_buf = 0, rd_gen_idx = 0\<rparr>"
    "unat start \<le> unat a" "unat (a + sz) = unat a + unat sz"
    "\<And>r. Some r \<in> set hs \<Longrightarrow> rlo r \<le> unat a \<and> unat a + unat sz \<le> rhi r \<or> unat a + unat sz \<le> rlo r"
    "\<exists>r. Some r \<in> set hs \<and> rlo r \<le> unat a \<and> unat a + unat sz \<le> rhi r"
    "\<exists>r. Some r \<in> set hs \<and> (unat a + unat sz = rhi r \<or> unat a + unat sz = rlo r \<and> unat start < rlo r)"
    "\<And>r. Some r \<in> set hs \<Longrightarrow> unat a \<le> max (rlo r) (unat start)"
proof -
  let ?B = "\<Union> (bounds start ` {r. Some r \<in> set hs})"
  obtain a e where l: "first_subreg_loop start hs (0, 0) = Some (a, e)" "two_least ?B (a, e)"
    using first_subreg_loop_ok [OF assms] by auto
  have ae: "a < e" "a \<in> ?B" "e \<in> ?B" "\<And>v. v \<in> ?B \<Longrightarrow> v = a \<or> e \<le> v" using l(2) by (auto simp: two_least_def)
  have "0 \<notin> ?B" using assms(1) current_bounds(2) by auto
  then have nz: "a \<noteq> 0" "e \<noteq> 0" using ae(2,3) by auto
  define sz where "sz = e - a"
  have usz: "unat sz = unat e - unat a" "unat a < unat e" using ae(1) unat_sub_noof [of a e] by (simp_all add: sz_def word_less_nat_alt word_le_nat_alt)
  have asz: "a + sz = e" "unat a + unat sz = unat e" using usz by (simp_all add: sz_def)
  have cur: "reg_ok r" "unat start < rhi r" "unat (be_reg_d_fb r) = rlo r" "unat (be_reg_d_lb1 r) = rhi r" "rlo r < rhi r"
    if "Some r \<in> set hs" for r
    using assms(1) that unat_reg_bytes [of r] by (auto simp: current_def reg_ok_def)
  have lo: "max (be_reg_d_fb r) start = a \<or> e \<le> max (be_reg_d_fb r) start" "be_reg_d_lb1 r = a \<or> e \<le> be_reg_d_lb1 r"
    if "Some r \<in> set hs" for r
    using ae(4) that by (auto simp: bounds_def)
  have mx: "unat (max (be_reg_d_fb r) start) = max (rlo r) (unat start)" if "Some r \<in> set hs" for r
    using cur(3) [OF that] by (simp add: max_def word_le_nat_alt)
  have a_le: "unat a \<le> max (rlo r) (unat start)" if "Some r \<in> set hs" for r
    using lo(1) [OF that] mx [OF that] usz(2) by (auto simp: word_le_nat_alt)
  have hi: "unat e \<le> rhi r" if "Some r \<in> set hs" for r
    using lo(2) [OF that] a_le [OF that] cur [OF that] by (auto simp: word_le_nat_alt max_def split: if_splits)
  have start: "unat start \<le> unat a"
    using ae(2) cur(2,4) mx by (auto simp: bounds_def intro: less_imp_le)
  have part: "rlo r \<le> unat a \<and> unat e \<le> rhi r \<or> unat e \<le> rlo r" if "Some r \<in> set hs" for r
    using lo(1) [OF that] mx [OF that] hi [OF that] start usz(2) by (auto simp: word_le_nat_alt max_def split: if_splits)
  have "\<exists>r. Some r \<in> set hs \<and> rlo r \<le> unat a \<and> unat e \<le> rhi r"
  proof -
    obtain r where r: "Some r \<in> set hs" "a = max (be_reg_d_fb r) start \<or> a = be_reg_d_lb1 r" using ae(2) by (auto simp: bounds_def)
    then have "a = max (be_reg_d_fb r) start" using hi [OF r(1)] cur(4) [OF r(1)] usz(2) by auto
    then show ?thesis using r(1) mx [OF r(1)] hi [OF r(1)] by (intro exI [of _ r]) simp
  qed
  moreover have "\<exists>r. Some r \<in> set hs \<and> (unat e = rhi r \<or> unat e = rlo r \<and> unat start < rlo r)"
  proof -
    obtain r where r: "Some r \<in> set hs" "e = max (be_reg_d_fb r) start \<or> e = be_reg_d_lb1 r" using ae(3) by (auto simp: bounds_def)
    then have "unat e = rhi r \<or> unat e = max (rlo r) (unat start)" using mx [OF r(1)] cur(4) [OF r(1)] by auto
    then show ?thesis using r(1) start usz(2) by (intro exI [of _ r]) (auto simp: max_def split: if_splits)
  qed
  moreover have "be_reg_d_arr_first_subreg hs start = Some (a, sz)"
    using l(1) nz ae(1) by (simp add: be_reg_d_arr_first_subreg_def sz_def)
  moreover have "reg_ok \<lparr>rd_reg = \<lparr>br_seg = 0, br_size = sz, br_addr = a\<rparr>, rd_buf = 0, rd_gen_idx = 0\<rparr>"
    using nz usz asz unat_lt_u64 [of e] by (simp add: reg_ok_def unat_gt_0)
  ultimately show thesis using that [of a sz] start part asz a_le by simp
qed

section \<open>The newest region\<close>

abbreviation piece :: "u64 \<Rightarrow> u64 \<Rightarrow> m0_be_reg_d" where
  "piece a sz \<equiv> \<lparr>rd_reg = \<lparr>br_seg = 0, br_size = sz, br_addr = a\<rparr>, rd_buf = 0, rd_gen_idx = 0\<rparr>"

definition gens_differ :: "m0_be_reg_d option list \<Rightarrow> bool" where
  "gens_differ = sorted_wrt (\<lambda>g h. \<forall>r s. g = Some r \<longrightarrow> h = Some s \<longrightarrow> rd_gen_idx r \<noteq> rd_gen_idx s)"

lemma overlap_reg:
  assumes "rd_reg p = rd_reg q"
  shows "be_reg_d_are_overlapping r p = be_reg_d_are_overlapping r q" "be_reg_d_is_partof r p = be_reg_d_is_partof r q"
  using assms by (simp_all add: be_reg_d_are_overlapping_def be_reg_d_is_partof_def REGD_EXT_def)

lemma max_gen_loop_more:
  assumes "\<forall>r. Some r \<in> set hs \<longrightarrow> be_reg_d_is_partof r p \<or> \<not> be_reg_d_are_overlapping r p" "gens_differ hs"
    "rd_reg new = rd_reg p" "rd_gen_idx new = rd_gen_idx b" "\<forall>r. Some r \<in> set hs \<longrightarrow> rd_gen_idx r \<noteq> rd_gen_idx b"
  shows "\<exists>b'. max_gen_idx_loop hs new (Some b) = Some (new\<lparr>rd_gen_idx := rd_gen_idx b'\<rparr>, Some b') \<and>
    (b' = b \<or> Some b' \<in> set hs \<and> be_reg_d_are_overlapping b' p) \<and> rd_gen_idx b \<le> rd_gen_idx b' \<and>
    (\<forall>r. Some r \<in> set hs \<longrightarrow> be_reg_d_are_overlapping r p \<longrightarrow> rd_gen_idx r \<le> rd_gen_idx b')"
  using assms
proof (induction hs arbitrary: new b)
  case Nil
  then show ?case by (intro exI [of _ b]) (cases new, simp)
next
  case (Cons h hs)
  note ov = overlap_reg [OF Cons.prems(3)]
  have hs: "\<forall>r. Some r \<in> set hs \<longrightarrow> be_reg_d_is_partof r p \<or> \<not> be_reg_d_are_overlapping r p" "gens_differ hs"
    using Cons.prems(1,2) by (auto simp: gens_differ_def)
  show ?case
  proof (cases h)
    case None
    then show ?thesis using Cons.IH [OF hs Cons.prems(3,4)] Cons.prems(5) by simp
  next
    case (Some r)
    have r: "be_reg_d_is_partof r p \<or> \<not> be_reg_d_are_overlapping r p" "rd_gen_idx r \<noteq> rd_gen_idx b" using Cons.prems(1,5) Some by auto
    show ?thesis
    proof (cases "be_reg_d_are_overlapping r p \<and> rd_gen_idx b < rd_gen_idx r")
      case True
      have "\<forall>s. Some s \<in> set hs \<longrightarrow> rd_gen_idx s \<noteq> rd_gen_idx r" using Cons.prems(2) Some by (fastforce simp: gens_differ_def)
      from Cons.IH [OF hs _ _ this, of "new\<lparr>rd_gen_idx := rd_gen_idx r\<rparr>"] Cons.prems(3) show ?thesis
        using True r Cons.prems(4) by (auto simp: Some ov)
    next
      case False
      have "\<forall>s. Some s \<in> set hs \<longrightarrow> rd_gen_idx s \<noteq> rd_gen_idx b" using Cons.prems(5) by simp
      from Cons.IH [OF hs Cons.prems(3,4) this] show ?thesis
        using False r Cons.prems(4) by (auto simp: Some ov)
    qed
  qed
qed

lemma max_gen_loop_ok:
  assumes "\<forall>r. Some r \<in> set hs \<longrightarrow> be_reg_d_is_partof r p \<or> \<not> be_reg_d_are_overlapping r p" "gens_differ hs"
    "Some s \<in> set hs" "be_reg_d_are_overlapping s p"
  shows "\<exists>b. max_gen_idx_loop hs p None = Some (p\<lparr>rd_gen_idx := rd_gen_idx b\<rparr>, Some b) \<and>
    Some b \<in> set hs \<and> be_reg_d_are_overlapping b p \<and>
    (\<forall>r. Some r \<in> set hs \<longrightarrow> be_reg_d_are_overlapping r p \<longrightarrow> rd_gen_idx r \<le> rd_gen_idx b)"
  using assms
proof (induction hs)
  case (Cons h hs)
  have hs: "\<forall>r. Some r \<in> set hs \<longrightarrow> be_reg_d_is_partof r p \<or> \<not> be_reg_d_are_overlapping r p" "gens_differ hs"
    using Cons.prems(1,2) by (auto simp: gens_differ_def)
  show ?case
  proof (cases h)
    case None
    then show ?thesis using Cons.IH [OF hs] Cons.prems(3,4) by simp
  next
    case (Some r)
    have r: "be_reg_d_is_partof r p \<or> \<not> be_reg_d_are_overlapping r p" using Cons.prems(1) Some by auto
    show ?thesis
    proof (cases "be_reg_d_are_overlapping r p")
      case True
      have "\<forall>s. Some s \<in> set hs \<longrightarrow> rd_gen_idx s \<noteq> rd_gen_idx r" using Cons.prems(2) Some by (fastforce simp: gens_differ_def)
      from max_gen_loop_more [OF hs _ _ this, of "p\<lparr>rd_gen_idx := rd_gen_idx r\<rparr>"] show ?thesis
        using True r by (auto simp: Some)
    next
      case False
      then have "Some s \<in> set hs" using Cons.prems(3,4) Some by auto
      then show ?thesis using Cons.IH [OF hs _ Cons.prems(4)] False by (auto simp: Some)
    qed
  qed
qed simp

lemma merger_max_gen_ok:
  assumes "\<forall>r. Some r \<in> set hs \<longrightarrow> reg_ok r \<and> (rlo r \<le> unat a \<and> unat a + unat sz \<le> rhi r \<or> unat a + unat sz \<le> rlo r)"
    "gens_differ hs" "reg_ok (piece a sz)" "Some s \<in> set hs" "rlo s \<le> unat a" "unat a + unat sz \<le> rhi s"
  obtains b where "be_reg_area_merger_max_gen_idx hs a sz =
      Some \<lparr>rd_reg = \<lparr>br_seg = br_seg (rd_reg b), br_size = sz, br_addr = a\<rparr>, rd_buf = rd_buf b + (a - be_reg_d_fb b), rd_gen_idx = rd_gen_idx b\<rparr>"
    "Some b \<in> set hs" "rlo b \<le> unat a" "unat a + unat sz \<le> rhi b"
    "\<And>r. Some r \<in> set hs \<Longrightarrow> rlo r \<le> unat a \<Longrightarrow> rd_gen_idx r \<le> rd_gen_idx b"
proof -
  let ?p = "piece a sz"
  have p: "0 < unat sz" using assms(3) by (simp add: reg_ok_def)
  have ov: "be_reg_d_are_overlapping r ?p \<longleftrightarrow> rlo r \<le> unat a" "be_reg_d_is_partof r ?p \<longleftrightarrow> rlo r \<le> unat a" if "Some r \<in> set hs" for r
  proof -
    have "reg_ok r" "rlo r \<le> unat a \<and> unat a + unat sz \<le> rhi r \<or> unat a + unat sz \<le> rlo r" using assms(1) that by auto
    then show "be_reg_d_are_overlapping r ?p \<longleftrightarrow> rlo r \<le> unat a" "be_reg_d_is_partof r ?p \<longleftrightarrow> rlo r \<le> unat a"
      using overlapping_nat [of r ?p] partof_nat [of r ?p] assms(3) p by auto
  qed
  have "\<forall>r. Some r \<in> set hs \<longrightarrow> be_reg_d_is_partof r ?p \<or> \<not> be_reg_d_are_overlapping r ?p" using ov by blast
  from max_gen_loop_ok [OF this assms(2,4)] ov assms(5)
  obtain b where b: "max_gen_idx_loop hs ?p None = Some (?p\<lparr>rd_gen_idx := rd_gen_idx b\<rparr>, Some b)" "Some b \<in> set hs"
    "be_reg_d_are_overlapping b ?p" "\<And>r. Some r \<in> set hs \<Longrightarrow> be_reg_d_are_overlapping r ?p \<Longrightarrow> rd_gen_idx r \<le> rd_gen_idx b"
    using assms(4) by blast
  have lo1: "rlo b \<le> unat a" using ov(1) [OF b(2)] b(3) by simp
  have "rlo b \<le> unat a \<and> unat a + unat sz \<le> rhi b \<or> unat a + unat sz \<le> rlo b" using assms(1) b(2) by blast
  then have lo: "rlo b \<le> unat a" "unat a + unat sz \<le> rhi b" using lo1 p by linarith+
  have "be_reg_d_is_partof b (?p\<lparr>rd_gen_idx := rd_gen_idx b\<rparr>)" using ov(2) [OF b(2)] lo(1) by (simp add: be_reg_d_is_partof_def REGD_EXT_def)
  then have "be_reg_area_merger_max_gen_idx hs a sz =
      Some \<lparr>rd_reg = \<lparr>br_seg = br_seg (rd_reg b), br_size = sz, br_addr = a\<rparr>, rd_buf = rd_buf b + (a - be_reg_d_fb b), rd_gen_idx = rd_gen_idx b\<rparr>"
    using b(1) by (simp add: be_reg_area_merger_max_gen_idx_def be_reg_d_sub_make_def) (simp add: be_reg_d_fb_def)
  then show thesis using that b(2,4) lo ov(1) by blast
qed

section \<open>What remains of the areas\<close>

text \<open>The regions of an area from a position on, and the step over a region that ends at an address.\<close>

definition rest :: "m0_be_reg_area \<Rightarrow> nat option \<Rightarrow> m0_be_reg_d list" where
  "rest ra p = (case p of None \<Rightarrow> [] | Some i \<Rightarrow> drop i (area_regs ra))"

definition rests :: "m0_be_reg_area list \<Rightarrow> nat option list \<Rightarrow> m0_be_reg_d list list" where
  "rests ras pos = map2 rest ras pos"

definition heads :: "m0_be_reg_d list list \<Rightarrow> m0_be_reg_d option list" where
  "heads = map (\<lambda>rs. case rs of [] \<Rightarrow> None | r # _ \<Rightarrow> Some r)"

definition pass :: "u64 \<Rightarrow> m0_be_reg_d list \<Rightarrow> m0_be_reg_d list" where
  "pass addr rs = (case rs of [] \<Rightarrow> [] | r # ss \<Rightarrow> if be_reg_d_lb1 r = addr then ss else rs)"

definition pos_ok :: "m0_be_reg_area \<Rightarrow> nat option \<Rightarrow> bool" where
  "pos_ok ra p \<longleftrightarrow> area_ok ra \<and> (case p of None \<Rightarrow> True | Some i \<Rightarrow> i < length (area_regs ra))"

lemma in_heads: "Some r \<in> set (heads rss) \<longleftrightarrow> (\<exists>ss. r # ss \<in> set rss)"
  by (force simp: heads_def split: list.splits)

lemma rest_Some:
  assumes "pos_ok ra (Some i)"
  shows "rest ra (Some i) = reg_at (bra_map ra) i # drop (i + 1) (area_regs ra)"
  using assms area_walk(3) [of ra i] by (simp add: pos_ok_def rest_def Cons_nth_drop_Suc)

lemma pos_heads:
  assumes "list_all2 pos_ok ras pos"
  shows "pos_regs ras pos = heads (rests ras pos)"
proof -
  have h: "map_option (reg_at (bra_map ra)) p = (case rest ra p of [] \<Rightarrow> None | r # _ \<Rightarrow> Some r)" if "pos_ok ra p" for ra p
    using that rest_Some by (cases p) (auto simp: rest_def)
  show ?thesis
    using assms by (induction rule: list_all2_induct) (simp_all add: pos_regs_def heads_def rests_def h)
qed

lemma next_pos:
  assumes "pos_ok ra (Some i)"
  shows "\<exists>p. m0_be_reg_area_next ra i = Some p \<and> pos_ok ra p \<and> rest ra p = drop (i + 1) (area_regs ra)"
  using assms area_walk(2) [of ra i] by (auto simp: pos_ok_def m0_be_reg_area_next_def rest_def)

lemma pass_stale_ok:
  assumes "list_all2 pos_ok ras pos"
  shows "\<exists>pos'. pass_stale ras addr pos = Some pos' \<and> list_all2 pos_ok ras pos' \<and> rests ras pos' = map (pass addr) (rests ras pos)"
  using assms
proof (induction rule: list_all2_induct)
  case (Cons ra ras p pos)
  then obtain pos' where IH: "pass_stale ras addr pos = Some pos'" "list_all2 pos_ok ras pos'" "rests ras pos' = map (pass addr) (rests ras pos)"
    by blast
  show ?case
  proof (cases p)
    case None
    then show ?thesis using IH Cons.hyps(1) by (auto simp: rests_def rest_def pass_def)
  next
    case (Some i)
    obtain p' where p': "m0_be_reg_area_next ra i = Some p'" "pos_ok ra p'" "rest ra p' = drop (i + 1) (area_regs ra)"
      using next_pos [of ra i] Cons.hyps(1) Some by blast
    show ?thesis
      using IH p' Cons.hyps(1) rest_Some [of ra i] Some by (auto simp: rests_def pass_def)
  qed
qed (simp add: rests_def)

lemma merge_first_ok:
  assumes "\<forall>ra \<in> set ras. area_ok ra"
  shows "\<exists>pos. merge_first ras = Some pos \<and> list_all2 pos_ok ras pos \<and> rests ras pos = map area_regs ras"
  using assms
proof (induction ras)
  case (Cons ra ras)
  then obtain pos where "merge_first ras = Some pos" "list_all2 pos_ok ras pos" "rests ras pos = map area_regs ras" by auto
  moreover have "pos_ok ra (if area_regs ra = [] then None else Some 0)" "rest ra (if area_regs ra = [] then None else Some 0) = area_regs ra"
    using Cons.prems by (simp_all add: pos_ok_def rest_def)
  ultimately show ?case
    using Cons.prems area_walk(1) [of ra]
    by (intro exI [of _ "(if area_regs ra = [] then None else Some 0) # pos"]) (simp add: m0_be_reg_area_first_def rests_def)
qed (simp add: rests_def)

lemma pos_exists:
  assumes "list_all2 pos_ok ras pos"
  shows "(\<exists>p \<in> set pos. p \<noteq> None) \<longleftrightarrow> (\<exists>rs \<in> set (rests ras pos). rs \<noteq> [])"
  using assms
proof (induction rule: list_all2_induct)
  case (Cons ra ras p pos)
  then show ?case using rest_Some [of ra] by (cases p) (auto simp: rests_def rest_def pos_ok_def)
qed (simp add: rests_def)

section \<open>The specification of a merge\<close>

text \<open>The region with the greatest generation of those that contain an address, and its byte.\<close>

fun newest :: "m0_be_reg_d list \<Rightarrow> u64 \<Rightarrow> m0_be_reg_d option" where
  "newest [] a = None"
| "newest (r # rs) a =
     (case newest rs a of
        None \<Rightarrow> if m0_be_reg_d_is_in r a then Some r else None
      | Some s \<Rightarrow> if m0_be_reg_d_is_in r a \<and> rd_gen_idx s < rd_gen_idx r then Some r else Some s)"

definition merged :: "mem \<Rightarrow> m0_be_reg_d list \<Rightarrow> u64 \<Rightarrow> u8 option" where
  "merged m rs a = map_option (\<lambda>r. m (buf_at r a)) (newest rs a)"

lemma newest_None: "newest rs a = None \<longleftrightarrow> (\<forall>r \<in> set rs. \<not> m0_be_reg_d_is_in r a)"
  by (induction rs) (auto split: option.splits)

lemma newest_Some:
  "newest rs a = Some b \<Longrightarrow> b \<in> set rs \<and> m0_be_reg_d_is_in b a \<and> (\<forall>r \<in> set rs. m0_be_reg_d_is_in r a \<longrightarrow> rd_gen_idx r \<le> rd_gen_idx b)"
proof (induction rs arbitrary: b)
  case (Cons r rs)
  then show ?case
    using newest_None [of rs a] by (cases "newest rs a") (fastforce split: if_splits)+
qed simp

lemma newest_eq:
  assumes "b \<in> set rs" "m0_be_reg_d_is_in b a" "\<And>r. r \<in> set rs \<Longrightarrow> m0_be_reg_d_is_in r a \<Longrightarrow> r = b \<or> rd_gen_idx r < rd_gen_idx b"
  shows "newest rs a = Some b"
proof (cases "newest rs a")
  case None
  then show ?thesis using assms(1,2) newest_None by blast
next
  case (Some c)
  then show ?thesis using newest_Some [OF Some] assms by (metis leD)
qed

lemma newest_filter: "newest (filter (\<lambda>r. m0_be_reg_d_is_in r a) rs) a = newest rs a"
  by (induction rs) (auto split: option.splits)

section \<open>One step of the merge\<close>

definition rests_ok :: "u64 \<Rightarrow> m0_be_reg_d list list \<Rightarrow> bool" where
  "rests_ok addr rss \<longleftrightarrow> (\<forall>rs \<in> set rss. regs_ok rs \<and> (\<forall>r \<in> set rs. unat addr < rhi r)) \<and>
     sorted_wrt (\<lambda>rs ss. \<forall>r \<in> set rs. \<forall>s \<in> set ss. rd_gen_idx r \<noteq> rd_gen_idx s) rss"

text \<open>The pieces and the bytes that are still to come.\<close>

definition pieces_left :: "u64 \<Rightarrow> m0_be_reg_d list \<Rightarrow> nat" where
  "pieces_left addr rs = (\<Sum>r\<leftarrow>rs. if unat addr < rlo r then 2 else 1)"

definition bytes_left :: "u64 \<Rightarrow> m0_be_reg_d list \<Rightarrow> nat" where
  "bytes_left addr rs = (\<Sum>r\<leftarrow>rs. rhi r - max (rlo r) (unat addr))"

lemma heads_differ:
  assumes "rests_ok addr rss"
  shows "gens_differ (heads rss)"
  using assms unfolding rests_ok_def gens_differ_def heads_def sorted_wrt_map
  by (auto elim!: sorted_wrt_mono_rel [rotated] split: list.splits)

lemma gens_differ_eq:
  assumes "gens_differ hs" "Some r \<in> set hs" "Some s \<in> set hs" "rd_gen_idx r = rd_gen_idx s"
  shows "r = s"
proof -
  obtain i j where ij: "i < length hs" "hs ! i = Some r" "j < length hs" "hs ! j = Some s" using assms(2,3) by (auto simp: in_set_conv_nth)
  then show ?thesis
    using assms(1,4) sorted_wrt_nth_less [of _ hs i j] sorted_wrt_nth_less [of _ hs j i]
    unfolding gens_differ_def by (cases i j rule: linorder_cases) fastforce+
qed

lemma left_antimono:
  assumes "unat addr \<le> unat e"
  shows "pieces_left e rs \<le> pieces_left addr rs" "bytes_left e rs \<le> bytes_left addr rs"
  using assms by (auto simp: pieces_left_def bytes_left_def intro!: sum_list_mono)

lemma sum_list_drop:
  fixes f g :: "'a \<Rightarrow> nat"
  assumes "\<forall>x \<in> set xs. f x \<le> g x" "y \<in> set xs" "f y + k \<le> g y"
  shows "(\<Sum>x\<leftarrow>xs. f x) + k \<le> (\<Sum>x\<leftarrow>xs. g x)"
  using assms
proof (induction xs)
  case (Cons x xs)
  show ?case
  proof (cases "y \<in> set xs")
    case True
    then show ?thesis using Cons by (simp add: add.assoc add_mono)
  next
    case False
    then have "x = y" using Cons.prems(2) by auto
    moreover have "(\<Sum>x\<leftarrow>xs. f x) \<le> (\<Sum>x\<leftarrow>xs. g x)" using Cons.prems(1) by (intro sum_list_mono) simp
    ultimately show ?thesis using Cons.prems(3) by simp
  qed
qed simp

text \<open>A piece, as \<open>first_subreg_ok\<close> describes it.\<close>

definition is_piece :: "u64 \<Rightarrow> u64 \<Rightarrow> u64 \<Rightarrow> m0_be_reg_d list list \<Rightarrow> bool" where
  "is_piece addr a e rss \<longleftrightarrow> unat addr \<le> unat a \<and> unat a < unat e \<and>
     (\<forall>r ss. r # ss \<in> set rss \<longrightarrow>
        (rlo r \<le> unat a \<and> unat e \<le> rhi r \<or> unat e \<le> rlo r) \<and> unat a \<le> max (rlo r) (unat addr))"

lemma piece_head:
  assumes "is_piece addr a e rss" "rests_ok addr rss" "r # ss \<in> set rss"
  shows "reg_ok r" "unat e \<le> rhi r" "s \<in> set ss \<Longrightarrow> reg_ok s \<and> unat e \<le> rlo s \<and> rhi r \<le> rlo s"
proof -
  have r: "regs_ok (r # ss)" "rlo r \<le> unat a \<and> unat e \<le> rhi r \<or> unat e \<le> rlo r" using assms by (auto simp: is_piece_def rests_ok_def)
  then show ok: "reg_ok r" and e: "unat e \<le> rhi r" by auto
  show "reg_ok s \<and> unat e \<le> rlo s \<and> rhi r \<le> rlo s" if "s \<in> set ss" using r(1) e that by (auto simp: regs_ok_def)
qed

lemma pass_sub: "set (pass e rs) \<subseteq> set rs"
  by (auto simp: pass_def split: list.splits if_splits)

lemma pass_regs_ok: "regs_ok rs \<Longrightarrow> regs_ok (pass e rs)"
  by (auto simp: pass_def split: list.splits)

lemma piece_rests:
  assumes "is_piece addr a e rss" "rests_ok addr rss"
  shows "rests_ok e (map (pass e) rss)"
proof -
  have "unat e < rhi s" if rs: "rs \<in> set rss" and s: "s \<in> set (pass e rs)" for rs s
  proof (cases rs)
    case (Cons r ss)
    note head = piece_head [OF assms rs [unfolded Cons]]
    have "unat (be_reg_d_lb1 r) = rhi r" using unat_reg_bytes(4) [OF head(1)] .
    then have "s \<in> set ss \<or> s = r \<and> unat e \<noteq> rhi r" using s Cons by (auto simp: pass_def word_unat_eq_iff split: if_splits)
    then show ?thesis using head(1,2) head(3) [of s] by (auto simp: reg_ok_def)
  qed (use s in \<open>simp add: pass_def\<close>)
  moreover have "sorted_wrt (\<lambda>rs ss. \<forall>r \<in> set rs. \<forall>s \<in> set ss. rd_gen_idx r \<noteq> rd_gen_idx s) (map (pass e) rss)"
    using assms(2) pass_sub unfolding rests_ok_def sorted_wrt_map
    by (elim conjE sorted_wrt_mono_rel [rotated]) blast
  ultimately show ?thesis using assms(2) pass_regs_ok by (auto simp: rests_ok_def)
qed

lemma piece_pass:
  assumes "is_piece addr a e rss" "rests_ok addr rss" "rs \<in> set rss"
  shows "pieces_left e (pass e rs) \<le> pieces_left addr rs" "bytes_left e (pass e rs) \<le> bytes_left addr rs"
proof -
  have le: "unat addr \<le> unat e" using assms(1) by (simp add: is_piece_def)
  have "pieces_left e (pass e rs) \<le> pieces_left e rs" "bytes_left e (pass e rs) \<le> bytes_left e rs"
    by (auto simp: pass_def pieces_left_def bytes_left_def split: list.splits)
  then show "pieces_left e (pass e rs) \<le> pieces_left addr rs" "bytes_left e (pass e rs) \<le> bytes_left addr rs"
    using left_antimono [OF le, of rs] by linarith+
qed

lemma piece_pieces:
  assumes "is_piece addr a e rss" "rests_ok addr rss" "r # ss \<in> set rss" "unat e = rhi r \<or> unat e = rlo r \<and> unat addr < rlo r"
  shows "(\<Sum>rs\<leftarrow>map (pass e) rss. pieces_left e rs) + 1 \<le> (\<Sum>rs\<leftarrow>rss. pieces_left addr rs)"
proof -
  have le: "unat addr \<le> unat e" using assms(1) by (simp add: is_piece_def)
  have lb1: "be_reg_d_lb1 r = e \<longleftrightarrow> rhi r = unat e"
    using unat_reg_bytes(4) [OF piece_head(1) [OF assms(1-3)]] by (simp add: word_unat_eq_iff)
  have "pieces_left e (pass e (r # ss)) + 1 \<le> pieces_left addr (r # ss)"
    using assms(4) left_antimono(1) [OF le, of ss] by (auto simp: pass_def lb1 pieces_left_def)
  then show ?thesis
    using sum_list_drop [of rss "\<lambda>rs. pieces_left e (pass e rs)" "pieces_left addr" "r # ss" 1] piece_pass(1) [OF assms(1,2)] assms(3)
    by (simp add: comp_def)
qed

lemma piece_bytes:
  assumes "is_piece addr a e rss" "rests_ok addr rss" "r # ss \<in> set rss" "rlo r \<le> unat a"
  shows "(\<Sum>rs\<leftarrow>map (pass e) rss. bytes_left e rs) + (unat e - unat a) \<le> (\<Sum>rs\<leftarrow>rss. bytes_left addr rs)"
proof -
  have le: "unat addr \<le> unat a" "unat a < unat e" using assms(1) by (simp_all add: is_piece_def)
  have lb1: "be_reg_d_lb1 r = e \<longleftrightarrow> rhi r = unat e"
    using unat_reg_bytes(4) [OF piece_head(1) [OF assms(1-3)]] by (simp add: word_unat_eq_iff)
  have "bytes_left e (pass e (r # ss)) + (unat e - unat a) \<le> bytes_left addr (r # ss)"
    using assms(4) le left_antimono(2) [of addr e ss] piece_head(2) [OF assms(1-3)] by (auto simp: pass_def lb1 bytes_left_def)
  then show ?thesis
    using sum_list_drop [of rss "\<lambda>rs. bytes_left e (pass e rs)" "bytes_left addr" "r # ss" "unat e - unat a"] piece_pass(2) [OF assms(1,2)] assms(3)
    by (simp add: comp_def)
qed

lemma piece_in:
  assumes "is_piece addr a e rss" "rests_ok addr rss" "r \<in> set (concat rss)" "m0_be_reg_d_is_in r x" "unat addr \<le> unat x"
  shows "unat a \<le> unat x" "unat x < unat e \<Longrightarrow> \<exists>ss. r # ss \<in> set rss \<and> rlo r \<le> unat a"
proof -
  obtain rs where r: "rs \<in> set rss" "r \<in> set rs" using assms(3) by auto
  then have "rs \<noteq> []" by auto
  then obtain h ss where "rs = h # ss" by (auto simp: neq_Nil_conv)
  then have rs: "h # ss \<in> set rss" "r = h \<or> r \<in> set ss" using r by auto
  note head = piece_head [OF assms(1,2) rs(1)]
  have "reg_ok r" using rs(2) head(1,3) by auto
  then have x: "rlo r \<le> unat x" "unat x < rhi r" using assms(4) is_in_nat by auto
  have a: "unat a < unat e" "unat a \<le> max (rlo h) (unat addr)" "rlo h \<le> unat a \<and> unat e \<le> rhi h \<or> unat e \<le> rlo h"
    using assms(1) rs(1) by (auto simp: is_piece_def)
  show "unat a \<le> unat x" using rs(2) x a head(3) [of r] assms(5) by auto
  show "\<exists>ss. r # ss \<in> set rss \<and> rlo r \<le> unat a" if "unat x < unat e"
    using rs x a head(3) [of r] that by auto
qed

lemma piece_newest:
  assumes "is_piece addr a e rss" "rests_ok addr rss" "unat addr \<le> unat x"
    and b: "b # bs \<in> set rss" "rlo b \<le> unat a" "\<And>r ss. r # ss \<in> set rss \<Longrightarrow> rlo r \<le> unat a \<Longrightarrow> rd_gen_idx r \<le> rd_gen_idx b"
  shows "newest (concat rss) x =
    (if unat x < unat a then None else if unat x < unat e then Some b else newest (concat (map (pass e) rss)) x)"
proof -
  consider "unat x < unat a" | "unat a \<le> unat x" "unat x < unat e" | "unat e \<le> unat x" "unat a \<le> unat x"
    using assms(1) by (auto simp: is_piece_def) linarith
  then show ?thesis
  proof cases
    case 1
    then show ?thesis using piece_in(1) [OF assms(1,2) _ _ assms(3)] by (force simp: newest_None)
  next
    case 2
    have "newest (concat rss) x = Some b"
    proof (rule newest_eq)
      show "b \<in> set (concat rss)" using b(1) by force
      show "m0_be_reg_d_is_in b x" using piece_head(1,2) [OF assms(1,2) b(1)] 2 b(2) by (simp add: is_in_nat)
      show "r = b \<or> rd_gen_idx r < rd_gen_idx b" if r: "r \<in> set (concat rss)" "m0_be_reg_d_is_in r x" for r
      proof -
        obtain ss where ss: "r # ss \<in> set rss" "rlo r \<le> unat a" using piece_in(2) [OF assms(1,2) r assms(3)] 2 by auto
        have "Some r \<in> set (heads rss)" "Some b \<in> set (heads rss)" using ss(1) b(1) by (auto simp: in_heads)
        then show ?thesis using gens_differ_eq [OF heads_differ [OF assms(2)]] b(3) [OF ss] by (metis le_neq_trans)
      qed
    qed
    then show ?thesis using 2 by simp
  next
    case 3
    have "filter (\<lambda>r. m0_be_reg_d_is_in r x) (pass e rs) = filter (\<lambda>r. m0_be_reg_d_is_in r x) rs" if rs: "rs \<in> set rss" for rs
    proof (cases rs)
      case (Cons r ss)
      have "reg_ok r" using piece_head(1) [OF assms(1,2) rs [unfolded Cons]] .
      then have "\<not> m0_be_reg_d_is_in r x" if "be_reg_d_lb1 r = e" using 3 that unat_reg_bytes(4) [of r] by (auto simp: is_in_nat)
      then show ?thesis by (simp add: Cons pass_def)
    qed (simp add: pass_def)
    then have "filter (\<lambda>r. m0_be_reg_d_is_in r x) (concat (map (pass e) rss)) = filter (\<lambda>r. m0_be_reg_d_is_in r x) (concat rss)"
      by (induction rss) auto
    then have "newest (concat (map (pass e) rss)) x = newest (concat rss) x" by (metis newest_filter)
    then show ?thesis using 3 by simp
  qed
qed

section \<open>The merge\<close>

lemma has_credit_less: "has_credit ra nr sz \<Longrightarrow> nr' \<le> nr \<Longrightarrow> sz' \<le> sz \<Longrightarrow> has_credit ra nr' sz'"
  by (simp add: has_credit_def)

text \<open>The part of the newest region that a step captures.\<close>

definition part_of :: "m0_be_reg_d \<Rightarrow> u64 \<Rightarrow> u64 \<Rightarrow> m0_be_reg_d" where
  "part_of b a sz = \<lparr>rd_reg = \<lparr>br_seg = br_seg (rd_reg b), br_size = sz, br_addr = a\<rparr>,
     rd_buf = rd_buf b + (a - be_reg_d_fb b), rd_gen_idx = rd_gen_idx b\<rparr>"

lemma part_of_ok:
  assumes "reg_ok (piece a sz)"
  shows "reg_ok (part_of b a sz)" "rsz (part_of b a sz) = unat sz" "buf_at (part_of b a sz) x = buf_at b x"
    "m0_be_reg_d_is_in (part_of b a sz) x \<longleftrightarrow> unat a \<le> unat x \<and> unat x < unat a + unat sz"
proof -
  show ok: "reg_ok (part_of b a sz)" "rsz (part_of b a sz) = unat sz" using assms by (simp_all add: reg_ok_def part_of_def)
  show "buf_at (part_of b a sz) x = buf_at b x" by (simp add: buf_at_def part_of_def be_reg_d_fb_def)
  show "m0_be_reg_d_is_in (part_of b a sz) x \<longleftrightarrow> unat a \<le> unat x \<and> unat x < unat a + unat sz"
    using is_in_nat [OF ok(1)] by (simp add: part_of_def)
qed

lemma merge_step:
  assumes "list_all2 pos_ok ras pos" "rests_ok addr (rests ras pos)" "rs \<in> set (rests ras pos)" "rs \<noteq> []"
  obtains a sz b bs where "be_reg_d_arr_first_subreg (pos_regs ras pos) addr = Some (a, sz)" "reg_ok (piece a sz)"
    "be_reg_area_merger_max_gen_idx (pos_regs ras pos) a sz = Some (part_of b a sz)"
    "unat (a + sz) = unat a + unat sz" "is_piece addr a (a + sz) (rests ras pos)"
    "b # bs \<in> set (rests ras pos)" "rlo b \<le> unat a"
    "\<And>r ss. r # ss \<in> set (rests ras pos) \<Longrightarrow> rlo r \<le> unat a \<Longrightarrow> rd_gen_idx r \<le> rd_gen_idx b"
    "\<exists>r ss. r # ss \<in> set (rests ras pos) \<and> (unat (a + sz) = rhi r \<or> unat (a + sz) = rlo r \<and> unat addr < rlo r)"
proof -
  let ?rss = "rests ras pos" and ?hs = "pos_regs ras pos"
  have hs: "Some r \<in> set ?hs \<longleftrightarrow> (\<exists>ss. r # ss \<in> set ?rss)" for r using pos_heads [OF assms(1)] in_heads by metis
  have cur: "\<forall>r. Some r \<in> set ?hs \<longrightarrow> current addr r" using assms(2) unfolding hs by (force simp: rests_ok_def current_def regs_ok_def)
  obtain s ss where "rs = s # ss" using assms(4) by (auto simp: neq_Nil_conv)
  then have s: "Some s \<in> set ?hs" using assms(3) hs by auto
  obtain a sz where sub: "be_reg_d_arr_first_subreg ?hs addr = Some (a, sz)" "reg_ok (piece a sz)" "unat addr \<le> unat a"
    "unat (a + sz) = unat a + unat sz"
    "\<And>r. Some r \<in> set ?hs \<Longrightarrow> rlo r \<le> unat a \<and> unat a + unat sz \<le> rhi r \<or> unat a + unat sz \<le> rlo r"
    "\<exists>r. Some r \<in> set ?hs \<and> rlo r \<le> unat a \<and> unat a + unat sz \<le> rhi r"
    "\<exists>r. Some r \<in> set ?hs \<and> (unat a + unat sz = rhi r \<or> unat a + unat sz = rlo r \<and> unat addr < rlo r)"
    "\<And>r. Some r \<in> set ?hs \<Longrightarrow> unat a \<le> max (rlo r) (unat addr)"
    by (rule first_subreg_ok [OF cur s]) (rule that)
  have "gens_differ ?hs" using heads_differ [OF assms(2)] pos_heads [OF assms(1)] by simp
  moreover have "\<forall>r. Some r \<in> set ?hs \<longrightarrow> reg_ok r \<and> (rlo r \<le> unat a \<and> unat a + unat sz \<le> rhi r \<or> unat a + unat sz \<le> rlo r)"
    using cur sub(5) by (auto simp: current_def)
  moreover obtain t where "Some t \<in> set ?hs" "rlo t \<le> unat a" "unat a + unat sz \<le> rhi t" using sub(6) by blast
  ultimately obtain b where b: "be_reg_area_merger_max_gen_idx ?hs a sz = Some (part_of b a sz)" "Some b \<in> set ?hs" "rlo b \<le> unat a"
    "unat a + unat sz \<le> rhi b" "\<And>r. Some r \<in> set ?hs \<Longrightarrow> rlo r \<le> unat a \<Longrightarrow> rd_gen_idx r \<le> rd_gen_idx b"
    unfolding part_of_def using merger_max_gen_ok [of ?hs a sz, OF _ _ sub(2)] by blast
  obtain bs where bs: "b # bs \<in> set ?rss" using b(2) hs by blast
  have "0 < unat sz" using sub(2) by (simp add: reg_ok_def)
  then have "is_piece addr a (a + sz) ?rss" using sub(3-5,8) hs by (auto simp: is_piece_def)
  moreover have "\<exists>r ss. r # ss \<in> set ?rss \<and> (unat (a + sz) = rhi r \<or> unat (a + sz) = rlo r \<and> unat addr < rlo r)"
    using sub(7) hs unfolding sub(4) by blast
  moreover have "rd_gen_idx r \<le> rd_gen_idx b" if "r # ss \<in> set ?rss" "rlo r \<le> unat a" for r ss using b(5) that hs by blast
  ultimately show thesis using that [OF sub(1,2) b(1) sub(4) _ bs b(3)] by blast
qed

lemma merge_to_loop_ok:
  assumes "list_all2 pos_ok ras pos" "rests_ok addr (rests ras pos)" "bufs_in (- {0}) (concat (rests ras pos))"
    "area_ok ra" "bra_type ra = M0_BE_REG_AREA_DATA_NOCOPY"
    "has_credit ra (\<Sum>rs\<leftarrow>rests ras pos. pieces_left addr rs) (\<Sum>rs\<leftarrow>rests ras pos. bytes_left addr rs)"
  shows "\<exists>ra'. merge_to_loop ras pos addr (m, ra) = Some (m, ra') \<and> area_ok ra' \<and> area_bytes m (area_regs ra') =
    (\<lambda>x. if unat addr \<le> unat x then (area_bytes m (area_regs ra) ++ merged m (concat (rests ras pos))) x
         else area_bytes m (area_regs ra) x)"
  using assms
proof (induction "\<Sum>rs\<leftarrow>rests ras pos. pieces_left addr rs" arbitrary: pos addr ra rule: less_induct)
  case less
  let ?rss = "rests ras pos"
  show ?case
  proof (cases "\<exists>rs \<in> set ?rss. rs \<noteq> []")
    case False
    then have "\<forall>r \<in> set (concat ?rss). \<not> m0_be_reg_d_is_in r x" for x by auto
    then have none: "merged m (concat ?rss) = Map.empty" using newest_None [of "concat ?rss"] by (auto simp: merged_def fun_eq_iff)
    have "merge_to_loop ras pos addr (m, ra) = Some (m, ra)"
      using False pos_exists [OF less.prems(1)] by (subst merge_to_loop.simps) auto
    then show ?thesis using less.prems(4) unfolding none by (intro exI [of _ ra]) (simp add: fun_eq_iff)
  next
    case True
    then obtain rs where rs: "rs \<in> set ?rss" "rs \<noteq> []" by blast
    obtain a sz b bs where st: "be_reg_d_arr_first_subreg (pos_regs ras pos) addr = Some (a, sz)" "reg_ok (piece a sz)"
      "be_reg_area_merger_max_gen_idx (pos_regs ras pos) a sz = Some (part_of b a sz)"
      "unat (a + sz) = unat a + unat sz" "is_piece addr a (a + sz) ?rss" "b # bs \<in> set ?rss" "rlo b \<le> unat a"
      "\<And>r ss. r # ss \<in> set ?rss \<Longrightarrow> rlo r \<le> unat a \<Longrightarrow> rd_gen_idx r \<le> rd_gen_idx b"
      "\<exists>r ss. r # ss \<in> set ?rss \<and> (unat (a + sz) = rhi r \<or> unat (a + sz) = rlo r \<and> unat addr < rlo r)"
      by (rule merge_step [OF less.prems(1,2) rs]) (rule that)
    let ?e = "a + sz" and ?rd = "part_of b a sz" and ?rss' = "map (pass (a + sz)) ?rss"
    note rd = part_of_ok [OF st(2), of b]
    obtain pos' where pos': "pass_stale ras ?e pos = Some pos'" "list_all2 pos_ok ras pos'" "rests ras pos' = ?rss'"
      using pass_stale_ok [OF less.prems(1)] by blast
    have fewer: "(\<Sum>rs\<leftarrow>?rss'. pieces_left ?e rs) + 1 \<le> (\<Sum>rs\<leftarrow>?rss. pieces_left addr rs)"
      using piece_pieces [OF st(5) less.prems(2)] st(9) by blast
    have smaller: "(\<Sum>rs\<leftarrow>?rss'. bytes_left ?e rs) + unat sz \<le> (\<Sum>rs\<leftarrow>?rss. bytes_left addr rs)"
      using piece_bytes [OF st(5) less.prems(2) st(6,7)] st(4) by simp
    have b: "reg_ok b" "unat a < rhi b"
      using piece_head(1,2) [OF st(5) less.prems(2) st(6)] st(5) by (auto simp: is_piece_def)
    then have "m0_be_reg_d_is_in b a" using st(7) by (simp add: is_in_nat)
    then have "buf_at b a \<noteq> 0" using less.prems(3) st(6) by (fastforce simp: bufs_in_def)
    then have buf: "(rd_buf ?rd = 0) = (bra_type ra = M0_BE_REG_AREA_DATA_COPY)" using less.prems(5) by (simp add: part_of_def buf_at_def)
    have cr: "has_credit ra 1 (rsz ?rd)" using less.prems(6) fewer smaller rd(2) by (intro has_credit_less [OF less.prems(6)]) auto
    obtain m' ra1 where cap: "m0_be_reg_area_capture m ra ?rd = Some (m', ra1)" "area_ok ra1" "bra_type ra1 = bra_type ra"
      "\<And>nr sz. has_credit ra (nr + 1) (sz + rsz ?rd) \<Longrightarrow> has_credit ra1 nr sz" "\<And>x. x \<notin> area_buffer ra \<Longrightarrow> m' x = m x"
      "area_bytes m' (area_regs ra1) = (\<lambda>x. if m0_be_reg_d_is_in ?rd x then Some (m (area_source (bra_type ra) ?rd x))
         else area_bytes m (area_regs ra) x)"
      using capture_ok [OF less.prems(4) rd(1) buf cr, of m] by blast
    have m: "m' = m" using cap(5) less.prems(5) by (auto simp: area_buffer_def)
    have "has_credit ra1 (\<Sum>rs\<leftarrow>?rss'. pieces_left ?e rs) (\<Sum>rs\<leftarrow>?rss'. bytes_left ?e rs)"
      using fewer smaller rd(2) by (intro cap(4) has_credit_less [OF less.prems(6)]) auto
    moreover have "bufs_in (- {0}) (concat ?rss')"
      using less.prems(3) pass_sub by (fastforce simp: bufs_in_def)
    ultimately obtain ra' where IH: "merge_to_loop ras pos' ?e (m, ra1) = Some (m, ra')" "area_ok ra'" "area_bytes m (area_regs ra') =
      (\<lambda>x. if unat ?e \<le> unat x then (area_bytes m (area_regs ra1) ++ merged m (concat ?rss')) x else area_bytes m (area_regs ra1) x)"
      using less.hyps [of ?e pos' ra1] pos'(2,3) fewer piece_rests [OF st(5) less.prems(2)] cap(2,3) less.prems(5) by (auto cong: if_cong)
    have "merge_to_loop ras pos addr (m, ra) = Some (m, ra')"
      using True pos_exists [OF less.prems(1)] st(1,3) cap(1) pos'(1) IH(1) by (subst merge_to_loop.simps) (simp add: m)
    moreover have "area_bytes m (area_regs ra') x = (if unat addr \<le> unat x
        then (area_bytes m (area_regs ra) ++ merged m (concat ?rss)) x else area_bytes m (area_regs ra) x)" for x
    proof -
      have src: "area_source (bra_type ra) ?rd x = buf_at b x" using less.prems(5) rd(3) by (simp add: area_source_def)
      have le: "unat addr \<le> unat a" "unat a < unat ?e" using st(5) by (simp_all add: is_piece_def)
      have ra1: "area_bytes m (area_regs ra1) x =
          (if unat a \<le> unat x \<and> unat x < unat ?e then Some (m (buf_at b x)) else area_bytes m (area_regs ra) x)"
        using cap(6) src rd(4) [of x] st(4) by (simp add: m)
      show ?thesis
      proof (cases "unat addr \<le> unat x")
        case True
        from piece_newest [OF st(5) less.prems(2) True st(6-8)] show ?thesis
          using le True unfolding IH(3) merged_def map_add_def ra1 by (auto split: option.split)
      next
        case False
        then show ?thesis using le unfolding IH(3) ra1 by auto
      qed
    qed
    ultimately show ?thesis using IH(2) by (intro exI [of _ ra']) (simp add: fun_eq_iff)
  qed
qed

section \<open>Properties\<close>

text \<open>
  C3. The merger of areas terminates without a failed assertion, given a target that refers to bytes and has credit for two pieces per region and all their
  bytes, areas whose regions have different generations, and buffers that do not contain \<^verbatim>\<open>NULL\<close>. Each address gets the byte of the region with the greatest generation among all areas, whichever
  way the regions overlap, and the other addresses of the target keep theirs.
\<close>

theorem merger_newest_bytes:
  assumes "\<forall>src \<in> set (brm_reg_areas brm). area_ok src"
    "sorted_wrt (\<lambda>src src'. \<forall>r \<in> set (area_regs src). \<forall>s \<in> set (area_regs src'). rd_gen_idx r \<noteq> rd_gen_idx s) (brm_reg_areas brm)"
    "bufs_in (- {0}) (concat (map area_regs (brm_reg_areas brm)))"
    "area_ok ra" "bra_type ra = M0_BE_REG_AREA_DATA_NOCOPY"
    "has_credit ra (\<Sum>src\<leftarrow>brm_reg_areas brm. 2 * length (area_regs src)) (\<Sum>src\<leftarrow>brm_reg_areas brm. \<Sum>r\<leftarrow>area_regs src. rsz r)"
  shows "\<exists>ra'. m0_be_reg_area_merger_merge_to brm m ra = Some (m, ra') \<and> area_ok ra' \<and>
    area_bytes m (area_regs ra') = area_bytes m (area_regs ra) ++ merged m (concat (map area_regs (brm_reg_areas brm)))"
proof -
  let ?ras = "brm_reg_areas brm" and ?rss = "map area_regs (brm_reg_areas brm)"
  obtain pos where pos: "merge_first ?ras = Some pos" "list_all2 pos_ok ?ras pos" "rests ?ras pos = ?rss"
    using merge_first_ok [OF assms(1)] by blast
  have regs: "regs_ok (area_regs src)" if "src \<in> set ?ras" for src
    using assms(1) that by (simp add: area_ok_def rdt_ok_def area_regs_def)
  have pl: "pieces_left 0 rs = 2 * length rs" "bytes_left 0 rs = (\<Sum>r\<leftarrow>rs. rsz r)" if "regs_ok rs" for rs
    using that by (induction rs) (auto simp: pieces_left_def bytes_left_def reg_ok_def)
  have "rests_ok 0 ?rss"
    using regs assms(2) by (auto simp: rests_ok_def sorted_wrt_map regs_ok_def reg_ok_def)
  moreover have "has_credit ra (\<Sum>rs\<leftarrow>?rss. pieces_left 0 rs) (\<Sum>rs\<leftarrow>?rss. bytes_left 0 rs)"
    using assms(6) pl regs by (simp add: comp_def cong: map_cong)
  ultimately show ?thesis
    using merge_to_loop_ok [OF pos(2), of 0 ra m] pos(1,3) assms(3-5) by (simp add: m0_be_reg_area_merger_merge_to_def)
qed

text \<open>A buffer that starts after \<^verbatim>\<open>NULL\<close> and does not wrap around does not contain it.\<close>

lemma buf_not_null:
  assumes "\<forall>r \<in> set rs. reg_ok r \<and> 0 < unat (rd_buf r) \<and> unat (rd_buf r) + rsz r \<le> 2 ^ 64"
  shows "bufs_in (- {0}) rs"
proof -
  have "buf_at r a \<noteq> 0" if r: "r \<in> set rs" and a: "m0_be_reg_d_is_in r a" for r a
  proof
    assume "buf_at r a = 0"
    moreover have ok: "reg_ok r" "0 < unat (rd_buf r)" "unat (rd_buf r) + rsz r \<le> 2 ^ 64" using assms r by auto
    ultimately have "unat (0 - rd_buf r) < rsz r" using buf_at_bytes [OF ok(1) a] by (simp add: word_less_nat_alt)
    moreover have "unat (0 - rd_buf r) = 2 ^ 64 - unat (rd_buf r)"
      using unat_sub_if_size [of 0 "rd_buf r"] ok(2) by (simp add: word_le_nat_alt word_size)
    ultimately show False using ok(3) by simp
  qed
  then show ?thesis by (auto simp: bufs_in_def)
qed

definition newer_area :: m0_be_reg_area where
  "newer_area = sample_area\<lparr>bra_map := (bra_map sample_area)\<lparr>br_rdt :=
     \<lparr>brt_size = 1, brt_size_max = 3, brt_r = [(region 20 14 12288)\<lparr>rd_gen_idx := 1\<rparr>, region 0 0 0, region 0 0 0]\<rparr>\<rparr>\<rparr>"

lemma newer_area_ok: "area_ok newer_area" "area_regs newer_area = [(region 20 14 12288)\<lparr>rd_gen_idx := 1\<rparr>]"
proof -
  show regs: "area_regs newer_area = [(region 20 14 12288)\<lparr>rd_gen_idx := 1\<rparr>]"
    by (simp add: newer_area_def area_regs_def rdt_regs_def)
  show "area_ok newer_area"
    unfolding area_ok_def rdt_ok_def area_regs_def [symmetric] regs
    by (simp add: newer_area_def sample_area_def region_def reg_ok_def bufs_in_def area_in_use_def credit_simps)
qed

theorem merger_newest_bytes_witness:
  "\<exists>ra ra'. m0_be_reg_area_init (Some (replicate 15 (region 0 0 0))) 0 (M0_BE_TX_CREDIT 8 64) M0_BE_REG_AREA_DATA_NOCOPY = Some (0, ra) \<and>
    m0_be_reg_area_merger_merge_to \<lparr>brm_reg_area_nr_max = 2, brm_reg_areas = [sample_area, newer_area]\<rparr> (\<lambda>a. ucast (drop_bit 12 a)) ra =
      Some (\<lambda>a. ucast (drop_bit 12 a), ra') \<and>
    map (area_bytes (\<lambda>a. ucast (drop_bit 12 a)) (area_regs ra')) [15, 17, 21, 33, 35] = [None, Some 1, Some 3, Some 3, Some 2]"
proof -
  let ?m = "\<lambda>a :: u64. ucast (drop_bit 12 a) :: u8" and ?brm = "\<lparr>brm_reg_area_nr_max = 2, brm_reg_areas = [sample_area, newer_area]\<rparr>"
  obtain ra where ra: "m0_be_reg_area_init (Some (replicate 15 (region 0 0 0))) 0 (M0_BE_TX_CREDIT 8 64) M0_BE_REG_AREA_DATA_NOCOPY = Some (0, ra)"
    "area_ok ra" "area_regs ra = []" "bra_type ra = M0_BE_REG_AREA_DATA_NOCOPY" "bra_prepared (bra_buf ra) = M0_BE_TX_CREDIT 8 64"
    "bra_captured ra = M0_BE_TX_CREDIT 0 0"
    using area_init_ok [of "M0_BE_TX_CREDIT 8 64" "replicate 15 (region 0 0 0)" M0_BE_REG_AREA_DATA_NOCOPY 0]
    by (auto simp: credit_simps)
  have bufs: "bufs_in (- {0}) (concat (map area_regs (brm_reg_areas ?brm)))"
    by (rule buf_not_null) (simp add: sample_area_ok newer_area_ok region_def reg_ok_def)
  have "\<exists>ra'. m0_be_reg_area_merger_merge_to ?brm ?m ra = Some (?m, ra') \<and> area_ok ra' \<and>
      area_bytes ?m (area_regs ra') = area_bytes ?m (area_regs ra) ++ merged ?m (concat (map area_regs (brm_reg_areas ?brm)))"
    by (rule merger_newest_bytes [OF _ _ bufs ra(2,4)])
      (simp_all add: sample_area_ok newer_area_ok region_def has_credit_def ra(5,6) credit_simps)
  moreover have "map (Map.empty ++ merged ?m (concat (map area_regs (brm_reg_areas ?brm)))) [15, 17, 21, 33, 35] =
      [None, Some 1, Some 3, Some 3, Some 2]"
    unfolding map_add_def merged_def
    by (simp add: sample_area_ok newer_area_ok m0_be_reg_d_is_in_def m0_ext_is_in_def REGD_EXT_def region_def buf_at_def be_reg_d_fb_def)
  moreover have "area_bytes ?m (area_regs ra) = Map.empty" by (simp add: ra(3) fun_eq_iff)
  ultimately show ?thesis using ra(1) by metis
qed









end
