(* ===== verification/Spec2Isabelle.thy ===== *)
theory Spec2Isabelle
  imports Motr_Ext Motr_Bitmap Motr_Pdclust Motr_Vec Motr_LongLock Motr_HaLq Motr_RegMerge
begin

text \<open>
  A verification of components of Motr, the object store of CORTX, written in C under \<^verbatim>\<open>src/\<close>.

  \<^bold>\<open>The program.\<close> A Motr server keeps metadata in memory-mapped segments that are changed by
  transactions (\<^verbatim>\<open>be\<close>), spreads the units of parity groups over devices by a layout
  (\<^verbatim>\<open>layout/pdclust\<close>), handles requests in state machines that wait for each other on long locks
  (\<^verbatim>\<open>fop\<close>), moves data through vectors of buffers (\<^verbatim>\<open>lib/vec\<close>), and exchanges messages with the
  high-availability subsystem over links with queues (\<^verbatim>\<open>ha\<close>). All of it uses the small library
  \<^verbatim>\<open>lib\<close>. The parts below are those whose behaviour is a function of their state; they are the
  algorithms that the services in front of them rely on.

  \<^bold>\<open>Conventions.\<close> A function that asserts (\<^verbatim>\<open>M0_PRE\<close>, \<^verbatim>\<open>M0_ASSERT\<close>, \<^verbatim>\<open>M0_POST\<close>) has an option type
  and \<^term>\<open>None\<close> is the panic, so a theorem that says \<open>f x = Some y\<close> also says that no assertion fails.
  Return codes are integers, machine integers are words of their width and wrap, structures are
  records with the field names of the code, and the outcome of an allocation is an argument.
  Code that is passed as a pointer to a function is a parameter. Loops are recursive functions
  with a termination proof, or \<^theory_text>\<open>partial_function (option)\<close> where the code gives no bound, and then
  the theorems prove that they return; no model uses fuel.

  \<^bold>\<open>Theories.\<close>
  \<^item> \<open>Motr_Prelude\<close>: machine types, assertions (\<^verbatim>\<open>lib/assert.h\<close>), error codes, lemmas on words and lists.
  \<^item> \<open>Motr_Misc\<close>: \<^verbatim>\<open>lib/misc.c\<close>, \<^verbatim>\<open>lib/arith.h\<close>, \<^verbatim>\<open>lib/hash.c\<close>. The random permutation with its inverse,
    the majority vote, 128-bit multiplication, the exchange sort (which leaves out the last element)
    and the random number below a bound.
  \<^item> \<open>Motr_Fid\<close>: \<^verbatim>\<open>fid/fid.c\<close>. File identifiers: their order (an instance of the class of linear orders), the table of fid types,
    the round trip through printing and \<^verbatim>\<open>sscanf()\<close>, of which the directives the code uses are modelled, and the typed form with
    its three spellings of numbers.
  \<^item> \<open>Motr_Ext\<close>: \<^verbatim>\<open>lib/ext.c\<close>, extents as sets of offsets.
  \<^item> \<open>Motr_Bitmap\<close>: \<^verbatim>\<open>lib/bitmap.c\<close>. Bitmaps over 64-bit words are arrays of bits: reading after writing,
    the search by words and the searches by bits against sets of bits, the round trip through the wire format.
  \<^item> \<open>Motr_Pdclust\<close>: \<^verbatim>\<open>layout/pdclust.c\<close>. The map from a unit of a parity group to a frame of a target object
    and its inverse, with the cached permutation of a tile: both round trips, no two units of a group on one
    object, independence of the cache, the tiles of a populated layout, and what building an instance gives
    and leaks. It uses \<open>Motr_Misc\<close> for the permutation and \<open>Motr_Fid\<close> for the identifiers; the locale \<open>column_permuter\<close> is what it relies on.
  \<^item> \<open>Motr_Vec\<close>: \<^verbatim>\<open>lib/vec.c\<close>. Vectors, buffer and index vectors and their cursors. The locale \<open>byte_cursor\<close> is the
    contract of a cursor, with interpretations for both kinds; copying is exact, packing normal, and
    the allocation functions free what they obtained.
  \<^item> \<open>Motr_LongLock\<close>: \<^verbatim>\<open>fop/fom_long_lock.c\<close> as a step relation of locking and unlocking requests: exclusion,
    no failed assertion, no overtaking, service in order, no starvation.
  \<^item> \<open>Motr_HaLq\<close>: \<^verbatim>\<open>ha/lq.c\<close>, \<^verbatim>\<open>ha/msg_queue.c\<close>. The four tags of a link queue implement an abstract queue with
    delivered, handed-out and fresh messages; nothing is lost, duplicated or reordered.
  \<^item> \<open>Motr_Regmap\<close>: \<^verbatim>\<open>be/tx_credit.c\<close>, \<^verbatim>\<open>be/tx_regmap.c\<close>. The regions captured by a transaction: the binary search,
    insertion into and deletion from the ordered array.
  \<^item> \<open>Motr_RegArea\<close>: the maps and areas of \<^verbatim>\<open>be/tx_regmap.c\<close> over that array. An area is a partial function from
    addresses to bytes. The locale \<open>area_callbacks\<close> is the contract between a map of regions and its callbacks, with interpretations for
    the two tables of the code (the bytes are copied, or referred to); every history of captures, uncaptures and resets leaves exactly the
    bytes last captured, merging an area into another one overrides its bytes, and counting terminates.
  \<^item> \<open>Motr_RegMerge\<close>: the merger of the areas of a group of transactions terminates and keeps, for every address, the byte
    of the newest region, given credit for two pieces per region; with the credit of the transactions alone it can fail.

  \<^bold>\<open>Bounds.\<close> Sizes and indices of arrays in memory (\<^verbatim>\<open>size_t\<close>, \<^verbatim>\<open>int\<close>) are natural numbers, since an array that
  exists is far smaller than the type allows, except where code returns or adds them in a narrower type: the
  index sums of the permutations, the segment counts of buffer vectors and the \<^verbatim>\<open>int\<close> results of the bitmap searches
  are cut, or fail, at their width. Quantities that come from outside (offsets, counts,
  tags, group numbers, addresses) are words. A theorem that needs a sum not to wrap says so in
  its hypotheses, and each has a witness.

  \<^bold>\<open>Not modelled.\<close> Threads, mutexes, channels and timers: a modelled operation runs under the lock that the
  code takes. Network and disk I/O, rpc, the configuration database, the B-tree and the log of
  the back-end, the services and clients built on them, kernel code, test code and generated code
  (\<^verbatim>\<open>*_xc.c\<close>): they are effects, or need models of libraries outside the repository. Magic numbers, trace output,
  telemetry and fault injection have no effect on the results and are left out.
\<close>

end
